(* ===== verification/Prelude.thy ===== *)
theory Prelude
  imports Main "HOL-Library.Word"
begin

text \<open>
  Shared vocabulary of the development: C integer conversions, C division, block copies
  between arrays (\<^verbatim>\<open>memcpy\<close>), the exceptions the firmware raises, and the word and list
  lemmas that several components use.
\<close>

unbundle bit_operations_syntax

named_theorems c_simps \<open>unfolding of the C integer conversions\<close>
named_theorems blit_simps \<open>laws of block copies\<close>

section \<open>C integers\<close>

type_synonym byte = "8 word"

definition u8 :: "nat \<Rightarrow> nat" where
  "u8 x = x mod 2 ^ 8"

definition u16 :: "nat \<Rightarrow> nat" where
  "u16 x = x mod 2 ^ 16"

definition u32 :: "nat \<Rightarrow> nat" where
  "u32 x = x mod 2 ^ 32"

definition s32 :: "int \<Rightarrow> int" where
  "s32 x = (x + 2 ^ 31) mod 2 ^ 32 - 2 ^ 31"

lemma u16_id [c_simps]: "x < 65536 \<Longrightarrow> u16 x = x"
  by (simp add: u16_def)

lemma u32_id [c_simps]: "x < 4294967296 \<Longrightarrow> u32 x = x"
  by (simp add: u32_def)

lemma u8_id [c_simps]: "x < 256 \<Longrightarrow> u8 x = x"
  by (simp add: u8_def)

lemma s32_id [c_simps]: "- 2147483648 \<le> x \<Longrightarrow> x < 2147483648 \<Longrightarrow> s32 x = x"
  by (simp add: s32_def)

text \<open>C's \<^verbatim>\<open>/\<close> and \<^verbatim>\<open>%\<close> truncate towards zero.\<close>

definition c_div :: "int \<Rightarrow> int \<Rightarrow> int" where
  "c_div a b = sgn a * sgn b * (\<bar>a\<bar> div \<bar>b\<bar>)"

definition c_rem :: "int \<Rightarrow> int \<Rightarrow> int" where
  "c_rem a b = a - c_div a b * b"

lemma c_div_nonneg [c_simps]: "0 \<le> a \<Longrightarrow> 0 < b \<Longrightarrow> c_div a b = a div b"
  by (cases "a = 0") (simp_all add: c_div_def sgn_if)

lemma c_rem_nonneg [c_simps]: "0 \<le> a \<Longrightarrow> 0 < b \<Longrightarrow> c_rem a b = a mod b"
  by (simp add: c_rem_def c_div_nonneg minus_div_mult_eq_mod)

lemma int_div_lessI:
  fixes a b c :: int
  assumes "0 < c" "a < b * c"
  shows "a div c < b"
proof (rule ccontr)
  assume "\<not> a div c < b"
  then have "b * c \<le> (a div c) * c" using assms(1) by (intro mult_right_mono) auto
  also have "\<dots> \<le> a" using assms(1) by (simp add: minus_mod_eq_div_mult [symmetric])
  finally show False using assms(2) by simp
qed

section \<open>Block copies\<close>

text \<open>
  \<^verbatim>\<open>memcpy(dst + off, src, len)\<close> on an array held as a list.  The copy stays inside the
  destination exactly when it keeps its length.
\<close>

definition blit :: "'a list \<Rightarrow> nat \<Rightarrow> 'a list \<Rightarrow> 'a list" where
  "blit dst off src = take off dst @ src @ drop (off + length src) dst"

lemma length_blit [blit_simps]:
  "off + length src \<le> length dst \<Longrightarrow> length (blit dst off src) = length dst"
  by (simp add: blit_def)

lemma nth_blit [blit_simps]:
  assumes "off + length src \<le> length dst" "i < length dst"
  shows "blit dst off src ! i =
    (if i < off then dst ! i else if i < off + length src then src ! (i - off) else dst ! i)"
  using assms by (auto simp: blit_def nth_append min_def)

lemma blit_Nil [blit_simps]: "off \<le> length dst \<Longrightarrow> blit dst off [] = dst"
  by (simp add: blit_def)

lemma blit_single: "off < length dst \<Longrightarrow> blit dst off [x] = dst[off := x]"
  by (simp add: blit_def upd_conv_take_nth_drop)

section \<open>Options\<close>

lemma option_eqI: "(\<And>v. a = Some v \<longleftrightarrow> b = Some v) \<Longrightarrow> a = b"
  by (cases a; cases b) auto

lemma find_Some_in: "find P xs = Some x \<Longrightarrow> x \<in> set xs \<and> P x"
  by (induction xs) (auto split: if_splits)

section \<open>Lists\<close>

lemma filter_drop_skip:
  assumes "i < length xs" "cur \<le> i" "P (xs ! i)" "\<And>j. cur \<le> j \<Longrightarrow> j < i \<Longrightarrow> \<not> P (xs ! j)"
  shows "filter P (drop cur xs) = xs ! i # filter P (drop (Suc i) xs)"
proof -
  have "drop (i - cur) (drop cur xs) = drop i xs" using assms(2) by simp
  then have "drop cur xs = take (i - cur) (drop cur xs) @ drop i xs"
    using append_take_drop_id [of "i - cur" "drop cur xs"] by simp
  moreover have "filter P (take (i - cur) (drop cur xs)) = []"
    using assms by (auto simp: filter_empty_conv in_set_conv_nth)
  moreover have "drop i xs = xs ! i # drop (Suc i) xs" using assms(1) by (rule Cons_nth_drop_Suc [symmetric])
  ultimately show ?thesis using assms(3) by (metis append_Nil filter.simps(2) filter_append)
qed

section \<open>Exceptions\<close>

datatype mp_error =
    ValueError string
  | TypeError string
  | IndexError string
  | OverflowError string
  | MemoryError
  | NotImplementedError
  | AssertionFailure

type_synonym 'a result = "mp_error + 'a"

end
