(* ===== verification/Ringbuf.thy ===== *)
theory Ringbuf
  imports Prelude
begin

text \<open>
  The byte ring buffer of \<^verbatim>\<open>py/ringbuf.h\<close> and \<^verbatim>\<open>py/ringbuf.c\<close>: one slot is kept free, so
  that \<^verbatim>\<open>iget == iput\<close> means empty.  The abstract view is the list of bytes still to be read;
  every operation is a queue operation on that list.
\<close>

section \<open>State and operations\<close>

record ringbuf =
  buf :: "byte list"
  size :: nat
  iget :: nat
  iput :: nat

definition ringbuf_alloc :: "byte list \<Rightarrow> ringbuf" where
  "ringbuf_alloc mem = \<lparr>buf = mem, size = u16 (length mem), iget = 0, iput = 0\<rparr>"

definition ringbuf_get :: "ringbuf \<Rightarrow> int \<times> ringbuf" where
  "ringbuf_get r =
     (if iget r = iput r then (-1, r)
      else let v = buf r ! iget r;
               g = u16 (iget r + 1);
               g' = (if g \<ge> size r then 0 else g)
           in (uint v, r\<lparr>iget := g'\<rparr>))"

definition ringbuf_peek :: "ringbuf \<Rightarrow> int" where
  "ringbuf_peek r = (if iget r = iput r then -1 else uint (buf r ! iget r))"

definition ringbuf_put :: "ringbuf \<Rightarrow> byte \<Rightarrow> int \<times> ringbuf" where
  "ringbuf_put r v =
     (let iput_new = u32 (iput r + 1);
          iput_new = (if iput_new \<ge> size r then 0 else iput_new)
      in if iput_new = iget r then (-1, r)
         else (0, r\<lparr>buf := (buf r)[iput r := v], iput := u16 iput_new\<rparr>))"

definition ringbuf_free :: "ringbuf \<Rightarrow> nat" where
  "ringbuf_free r =
     nat (c_rem (int (size r) + int (iget r) - int (iput r) - 1) (int (size r)))"

definition ringbuf_avail :: "ringbuf \<Rightarrow> nat" where
  "ringbuf_avail r = nat (c_rem (int (size r) + int (iput r) - int (iget r)) (int (size r)))"

definition ringbuf_memcpy_get_internal :: "ringbuf \<Rightarrow> nat \<Rightarrow> byte list \<times> ringbuf" where
  "ringbuf_memcpy_get_internal r data_len =
     (let g = iget r;
          iget_a = u32 (g + data_len) mod size r;
          (datap, g) = (if iget_a < g then (take (size r - g) (drop g (buf r)), 0) else ([], g));
          datap = datap @ take (iget_a - g) (drop g (buf r))
      in (datap, r\<lparr>iget := u16 iget_a\<rparr>))"

definition ringbuf_memcpy_put_internal :: "ringbuf \<Rightarrow> byte list \<Rightarrow> ringbuf" where
  "ringbuf_memcpy_put_internal r data =
     (let p = iput r;
          iput_a = u32 (p + length data) mod size r;
          (b, datap, p) = (if iput_a < p
             then (blit (buf r) p (take (size r - p) data), drop (size r - p) data, 0)
             else (buf r, data, p));
          b = blit b p (take (iput_a - p) datap)
      in r\<lparr>buf := b, iput := u16 iput_a\<rparr>)"

definition ringbuf_peek16 :: "ringbuf \<Rightarrow> int" where
  "ringbuf_peek16 r =
     (if iget r = iput r then -1
      else let iget_a = u32 (iget r + 1);
               iget_a = (if iget_a = size r then 0 else iget_a)
           in if iget_a = iput r then -1
              else push_bit 8 (uint (buf r ! iget r)) OR uint (buf r ! iget_a))"

definition ringbuf_get16 :: "ringbuf \<Rightarrow> int \<times> ringbuf" where
  "ringbuf_get16 r =
     (let v = ringbuf_peek16 r
      in if v = -1 then (v, r)
         else let g = u16 (iget r + 2);
                  g = (if g \<ge> size r then u16 (g - size r) else g)
              in (v, r\<lparr>iget := g\<rparr>))"

definition ringbuf_put16 :: "ringbuf \<Rightarrow> 16 word \<Rightarrow> int \<times> ringbuf" where
  "ringbuf_put16 r v =
     (let iput_a = u32 (iput r + 1);
          iput_a = (if iput_a = size r then 0 else iput_a)
      in if iput_a = iget r then (-1, r)
         else let iput_b = u32 (iput_a + 1);
                  iput_b = (if iput_b = size r then 0 else iput_b)
              in if iput_b = iget r then (-1, r)
                 else (0, r\<lparr>buf := (buf r)[iput r := ucast (drop_bit 8 v AND 0xff),
                                            iput_a := ucast (v AND 0xff)],
                            iput := u16 iput_b\<rparr>))"

definition ringbuf_get_bytes :: "ringbuf \<Rightarrow> nat \<Rightarrow> int \<times> byte list \<times> ringbuf" where
  "ringbuf_get_bytes r data_len =
     (if ringbuf_avail r < data_len then ((if size r \<le> data_len then -2 else -1), [], r)
      else (0, ringbuf_memcpy_get_internal r data_len))"

definition ringbuf_put_bytes :: "ringbuf \<Rightarrow> byte list \<Rightarrow> int \<times> ringbuf" where
  "ringbuf_put_bytes r data =
     (if ringbuf_free r < length data then ((if size r \<le> length data then -2 else -1), r)
      else (0, ringbuf_memcpy_put_internal r data))"

section \<open>Invariant and abstraction\<close>

definition ringbuf_wf :: "ringbuf \<Rightarrow> bool" where
  "ringbuf_wf r \<longleftrightarrow> 0 < size r \<and> size r < 65536 \<and> length (buf r) = size r
     \<and> iget r < size r \<and> iput r < size r"

definition used :: "ringbuf \<Rightarrow> nat" where
  "used r = (if iget r \<le> iput r then iput r - iget r else size r + iput r - iget r)"

definition contents :: "ringbuf \<Rightarrow> byte list" where
  "contents r = map (\<lambda>k. buf r ! ((iget r + k) mod size r)) [0..<used r]"

lemma ringbuf_wfD:
  assumes "ringbuf_wf r"
  shows "0 < size r" "size r < 65536" "length (buf r) = size r" "iget r < size r" "iput r < size r"
  using assms by (auto simp: ringbuf_wf_def)

lemma length_contents [simp]: "length (contents r) = used r"
  by (simp add: contents_def)

lemma used_less: "ringbuf_wf r \<Longrightarrow> used r < size r"
  by (auto simp: ringbuf_wf_def used_def)

lemma mod_wrap: "(a::nat) < n \<Longrightarrow> b < n \<Longrightarrow> (a + b) mod n = (if a + b < n then a + b else a + b - n)"
  by (simp add: mod_if)

lemma int_mod_once:
  assumes "0 \<le> x" "x < 2 * int n"
  shows "x mod int n = (if x < int n then x else x - int n)"
proof (cases "x < int n")
  case False
  have "x mod int n = (x - int n) mod int n" by simp
  also have "\<dots> = x - int n" using False assms by (intro mod_pos_pos_trivial) auto
  finally show ?thesis using False by simp
qed (use assms in simp)

lemma ringbuf_avail_used: "ringbuf_wf r \<Longrightarrow> ringbuf_avail r = used r"
  by (auto simp: ringbuf_avail_def ringbuf_wf_def c_rem_nonneg int_mod_once used_def)

lemma ringbuf_free_used: "ringbuf_wf r \<Longrightarrow> ringbuf_free r = size r - 1 - used r"
  by (auto simp: ringbuf_free_def ringbuf_wf_def c_rem_nonneg int_mod_once used_def)

section \<open>Reading advances the front, writing extends the back\<close>

lemma contents_nth: "k < used r \<Longrightarrow> contents r ! k = buf r ! ((iget r + k) mod size r)"
  by (simp add: contents_def)

lemma iput_eq: "ringbuf_wf r \<Longrightarrow> iput r = (iget r + used r) mod size r"
  by (auto simp: ringbuf_wf_def used_def)

lemma advance_wf:
  assumes "ringbuf_wf r"
  shows "ringbuf_wf (r\<lparr>iget := (iget r + n) mod size r\<rparr>)"
  using assms by (simp add: ringbuf_wf_def)

lemma advance_used:
  assumes "ringbuf_wf r" "n \<le> used r"
  shows "used (r\<lparr>iget := (iget r + n) mod size r\<rparr>) = used r - n"
proof -
  note d = ringbuf_wfD [OF assms(1)]
  have "n < size r" using assms used_less by (meson le_less_trans)
  then show ?thesis using d assms(2) by (auto simp: used_def mod_wrap split: if_splits)
qed

lemma advance_contents:
  assumes "ringbuf_wf r" "n \<le> used r"
  shows "contents (r\<lparr>iget := (iget r + n) mod size r\<rparr>) = drop n (contents r)"
proof (rule nth_equalityI)
  show "length (contents (r\<lparr>iget := (iget r + n) mod size r\<rparr>)) = length (drop n (contents r))"
    using assms by (simp add: advance_used)
next
  fix k assume "k < length (contents (r\<lparr>iget := (iget r + n) mod size r\<rparr>))"
  then have k: "k < used r - n" using assms by (simp add: advance_used)
  have "((iget r + n) mod size r + k) mod size r = (iget r + (n + k)) mod size r"
    by (simp add: mod_add_left_eq add.assoc)
  with k show "contents (r\<lparr>iget := (iget r + n) mod size r\<rparr>) ! k = drop n (contents r) ! k"
    using assms by (simp add: contents_nth advance_used)
qed

lemma take_contents:
  assumes "ringbuf_wf r" "n \<le> used r"
  shows "take n (contents r) =
    (if iget r + n < size r then take n (drop (iget r) (buf r))
     else drop (iget r) (buf r) @ take (iget r + n - size r) (buf r))"
proof -
  note d = ringbuf_wfD [OF assms(1)]
  have n: "n < size r" using assms used_less by (meson le_less_trans)
  show ?thesis
  proof (rule nth_equalityI)
    fix k assume "k < length (take n (contents r))"
    then have k: "k < n" "k < used r" using assms by auto
    then have "take n (contents r) ! k = buf r ! ((iget r + k) mod size r)"
      by (simp add: contents_nth)
    with k n d show "take n (contents r) ! k =
      (if iget r + n < size r then take n (drop (iget r) (buf r))
       else drop (iget r) (buf r) @ take (iget r + n - size r) (buf r)) ! k"
      by (auto simp: mod_wrap nth_append add.commute)
  qed (use n d assms in auto)
qed

lemma extend_contents:
  assumes wf: "ringbuf_wf r" and room: "used r + length data < size r"
    and len: "length b = size r"
    and new: "\<And>j. j < length data \<Longrightarrow> b ! ((iput r + j) mod size r) = data ! j"
    and old: "\<And>k. k < used r \<Longrightarrow>
      b ! ((iget r + k) mod size r) = buf r ! ((iget r + k) mod size r)"
  defines "r' \<equiv> r\<lparr>buf := b, iput := (iput r + length data) mod size r\<rparr>"
  shows "ringbuf_wf r'" "contents r' = contents r @ data" "used r' = used r + length data"
proof -
  note d = ringbuf_wfD [OF wf]
  show "ringbuf_wf r'" using d len by (simp add: r'_def ringbuf_wf_def)
  show used': "used r' = used r + length data"
    using d room by (auto simp: r'_def used_def mod_wrap split: if_splits)
  show "contents r' = contents r @ data"
  proof (rule nth_equalityI)
    fix k assume "k < length (contents r')"
    then have k: "k < used r + length data" by (simp add: used')
    have nth': "contents r' ! k = b ! ((iget r + k) mod size r)"
      using k contents_nth [of k r'] used' by (simp add: r'_def)
    show "contents r' ! k = (contents r @ data) ! k"
    proof (cases "k < used r")
      case True
      then show ?thesis using old by (simp add: nth' nth_append contents_nth)
    next
      case False
      have "(iget r + k) mod size r = (iput r + (k - used r)) mod size r"
        using False iput_eq [OF wf] mod_add_left_eq [of "iget r + used r" "size r" "k - used r"]
        by simp
      then show ?thesis using False k new [of "k - used r"] by (simp add: nth' nth_append)
    qed
  qed (simp add: used')
qed

lemma slots_disjoint:
  assumes "ringbuf_wf r" "k < used r" "used r + j < size r"
  shows "(iget r + k) mod size r \<noteq> (iput r + j) mod size r"
proof -
  note d = ringbuf_wfD [OF assms(1)]
  have "k < size r" "j < size r" using assms by auto
  then show ?thesis using d assms by (auto simp: used_def mod_wrap split: if_splits)
qed

section \<open>The operations as queue operations\<close>

lemma ringbuf_alloc_empty:
  assumes "0 < length mem" "length mem < 65536"
  shows "ringbuf_wf (ringbuf_alloc mem)" "contents (ringbuf_alloc mem) = []"
  using assms by (simp_all add: ringbuf_alloc_def ringbuf_wf_def contents_def used_def u16_id)

lemma is_empty_iff: "ringbuf_wf r \<Longrightarrow> (iget r = iput r) = (contents r = [])"
  by (auto simp: contents_def used_def ringbuf_wf_def)

lemma contents_hd: "contents r = v # vs \<Longrightarrow> ringbuf_wf r \<Longrightarrow> buf r ! iget r = v"
  using contents_nth [of 0 r] length_contents [of r] by (simp add: ringbuf_wf_def)

lemma used_pos: "contents r = v # vs \<Longrightarrow> used r = Suc (length vs)"
  using length_contents [of r] by simp

lemma ringbuf_get_eq:
  assumes wf: "ringbuf_wf r"
  shows "ringbuf_get r = (case contents r of [] \<Rightarrow> (-1, r)
    | v # vs \<Rightarrow> (uint v, r\<lparr>iget := (iget r + 1) mod size r\<rparr>))"
proof (cases "contents r")
  case Nil
  then show ?thesis using is_empty_iff [OF wf] by (simp add: ringbuf_get_def)
next
  case (Cons v vs)
  have ne: "iget r \<noteq> iput r" using Cons is_empty_iff [OF wf] by simp
  have g: "(if u16 (iget r + 1) \<ge> size r then 0 else u16 (iget r + 1)) = (iget r + 1) mod size r"
    using ringbuf_wfD [OF wf] by (auto simp: u16_id mod_Suc)
  show ?thesis
    using ne Cons contents_hd [OF Cons wf] by (simp only: ringbuf_get_def Let_def g) simp
qed

lemma ringbuf_peek_eq:
  "ringbuf_wf r \<Longrightarrow> ringbuf_peek r = (case contents r of [] \<Rightarrow> -1 | v # vs \<Rightarrow> uint v)"
  using is_empty_iff [of r] contents_hd [of r]
  by (auto simp: ringbuf_peek_def split: list.split)

lemma next_slot:
  "ringbuf_wf r \<Longrightarrow> (if u32 (iput r + 1) \<ge> size r then 0 else u32 (iput r + 1)) = (iput r + 1) mod size r"
  by (auto simp: ringbuf_wf_def u32_id mod_Suc)

lemma full_iff: "ringbuf_wf r \<Longrightarrow> ((iput r + 1) mod size r = iget r) = (used r = size r - 1)"
  by (auto simp: ringbuf_wf_def used_def mod_Suc split: if_splits)

lemma ringbuf_put_eq:
  assumes wf: "ringbuf_wf r"
  shows "ringbuf_put r v =
    (if used r = size r - 1 then (-1, r)
     else (0, r\<lparr>buf := (buf r)[iput r := v], iput := (iput r + 1) mod size r\<rparr>))"
  using next_slot [OF wf] full_iff [OF wf] ringbuf_wfD [OF wf]
  by (auto simp: ringbuf_put_def Let_def mod_Suc u16_id split: if_splits)

lemma ringbuf_put_extends:
  fixes r v
  assumes wf: "ringbuf_wf r" and room: "used r < size r - 1"
  defines "r' \<equiv> r\<lparr>buf := (buf r)[iput r := v], iput := (iput r + 1) mod size r\<rparr>"
  shows "ringbuf_wf r'" "contents r' = contents r @ [v]"
proof -
  note d = ringbuf_wfD [OF wf]
  have disj: "(iget r + k) mod size r \<noteq> iput r" if "k < used r" for k
    using slots_disjoint [OF wf that, of 0] room d by simp
  have *: "used r + length [v] < size r" "length ((buf r)[iput r := v]) = size r"
    "\<And>j. j < length [v] \<Longrightarrow> (buf r)[iput r := v] ! ((iput r + j) mod size r) = [v] ! j"
    "\<And>k. k < used r \<Longrightarrow> (buf r)[iput r := v] ! ((iget r + k) mod size r) = buf r ! ((iget r + k) mod size r)"
    using room d disj by (simp_all add: nth_list_update eq_commute)
  show "ringbuf_wf r'" "contents r' = contents r @ [v]"
    using extend_contents [OF wf *] by (simp_all add: r'_def)
qed

lemma ringbuf_memcpy_get_eq:
  assumes wf: "ringbuf_wf r" and n: "n \<le> used r"
  shows "ringbuf_memcpy_get_internal r n =
    (take n (contents r), r\<lparr>iget := (iget r + n) mod size r\<rparr>)"
proof -
  note d = ringbuf_wfD [OF wf]
  have n': "n < size r" using n used_less [OF wf] by simp
  have "u32 (iget r + n) = iget r + n" using d n' by (simp add: u32_id)
  moreover have "u16 ((iget r + n) mod size r) = (iget r + n) mod size r"
    using d(2) mod_less_divisor [OF d(1), of "iget r + n"] by (intro u16_id) linarith
  ultimately show ?thesis using d n n' take_contents [OF wf n]
    by (auto simp: ringbuf_memcpy_get_internal_def Let_def mod_wrap)
qed

lemma ringbuf_memcpy_put_eq:
  assumes wf: "ringbuf_wf r" and room: "used r + length data < size r"
  obtains b where "ringbuf_memcpy_put_internal r data =
      r\<lparr>buf := b, iput := (iput r + length data) mod size r\<rparr>"
    "length b = size r"
    "\<And>j. j < length data \<Longrightarrow> b ! ((iput r + j) mod size r) = data ! j"
    "\<And>k. k < used r \<Longrightarrow> b ! ((iget r + k) mod size r) = buf r ! ((iget r + k) mod size r)"
proof -
  note d = ringbuf_wfD [OF wf]
  let ?p = "iput r" and ?n = "length data" and ?s = "size r"
  define b where "b = (if ?p + ?n < ?s then blit (buf r) ?p data
    else blit (blit (buf r) ?p (take (?s - ?p) data)) 0 (drop (?s - ?p) data))"
  have eq: "u32 (?p + ?n) = ?p + ?n" using d room by (simp add: u32_id)
  have eq': "u16 ((?p + ?n) mod ?s) = (?p + ?n) mod ?s"
    using d(2) mod_less_divisor [OF d(1), of "?p + ?n"] by (intro u16_id) linarith
  have "ringbuf_memcpy_put_internal r data = r\<lparr>buf := b, iput := (?p + ?n) mod ?s\<rparr>"
    using d room eq eq' by (auto simp: ringbuf_memcpy_put_internal_def Let_def b_def mod_wrap)
  moreover have "length b = ?s" using d room by (auto simp: b_def length_blit)
  moreover have "b ! ((?p + j) mod ?s) = data ! j" if "j < ?n" for j
    using d room that by (auto simp: b_def mod_wrap nth_blit length_blit)
  moreover have "b ! ((iget r + k) mod ?s) = buf r ! ((iget r + k) mod ?s)" if "k < used r" for k
  proof -
    have "k < ?s" using that room by simp
    then show ?thesis using d room that
      by (auto simp: b_def mod_wrap nth_blit length_blit used_def split: if_splits)
  qed
  ultimately show thesis by (rule that)
qed

lemma ringbuf_memcpy_put_extends:
  assumes "ringbuf_wf r" "used r + length data < size r"
  shows "ringbuf_wf (ringbuf_memcpy_put_internal r data)"
    "contents (ringbuf_memcpy_put_internal r data) = contents r @ data"
  using ringbuf_memcpy_put_eq [OF assms] extend_contents [OF assms] by metis+

lemma ringbuf_get_bytes_eq:
  assumes wf: "ringbuf_wf r"
  shows "ringbuf_get_bytes r n =
    (if n \<le> length (contents r)
     then (0, take n (contents r), r\<lparr>iget := (iget r + n) mod size r\<rparr>)
     else ((if size r \<le> n then -2 else -1), [], r))"
  by (simp add: ringbuf_get_bytes_def ringbuf_avail_used [OF wf] ringbuf_memcpy_get_eq [OF wf])

lemma ringbuf_put_bytes_eq:
  assumes wf: "ringbuf_wf r"
  shows "ringbuf_put_bytes r data =
    (if used r + length data < size r then (0, ringbuf_memcpy_put_internal r data)
     else ((if size r \<le> length data then -2 else -1), r))"
  using used_less [OF wf] by (auto simp: ringbuf_put_bytes_def ringbuf_free_used [OF wf])

section \<open>Sixteen-bit reads and writes\<close>

lemma byte_pair_neq: "push_bit 8 (uint (a::byte)) OR uint (b::byte) \<noteq> -1"
proof -
  have "0 \<le> push_bit 8 (uint a) OR uint b" by simp
  then show ?thesis by linarith
qed

lemma peek_slot:
  "ringbuf_wf r \<Longrightarrow> (if u32 (iget r + 1) = size r then 0 else u32 (iget r + 1)) = (iget r + 1) mod size r"
  by (auto simp: ringbuf_wf_def u32_id mod_Suc)

lemma ringbuf_peek16_eq:
  assumes wf: "ringbuf_wf r"
  shows "ringbuf_peek16 r =
    (case contents r of a # b # vs \<Rightarrow> push_bit 8 (uint a) OR uint b | _ \<Rightarrow> -1)"
proof -
  note d = ringbuf_wfD [OF wf]
  have one: "((iget r + 1) mod size r = iput r) = (used r = 1)" if "iget r \<noteq> iput r"
    using d that by (auto simp: used_def mod_Suc split: if_splits)
  have shape: "(iget r = iput r) = (used r = 0)"
    using d by (auto simp: used_def split: if_splits)
  have nths: "contents r ! 0 = buf r ! iget r" if "0 < used r"
    using d contents_nth [OF that] by simp
  have nths1: "contents r ! 1 = buf r ! ((iget r + 1) mod size r)" if "1 < used r"
    using contents_nth [OF that] by simp
  show ?thesis
    using one shape nths nths1 length_contents [of r]
    by (auto simp only: ringbuf_peek16_def Let_def peek_slot [OF wf] split: list.split) auto
qed

lemma ringbuf_get16_eq:
  assumes wf: "ringbuf_wf r" and sz: "size r < 65535"
  shows "ringbuf_get16 r = (case contents r of
      a # b # vs \<Rightarrow> (push_bit 8 (uint a) OR uint b, r\<lparr>iget := (iget r + 2) mod size r\<rparr>)
    | _ \<Rightarrow> (-1, r))"
proof -
  note d = ringbuf_wfD [OF wf]
  have g: "(if u16 (iget r + 2) \<ge> size r then u16 (u16 (iget r + 2) - size r) else u16 (iget r + 2))
      = (iget r + 2) mod size r" if "2 \<le> used r"
    using d sz that used_less [OF wf] by (auto simp: u16_id mod_if)
  show ?thesis
    using g length_contents [of r] byte_pair_neq
    by (auto simp only: ringbuf_get16_def Let_def ringbuf_peek16_eq [OF wf] split: list.split) auto
qed

lemma ringbuf_put16_eq:
  assumes wf: "ringbuf_wf r"
  shows "ringbuf_put16 r v =
    (if used r + 2 < size r
     then (0, r\<lparr>buf := (buf r)[iput r := ucast (drop_bit 8 v),
                               (iput r + 1) mod size r := ucast v],
                iput := (iput r + 2) mod size r\<rparr>)
     else (-1, r))"
proof -
  note d = ringbuf_wfD [OF wf]
  let ?a = "(iput r + 1) mod size r"
  have a: "(if u32 (iput r + 1) = size r then 0 else u32 (iput r + 1)) = ?a"
    using d by (auto simp: u32_id mod_Suc)
  have b: "(if u32 (?a + 1) = size r then 0 else u32 (?a + 1)) = (iput r + 2) mod size r"
    using d by (auto simp: u32_id mod_Suc)
  have full: "(?a = iget r) = (used r + 1 = size r)"
    using d used_less [OF wf] full_iff [OF wf] by auto
  have full2: "((iput r + 2) mod size r = iget r) = (used r + 2 = size r)" if "?a \<noteq> iget r"
    using d that by (auto simp: used_def mod_Suc split: if_splits)
  have mask_ff: "(0xff :: 16 word) = mask 8" by (simp add: mask_eq_exp_minus_1)
  have bytes: "ucast (drop_bit 8 v AND 0xff) = (ucast (drop_bit 8 v) :: byte)"
    "ucast (v AND 0xff) = (ucast v :: byte)"
    unfolding mask_ff by (auto intro!: bit_word_eqI simp: bit_simps)
  have "u16 ((iput r + 2) mod size r) = (iput r + 2) mod size r"
    using d(2) mod_less_divisor [OF d(1), of "iput r + 2"] by (intro u16_id) linarith
  then show ?thesis
    using full full2 used_less [OF wf] unfolding ringbuf_put16_def Let_def a b bytes by auto
qed

lemma ringbuf_put16_extends:
  fixes r and v :: "16 word"
  assumes wf: "ringbuf_wf r" and room: "used r + 2 < size r"
  defines "bs \<equiv> [ucast (drop_bit 8 v), ucast v :: byte]"
  defines "r' \<equiv> r\<lparr>buf := (buf r)[iput r := bs ! 0, (iput r + 1) mod size r := bs ! 1],
                    iput := (iput r + 2) mod size r\<rparr>"
  shows "ringbuf_wf r'" "contents r' = contents r @ bs"
proof -
  note d = ringbuf_wfD [OF wf]
  let ?b = "(buf r)[iput r := bs ! 0, (iput r + 1) mod size r := bs ! 1]"
  have len: "length bs = 2" by (simp add: bs_def)
  have disj: "(iget r + k) mod size r \<noteq> iput r" "(iget r + k) mod size r \<noteq> (iput r + 1) mod size r"
    if "k < used r" for k
    using slots_disjoint [OF wf that, of 0] slots_disjoint [OF wf that, of 1] room d by simp_all
  have *: "used r + length bs < size r" "length ?b = size r"
    "\<And>k. k < used r \<Longrightarrow> ?b ! ((iget r + k) mod size r) = buf r ! ((iget r + k) mod size r)"
    using room d disj len by (simp_all add: nth_list_update eq_commute)
  have new: "?b ! ((iput r + j) mod size r) = bs ! j" if "j < length bs" for j
  proof -
    have "j = 0 \<or> j = 1" using that len by auto
    then show ?thesis using d room by (auto simp: nth_list_update mod_Suc)
  qed
  show "ringbuf_wf r'" "contents r' = contents r @ bs"
    using extend_contents [OF wf *(1,2) new *(3)] by (simp_all add: r'_def len)
qed

section \<open>A bounded byte queue as the interface\<close>

datatype fifo_op = Put byte | Get | Put_bytes "byte list" | Get_bytes nat | Put16 "16 word" | Get16

type_synonym fifo_reply = "int \<times> byte list"

definition be16 :: "16 word \<Rightarrow> byte list" where
  "be16 v = [ucast (drop_bit 8 v), ucast v]"

text \<open>What each operation means on a queue \<open>q\<close> of at most \<open>cap\<close> bytes.\<close>

fun fifo_spec :: "nat \<Rightarrow> byte list \<Rightarrow> fifo_op \<Rightarrow> fifo_reply \<times> byte list" where
  "fifo_spec cap q (Put v) = (if length q < cap then ((0, []), q @ [v]) else ((-1, []), q))"
| "fifo_spec cap q Get = (case q of [] \<Rightarrow> ((-1, []), q) | v # vs \<Rightarrow> ((uint v, []), vs))"
| "fifo_spec cap q (Put_bytes d) =
     (if length q + length d \<le> cap then ((0, []), q @ d)
      else ((if cap < length d then -2 else -1, []), q))"
| "fifo_spec cap q (Get_bytes n) =
     (if n \<le> length q then ((0, take n q), drop n q)
      else ((if cap < n then -2 else -1, []), q))"
| "fifo_spec cap q (Put16 v) = (if length q + 2 \<le> cap then ((0, []), q @ be16 v) else ((-1, []), q))"
| "fifo_spec cap q Get16 =
     (case q of a # b # vs \<Rightarrow> ((push_bit 8 (uint a) OR uint b, []), vs) | _ \<Rightarrow> ((-1, []), q))"

fun run :: "('q \<Rightarrow> fifo_op \<Rightarrow> fifo_reply \<times> 'q) \<Rightarrow> 'q \<Rightarrow> fifo_op list \<Rightarrow> fifo_reply list \<times> 'q" where
  "run step q [] = ([], q)"
| "run step q (x # xs) =
     (let (y, q') = step q x; (ys, q'') = run step q' xs in (y # ys, q''))"

locale bounded_fifo =
  fixes step :: "'q \<Rightarrow> fifo_op \<Rightarrow> fifo_reply \<times> 'q"
    and queue :: "'q \<Rightarrow> byte list"
    and capacity :: "'q \<Rightarrow> nat"
    and invar :: "'q \<Rightarrow> bool"
  assumes within: "invar q \<Longrightarrow> length (queue q) \<le> capacity q"
    and reply: "invar q \<Longrightarrow> fst (step q x) = fst (fifo_spec (capacity q) (queue q) x)"
    and effect: "invar q \<Longrightarrow> queue (snd (step q x)) = snd (fifo_spec (capacity q) (queue q) x)"
    and keeps: "invar q \<Longrightarrow> invar (snd (step q x))"
    and capacity_fixed: "invar q \<Longrightarrow> capacity (snd (step q x)) = capacity q"
begin

lemma run_refines:
  assumes "invar q"
  shows "fst (run step q xs) = fst (run (fifo_spec (capacity q)) (queue q) xs)
    \<and> queue (snd (run step q xs)) = snd (run (fifo_spec (capacity q)) (queue q) xs)
    \<and> invar (snd (run step q xs)) \<and> capacity (snd (run step q xs)) = capacity q"
  using assms
proof (induction xs arbitrary: q)
  case (Cons x xs)
  then show ?case
    using Cons.IH [OF keeps [OF Cons.prems, of x]] reply [OF Cons.prems, of x]
      effect [OF Cons.prems, of x] capacity_fixed [OF Cons.prems, of x]
    by (simp add: Let_def split_beta)
qed simp

lemma run_within: "invar q \<Longrightarrow> length (queue (snd (run step q xs))) \<le> capacity q"
  using run_refines [of q xs] within [of "snd (run step q xs)"] by simp

end

definition ringbuf_step :: "ringbuf \<Rightarrow> fifo_op \<Rightarrow> fifo_reply \<times> ringbuf" where
  "ringbuf_step r x = (case x of
     Put v \<Rightarrow> (let (c, r') = ringbuf_put r v in ((c, []), r'))
   | Get \<Rightarrow> (let (c, r') = ringbuf_get r in ((c, []), r'))
   | Put_bytes d \<Rightarrow> (let (c, r') = ringbuf_put_bytes r d in ((c, []), r'))
   | Get_bytes n \<Rightarrow> (let (c, d, r') = ringbuf_get_bytes r n in ((c, d), r'))
   | Put16 v \<Rightarrow> (let (c, r') = ringbuf_put16 r v in ((c, []), r'))
   | Get16 \<Rightarrow> (let (c, r') = ringbuf_get16 r in ((c, []), r')))"

definition ringbuf_wf16 :: "ringbuf \<Rightarrow> bool" where
  "ringbuf_wf16 r \<longleftrightarrow> ringbuf_wf r \<and> size r < 65535"

lemma ringbuf_step_law:
  assumes "ringbuf_wf16 r"
  shows "fst (ringbuf_step r x) = fst (fifo_spec (size r - 1) (contents r) x)
    \<and> contents (snd (ringbuf_step r x)) = snd (fifo_spec (size r - 1) (contents r) x)
    \<and> ringbuf_wf (snd (ringbuf_step r x)) \<and> size (snd (ringbuf_step r x)) = size r"
proof -
  have wf: "ringbuf_wf r" and sz: "size r < 65535" using assms by (auto simp: ringbuf_wf16_def)
  note used_less [OF wf, simp]
  have adv: "ringbuf_wf (r\<lparr>iget := (iget r + n) mod size r\<rparr>)" for n by (rule advance_wf [OF wf])
  show ?thesis
  proof (cases x)
    case (Put v)
    have "used r \<noteq> size r - 1 \<Longrightarrow> used r < size r - 1" using used_less [OF wf] by arith
    then show ?thesis using Put ringbuf_put_extends [OF wf]
      by (auto simp: ringbuf_step_def ringbuf_put_eq [OF wf] wf)
  next
    case Get
    then show ?thesis using advance_contents [OF wf, of 1] used_pos [of r] adv [of 1]
      by (auto simp: ringbuf_step_def ringbuf_get_eq [OF wf] wf split: list.split)
  next
    case (Put_bytes d)
    have "size (ringbuf_memcpy_put_internal r d) = size r"
      by (simp add: ringbuf_memcpy_put_internal_def Let_def split: prod.split)
    moreover have "size r \<le> length d \<longleftrightarrow> size r - 1 < length d"
      "used r + length d < size r \<longleftrightarrow> used r + length d \<le> size r - 1"
      using ringbuf_wfD(1) [OF wf] by arith+
    ultimately show ?thesis using Put_bytes ringbuf_memcpy_put_extends [OF wf, of d]
      by (auto simp: ringbuf_step_def ringbuf_put_bytes_eq [OF wf] wf)
  next
    case (Get_bytes n)
    then show ?thesis using advance_contents [OF wf, of n] adv [of n]
      by (auto simp: ringbuf_step_def ringbuf_get_bytes_eq [OF wf] wf)
  next
    case (Put16 v)
    then show ?thesis using ringbuf_put16_extends [OF wf, of v]
      by (auto simp: ringbuf_step_def ringbuf_put16_eq [OF wf] wf be16_def)
  next
    case Get16
    have "2 \<le> used r" if "contents r = a # b # vs" for a b vs
      using that length_contents [of r] by simp
    then show ?thesis using Get16 advance_contents [OF wf, of 2] adv [of 2]
      by (auto simp: ringbuf_step_def ringbuf_get16_eq [OF wf sz] wf split: list.split)
  qed
qed

interpretation rb: bounded_fifo ringbuf_step contents "\<lambda>r. size r - 1" ringbuf_wf16
  using ringbuf_step_law used_less
  by unfold_locales (force simp: ringbuf_wf16_def)+

section \<open>Conservation of bytes\<close>

text \<open>The bytes an operation accepted and the bytes it delivered, read off its reply.\<close>

fun accepted :: "fifo_op \<Rightarrow> fifo_reply \<Rightarrow> byte list" where
  "accepted (Put v) (c, d) = (if c = 0 then [v] else [])"
| "accepted (Put_bytes bs) (c, d) = (if c = 0 then bs else [])"
| "accepted (Put16 v) (c, d) = (if c = 0 then be16 v else [])"
| "accepted x y = []"

fun delivered :: "fifo_op \<Rightarrow> fifo_reply \<Rightarrow> byte list" where
  "delivered Get (c, d) = (if c = -1 then [] else [word_of_int c])"
| "delivered (Get_bytes n) (c, d) = d"
| "delivered Get16 (c, d) = (if c = -1 then [] else be16 (word_of_int c))"
| "delivered x y = []"

lemma be16_join: "be16 (word_of_int (push_bit 8 (uint a) OR uint b)) = [a, b]"
proof -
  have "ucast (word_of_int (push_bit 8 (uint a) OR uint b) :: 16 word) = b"
    by (rule bit_word_eqI) (simp add: bit_simps)
  moreover have "ucast (drop_bit 8 (word_of_int (push_bit 8 (uint a) OR uint b) :: 16 word)) = a"
    by (rule bit_word_eqI) (auto simp: bit_simps dest: bit_imp_le_length)
  ultimately show ?thesis by (simp add: be16_def)
qed

lemma fifo_spec_conservation:
  "q @ accepted x (fst (fifo_spec cap q x)) =
   delivered x (fst (fifo_spec cap q x)) @ snd (fifo_spec cap q x)"
proof (cases x)
  case Get
  have "uint v \<noteq> -1" for v :: byte using uint_ge_0 [of v] by linarith
  then show ?thesis using Get by (simp split: list.split)
next
  case Get16
  then show ?thesis using byte_pair_neq be16_join by (simp split: list.split)
qed auto

lemma run_conservation:
  "q @ concat (map2 accepted xs (fst (run (fifo_spec cap) q xs))) =
   concat (map2 delivered xs (fst (run (fifo_spec cap) q xs))) @ snd (run (fifo_spec cap) q xs)"
proof (induction xs arbitrary: q)
  case (Cons x xs)
  obtain y q' where y: "fifo_spec cap q x = (y, q')" by fastforce
  have "q @ accepted x y = delivered x y @ q'"
    using fifo_spec_conservation [of q x cap] y by simp
  moreover obtain ys q'' where ys: "run (fifo_spec cap) q' xs = (ys, q'')" by fastforce
  ultimately have "q @ accepted x y @ concat (map2 accepted xs ys) =
      (delivered x y @ concat (map2 delivered xs ys)) @ q''"
    using Cons.IH [of q'] by (metis append_assoc fst_conv snd_conv)
  then show ?case using y ys by simp
qed simp

section \<open>Properties\<close>

text \<open>
  C3.  The ring buffer is a bounded first-in-first-out queue: for any sequence of byte, 16-bit and
  block reads and writes, the return codes, the data read and the bytes left in the buffer are
  those of an abstract queue of capacity \<open>size - 1\<close>, and the buffer stays well formed (every index
  it will use lies inside the array).
\<close>

theorem ringbuf_refines_fifo:
  assumes "ringbuf_wf16 r"
  shows "fst (run ringbuf_step r xs) = fst (run (fifo_spec (size r - 1)) (contents r) xs)
    \<and> contents (snd (run ringbuf_step r xs)) = snd (run (fifo_spec (size r - 1)) (contents r) xs)
    \<and> ringbuf_wf16 (snd (run ringbuf_step r xs))"
  using rb.run_refines [OF assms, of xs] by simp

theorem ringbuf_refines_fifo_witness:
  "fst (run ringbuf_step (ringbuf_alloc [0, 0, 0]) [Put16 513, Put 7, Get_bytes 3, Get, Get])
   = [(0, []), (-1, []), (-2, []), (2, []), (1, [])]"
proof -
  have "ringbuf_wf16 (ringbuf_alloc [0, 0, 0])"
    by (simp add: ringbuf_wf16_def ringbuf_wf_def ringbuf_alloc_def u16_def)
  note ringbuf_refines_fifo [OF this, of "[Put16 513, Put 7, Get_bytes 3, Get, Get]", THEN conjunct1]
  also have "fst (run (fifo_spec (size (ringbuf_alloc [0, 0, 0]) - 1)) (contents (ringbuf_alloc [0, 0, 0]))
      [Put16 513, Put 7, Get_bytes 3, Get, Get]) = [(0, []), (-1, []), (-2, []), (2, []), (1, [])]"
    by (simp add: be16_def ringbuf_alloc_def contents_def used_def u16_def)
  finally show ?thesis .
qed

text \<open>
   No byte is lost, duplicated or reordered: over any sequence of operations, what was in the
  buffer followed by everything accepted equals everything delivered followed by what is left.
\<close>

theorem ringbuf_conserves_bytes:
  assumes "ringbuf_wf16 r"
  shows "contents r @ concat (map2 accepted xs (fst (run ringbuf_step r xs))) =
    concat (map2 delivered xs (fst (run ringbuf_step r xs))) @ contents (snd (run ringbuf_step r xs))"
  using rb.run_refines [OF assms, of xs] run_conservation by simp

theorem ringbuf_conserves_bytes_witness:
  "let r = ringbuf_alloc [0, 0, 0]; xs = [Put 1, Put 2, Get, Put 3]
   in concat (map2 accepted xs (fst (run ringbuf_step r xs))) =
      concat (map2 delivered xs (fst (run ringbuf_step r xs))) @ contents (snd (run ringbuf_step r xs))"
proof -
  have "ringbuf_wf16 (ringbuf_alloc [0, 0, 0])"
    by (simp add: ringbuf_wf16_def ringbuf_wf_def ringbuf_alloc_def u16_def)
  from ringbuf_conserves_bytes [OF this, of "[Put 1, Put 2, Get, Put 3]"]
  show ?thesis unfolding Let_def by (simp add: ringbuf_alloc_empty)
qed

text \<open>
   The one size \<^verbatim>\<open>ringbuf_get16\<close> does not handle: with the largest buffer a 16-bit \<^verbatim>\<open>size\<close>
  allows (65535 bytes), \<^verbatim>\<open>r->iget += 2\<close> wraps around, so a successful 16-bit read from a buffer
  holding two bytes leaves one of them in the buffer.
\<close>

theorem ringbuf_get16_index_wraps:
  "\<exists>r. ringbuf_wf r \<and> size r = 65535 \<and> length (contents r) = 2
     \<and> fst (ringbuf_get16 r) \<noteq> -1 \<and> length (contents (snd (ringbuf_get16 r))) = 1"
proof -
  let ?r = "\<lparr>buf = replicate 65535 0, size = 65535, iget = 65534, iput = 1\<rparr>"
  have "ringbuf_wf ?r \<and> size ?r = 65535 \<and> length (contents ?r) = 2
     \<and> fst (ringbuf_get16 ?r) \<noteq> -1 \<and> length (contents (snd (ringbuf_get16 ?r))) = 1"
    by (simp add: ringbuf_wf_def used_def ringbuf_get16_def ringbuf_peek16_def Let_def
        u16_def u32_def)
  then show ?thesis by blast
qed

end
