(* ===== verification/Mpn.thy ===== *)
theory Mpn
  imports Prelude
begin

text \<open>
  The natural-number layer of \<^verbatim>\<open>py/mpz.c\<close>: digit arrays, little endian, with sixteen-bit
  digits (\<^verbatim>\<open>MPZ_DIG_SIZE\<close> is 16 on the 32-bit ESP32) and 32-bit intermediate values.  A C
  routine that fills \<^verbatim>\<open>idig\<close> and returns a length is a function that returns the digits it
  leaves in \<^verbatim>\<open>idig[0..len)\<close>; the loops keep their carries as 32-bit words.
\<close>

section \<open>Digits\<close>

type_synonym dig = "16 word"
type_synonym dbl = "32 word"

abbreviation (input) DIG_SIZE :: nat where
  "DIG_SIZE \<equiv> 16"

definition DIG_MASK :: dbl where
  "DIG_MASK = 0xffff"

definition lo_dig :: "dbl \<Rightarrow> dig" where
  "lo_dig d = ucast (d AND DIG_MASK)"

fun mpn_val :: "dig list \<Rightarrow> int" where
  "mpn_val [] = 0"
| "mpn_val (d # ds) = uint d + 65536 * mpn_val ds"

definition normalised :: "dig list \<Rightarrow> bool" where
  "normalised ds \<longleftrightarrow> ds = [] \<or> last ds \<noteq> 0"

named_theorems dig_simps \<open>digit arithmetic\<close>

lemma uint_lo_dig [dig_simps]: "uint (lo_dig d) = uint d mod 65536"
proof -
  have "d AND DIG_MASK = take_bit 16 d"
    by (simp add: DIG_MASK_def take_bit_eq_mask mask_eq_exp_minus_1)
  then have "uint (lo_dig d) = take_bit 16 (uint d)"
    by (simp add: lo_dig_def unsigned_ucast_eq unsigned_take_bit_eq)
  then show ?thesis by (simp add: take_bit_eq_mod)
qed

lemma uint_ucast_dig [dig_simps]: "uint (ucast (d :: dig) :: dbl) = uint d"
  using uint_lt2p [of d] by (simp add: unsigned_ucast_eq take_bit_int_eq_self)

lemma uint_dbl_drop [dig_simps]: "uint (drop_bit n (d :: dbl)) = uint d div 2 ^ n"
  using uint_lt2p [of d]
  by (subst unsigned_drop_bit_eq) (simp add: drop_bit_eq_div take_bit_int_eq_self)

lemma uint_dbl_add: "uint a + uint b < 4294967296 \<Longrightarrow> uint (a + b :: dbl) = uint a + uint b"
  by (simp add: uint_word_ariths)

lemma uint_dbl_mult: "uint a * uint b < 4294967296 \<Longrightarrow> uint (a * b :: dbl) = uint a * uint b"
  by (simp add: uint_word_ariths)

lemma dig_bound: "0 \<le> uint (d :: dig)" "uint (d :: dig) < 65536"
  using uint_lt2p [of d] by simp_all

lemma bit_dig_beyond [simp]: "16 \<le> n \<Longrightarrow> \<not> bit (d :: dig) n"
  by (auto dest: bit_imp_le_length)

lemma mpn_val_nonneg [simp]: "0 \<le> mpn_val ds"
  by (induction ds) (simp_all add: dig_bound)

lemma mpn_val_append: "mpn_val (xs @ ys) = mpn_val xs + 65536 ^ length xs * mpn_val ys"
  by (induction xs) (simp_all add: algebra_simps)

lemma mpn_val_less: "mpn_val ds < 65536 ^ length ds"
proof (induction ds)
  case (Cons d ds)
  have "mpn_val ds + 1 \<le> 65536 ^ length ds" using Cons by simp
  then have "65536 * (mpn_val ds + 1) \<le> 65536 * 65536 ^ length ds" by (rule mult_left_mono) simp
  then show ?case using dig_bound(2) [of d] by simp
qed simp

lemma mpn_val_replicate_0 [simp]: "mpn_val (replicate n 0) = 0"
  by (induction n) simp_all

lemma mpn_val_ge:
  assumes "ds \<noteq> []" "last ds \<noteq> 0"
  shows "65536 ^ (length ds - 1) \<le> mpn_val ds"
proof -
  obtain xs x where ds: "ds = xs @ [x]" using assms(1) by (metis rev_exhaust)
  have "x \<noteq> 0" using assms ds by simp
  then have "1 \<le> uint x" using dig_bound(1) [of x] uint_0_iff [of x] by linarith
  then show ?thesis by (auto simp: ds mpn_val_append intro: add_increasing)
qed

section \<open>Comparison, addition, subtraction\<close>

definition mpn_remove_trailing_zeros :: "dig list \<Rightarrow> dig list" where
  "mpn_remove_trailing_zeros ds = rev (dropWhile (\<lambda>d. d = 0) (rev ds))"

fun mpn_cmp_loop :: "dig list \<Rightarrow> dig list \<Rightarrow> int" where
  "mpn_cmp_loop (i # is) (j # js) =
     (let cmp = sint (ucast i - ucast j :: dbl)
      in if cmp < 0 then -1 else if cmp > 0 then 1 else mpn_cmp_loop is js)"
| "mpn_cmp_loop _ _ = 0"

definition mpn_cmp :: "dig list \<Rightarrow> dig list \<Rightarrow> int" where
  "mpn_cmp idig jdig =
     (if length idig < length jdig then -1
      else if length idig > length jdig then 1
      else mpn_cmp_loop (rev idig) (rev jdig))"

text \<open>
  The two loops of \<^verbatim>\<open>mpn_add\<close>: first while \<open>k\<close> has digits, then over the rest of \<open>j\<close>; the
  final carry becomes a digit when it is not zero.
\<close>

fun mpn_add_loop :: "dbl \<Rightarrow> dig list \<Rightarrow> dig list \<Rightarrow> dig list" where
  "mpn_add_loop carry (j # js) (k # ks) =
     (let carry = carry + (ucast j + ucast k)
      in lo_dig carry # mpn_add_loop (drop_bit DIG_SIZE carry) js ks)"
| "mpn_add_loop carry (j # js) [] =
     (let carry = carry + ucast j
      in lo_dig carry # mpn_add_loop (drop_bit DIG_SIZE carry) js [])"
| "mpn_add_loop carry [] ks = (if carry \<noteq> 0 then [ucast carry] else [])"

definition mpn_add :: "dig list \<Rightarrow> dig list \<Rightarrow> dig list" where
  "mpn_add jdig kdig = mpn_add_loop 0 jdig kdig"

fun mpn_sub_loop :: "dbl \<Rightarrow> dig list \<Rightarrow> dig list \<Rightarrow> dig list" where
  "mpn_sub_loop borrow (j # js) (k # ks) =
     (let borrow = borrow + (ucast j - ucast k)
      in lo_dig borrow # mpn_sub_loop (signed_drop_bit DIG_SIZE borrow) js ks)"
| "mpn_sub_loop borrow (j # js) [] =
     (let borrow = borrow + ucast j
      in lo_dig borrow # mpn_sub_loop (signed_drop_bit DIG_SIZE borrow) js [])"
| "mpn_sub_loop borrow [] ks = []"

definition mpn_sub :: "dig list \<Rightarrow> dig list \<Rightarrow> dig list" where
  "mpn_sub jdig kdig = mpn_remove_trailing_zeros (mpn_sub_loop 0 jdig kdig)"

lemma strip_split:
  "\<exists>n. ds = mpn_remove_trailing_zeros ds @ replicate n 0"
proof -
  have "rev ds = takeWhile (\<lambda>d. d = 0) (rev ds) @ dropWhile (\<lambda>d. d = 0) (rev ds)" by simp
  then have "ds = mpn_remove_trailing_zeros ds @ rev (takeWhile (\<lambda>d. d = 0) (rev ds))"
    by (metis mpn_remove_trailing_zeros_def rev_append rev_rev_ident)
  moreover have "rev (takeWhile (\<lambda>d. d = 0) (rev ds)) =
      replicate (length (takeWhile (\<lambda>d. d = 0) (rev ds))) 0"
    by (rule replicate_eqI) (auto dest: set_takeWhileD)
  ultimately show ?thesis by metis
qed

lemma mpn_val_strip [simp]: "mpn_val (mpn_remove_trailing_zeros ds) = mpn_val ds"
  using strip_split [of ds] by (metis mpn_val_append mpn_val_replicate_0 add.right_neutral mult_zero_right)

lemma strip_normalised [simp]: "normalised (mpn_remove_trailing_zeros ds)"
proof (cases "dropWhile (\<lambda>d. d = 0) (rev ds)")
  case (Cons x xs)
  then have "x \<noteq> 0" using hd_dropWhile [of "\<lambda>d. d = 0" "rev ds"] by simp
  then show ?thesis using Cons by (simp add: normalised_def mpn_remove_trailing_zeros_def)
qed (simp add: normalised_def mpn_remove_trailing_zeros_def)

lemma length_strip_le: "length (mpn_remove_trailing_zeros ds) \<le> length ds"
  using strip_split [of ds] by (metis length_append le_add1)

lemma mpn_val_pos: "normalised ds \<Longrightarrow> ds \<noteq> [] \<Longrightarrow> 0 < mpn_val ds"
  using mpn_val_ge [of ds] by (auto simp: normalised_def intro: less_le_trans [rotated])

lemma mpn_val_0_iff: "normalised ds \<Longrightarrow> (mpn_val ds = 0) = (ds = [])"
  by (metis less_irrefl mpn_val.simps(1) mpn_val_pos)

lemma mpn_val_length_mono:
  assumes "normalised ys" "length xs < length ys"
  shows "mpn_val xs < mpn_val ys"
proof -
  have "ys \<noteq> []" using assms(2) by auto
  then have "65536 ^ (length ys - 1) \<le> mpn_val ys" using assms(1) mpn_val_ge by (auto simp: normalised_def)
  moreover have "(65536::int) ^ length xs \<le> 65536 ^ (length ys - 1)" using assms(2) by (intro power_increasing) auto
  ultimately show ?thesis using mpn_val_less [of xs] by linarith
qed

lemma sint_dbl_of_int:
  assumes "- 2147483648 \<le> x" "x < 2147483648"
  shows "sint (word_of_int x :: dbl) = x"
  using assms by (simp add: signed_of_int signed_take_bit_int_eq_self)

lemma sint_dig_diff: "sint (ucast i - ucast j :: dbl) = uint (i::dig) - uint (j::dig)"
proof -
  have "(ucast i - ucast j :: dbl) = word_of_int (uint i - uint j)"
    by (simp only: of_int_diff ucast_eq)
  moreover have "- 2147483648 \<le> uint i - uint j" "uint i - uint j < 2147483648"
    using dig_bound [of i] dig_bound [of j] by linarith+
  ultimately show ?thesis by (simp only: sint_dbl_of_int)
qed

lemma mpn_cmp_loop_sgn:
  "length is = length js \<Longrightarrow> mpn_cmp_loop is js = sgn (mpn_val (rev is) - mpn_val (rev js))"
proof (induction "is" js rule: mpn_cmp_loop.induct)
  case (1 i "is" j js)
  let ?B = "65536 ^ length js :: int"
  have len: "length is = length js" using 1 by simp
  have val: "mpn_val (rev (i # is)) - mpn_val (rev (j # js))
      = (mpn_val (rev is) - mpn_val (rev js)) + ?B * (uint i - uint j)"
    using len by (simp add: mpn_val_append algebra_simps)
  have small: "\<bar>mpn_val (rev is) - mpn_val (rev js)\<bar> < ?B"
    using mpn_val_less [of "rev is"] mpn_val_less [of "rev js"] len
      mpn_val_nonneg [of "rev is"] mpn_val_nonneg [of "rev js"] by (simp only: abs_less_iff length_rev) linarith
  consider "uint i < uint j" | "uint i > uint j" | "i = j" by (metis linorder_cases word_uint_eq_iff)
  then show ?case
  proof cases
    case 1
    then have "?B * (uint i - uint j) \<le> ?B * (-1)" by (intro mult_left_mono) auto
    then have "mpn_val (rev (i # is)) - mpn_val (rev (j # js)) < 0" using small val by linarith
    then show ?thesis using 1 by (simp only: mpn_cmp_loop.simps sint_dig_diff Let_def sgn_if) simp
  next
    case 2
    then have "?B * 1 \<le> ?B * (uint i - uint j)" by (intro mult_left_mono) auto
    then have "0 < mpn_val (rev (i # is)) - mpn_val (rev (j # js))" using small val by linarith
    then show ?thesis using 2 by (simp only: mpn_cmp_loop.simps sint_dig_diff Let_def sgn_if) simp
  next
    case 3
    then show ?thesis using "1.IH" [OF refl] len val by (simp add: sint_dig_diff Let_def)
  qed
qed auto

lemma mpn_cmp_sgn:
  assumes "normalised i" "normalised j"
  shows "mpn_cmp i j = sgn (mpn_val i - mpn_val j)"
  using mpn_val_length_mono [OF assms(1), of j] mpn_val_length_mono [OF assms(2), of i]
    mpn_cmp_loop_sgn [of "rev i" "rev j"] by (auto simp: mpn_cmp_def sgn_if)

lemma carry_split:
  "uint (lo_dig (c::dbl)) + 65536 * uint (drop_bit DIG_SIZE c) = uint c"
  by (simp add: dig_simps)

lemma uint_drop_16_le: "uint (c::dbl) < 65536 * n \<Longrightarrow> uint (drop_bit DIG_SIZE c) < n"
  by (simp add: dig_simps)

lemma add_carry:
  fixes carry :: dbl
  assumes "uint carry \<le> 1"
  shows "uint (carry + (ucast (j::dig) + ucast (k::dig))) = uint carry + uint j + uint k"
    "uint (drop_bit DIG_SIZE (carry + (ucast j + ucast k))) \<le> 1"
proof -
  let ?c = "carry + (ucast j + ucast k)"
  show c: "uint ?c = uint carry + uint j + uint k"
  proof -
    have "uint ?c = (uint carry + (uint j + uint k)) mod 4294967296"
      by (simp add: uint_word_ariths dig_simps mod_simps)
    also have "\<dots> = uint carry + (uint j + uint k)"
      by (rule mod_pos_pos_trivial) (use assms dig_bound [of j] dig_bound [of k] in simp_all)
    finally show ?thesis by simp
  qed
  show "uint (drop_bit DIG_SIZE ?c) \<le> 1"
    using uint_drop_16_le [of ?c 2] c assms dig_bound [of j] dig_bound [of k] by linarith
qed

lemma add_carry1:
  fixes carry :: dbl
  assumes "uint carry \<le> 1"
  shows "uint (carry + ucast (j::dig)) = uint carry + uint j"
    "uint (drop_bit DIG_SIZE (carry + ucast j)) \<le> 1"
  using add_carry [OF assms, of j 0] by simp_all

lemma mpn_add_loop_val:
  assumes "uint carry \<le> 1" "length ks \<le> length js"
  shows "mpn_val (mpn_add_loop carry js ks) = mpn_val js + mpn_val ks + uint carry"
  using assms
proof (induction carry js ks rule: mpn_add_loop.induct)
  case (1 carry j js k ks)
  then show ?case using add_carry [of carry j k] carry_split [of "carry + (ucast j + ucast k)"]
    by (simp add: Let_def)
next
  case (2 carry j js)
  then show ?case using add_carry1 [of carry j] carry_split [of "carry + ucast j"]
    by (simp add: Let_def)
next
  case (3 carry ks)
  then show ?case by (simp add: unsigned_ucast_eq take_bit_int_eq_self)
qed

lemma mpn_add_val: "length ks \<le> length js \<Longrightarrow> mpn_val (mpn_add js ks) = mpn_val js + mpn_val ks"
  by (simp add: mpn_add_def mpn_add_loop_val)

lemma length_mpn_add_loop:
  "length (mpn_add_loop carry js ks) \<le> length js + 1 \<and> length js \<le> length (mpn_add_loop carry js ks)"
  by (induction carry js ks rule: mpn_add_loop.induct) (auto simp: Let_def)

lemma length_mpn_add: "length (mpn_add js ks) \<le> length js + 1"
  using length_mpn_add_loop by (simp add: mpn_add_def)

lemma normalisedI_val:
  assumes "65536 ^ (length ds - 1) \<le> mpn_val ds"
  shows "normalised ds"
proof (rule ccontr)
  assume "\<not> normalised ds"
  then obtain xs where "ds = xs @ [0]" by (metis append_butlast_last_id normalised_def)
  then show False using assms mpn_val_less [of xs] by (simp add: mpn_val_append)
qed

lemma mpn_add_loop_last:
  assumes "uint carry \<le> 1" "length (mpn_add_loop carry js ks) = length js + 1"
  shows "last (mpn_add_loop carry js ks) \<noteq> 0"
  using assms
proof (induction carry js ks rule: mpn_add_loop.induct)
  case (1 carry j js k ks)
  then have "mpn_add_loop (drop_bit DIG_SIZE (carry + (ucast j + ucast k))) js ks \<noteq> []" by auto
  then show ?case using 1 add_carry(2) [of carry j k] by (simp add: Let_def)
next
  case (2 carry j js)
  then have "mpn_add_loop (drop_bit DIG_SIZE (carry + ucast j)) js [] \<noteq> []" by auto
  then show ?case using 2 add_carry1(2) [of carry j] by (simp add: Let_def)
next
  case (3 carry ks)
  have "uint (ucast carry :: dig) = uint carry"
    using 3 by (simp add: unsigned_ucast_eq take_bit_int_eq_self)
  then have "ucast carry \<noteq> (0::dig)" if "carry \<noteq> 0" using that uint_0_iff by metis
  then show ?case using 3 by (auto split: if_splits)
qed

lemma mpn_add_normalised:
  assumes "normalised js" "length ks \<le> length js"
  shows "normalised (mpn_add js ks)"
proof (cases "length (mpn_add js ks) = length js + 1")
  case True
  then show ?thesis using mpn_add_loop_last [of 0 js ks] by (simp add: mpn_add_def normalised_def)
next
  case False
  then have len: "length (mpn_add js ks) = length js"
    using length_mpn_add_loop [of 0 js ks] by (simp add: mpn_add_def)
  show ?thesis
  proof (cases "js = []")
    case True
    then show ?thesis using len by (simp add: normalised_def)
  next
    case False
    have "65536 ^ (length js - 1) \<le> mpn_val js" using mpn_val_ge False assms by (simp add: normalised_def)
    then show ?thesis using mpn_add_val [OF assms(2)] mpn_val_nonneg [of ks]
      by (intro normalisedI_val, unfold len) linarith
  qed
qed

section \<open>Subtraction\<close>

lemma borrow_step:
  fixes borrow :: dbl
  assumes "borrow = 0 \<or> borrow = -1"
  shows "sint (borrow + (ucast (j::dig) - ucast (k::dig))) = sint borrow + (uint j - uint k)"
proof -
  have "borrow + (ucast j - ucast k) = word_of_int (sint borrow + (uint j - uint k))"
    by (simp only: of_int_add of_int_diff of_int_sint scast_id ucast_eq)
  moreover have "sint borrow = 0 \<or> sint borrow = -1" using assms by auto
  then have "- 2147483648 \<le> sint borrow + (uint j - uint k)" "sint borrow + (uint j - uint k) < 2147483648"
    using dig_bound [of j] dig_bound [of k] by linarith+
  ultimately show ?thesis by (simp only: sint_dbl_of_int)
qed

lemma sint_split:
  fixes b :: dbl
  shows "uint (lo_dig b) + 65536 * sint (signed_drop_bit DIG_SIZE b) = sint b"
proof -
  have "uint (lo_dig b) = uint b mod 65536" by (rule uint_lo_dig)
  also have "\<dots> = take_bit 16 (uint b)" by (simp add: take_bit_eq_mod)
  also have "\<dots> = take_bit 16 (sint b)" by (simp only: uint_sint take_bit_take_bit) simp
  finally have "uint (lo_dig b) = sint b mod 65536" by (simp add: take_bit_eq_mod)
  moreover have "sint (signed_drop_bit DIG_SIZE b) = sint b div 65536"
    by (simp add: sint_signed_drop_bit_eq drop_bit_eq_div)
  ultimately show ?thesis by simp
qed

lemma sint_cases: "sint (b::dbl) = 0 \<or> sint b = -1 \<Longrightarrow> b = 0 \<or> b = -1"
  by (metis signed_word_eqI sint_0 sint_n1)

lemma borrow_next:
  fixes borrow :: dbl and j k :: dig
  assumes "borrow = 0 \<or> borrow = -1"
  defines "b \<equiv> borrow + (ucast j - ucast k)"
  shows "signed_drop_bit DIG_SIZE b = 0 \<or> signed_drop_bit DIG_SIZE b = -1"
proof (rule sint_cases)
  have "sint borrow = 0 \<or> sint borrow = -1" using assms(1) by auto
  then show "sint (signed_drop_bit DIG_SIZE b) = 0 \<or> sint (signed_drop_bit DIG_SIZE b) = -1"
    using borrow_step [OF assms(1), of j k] sint_split [of b] dig_bound [of "lo_dig b"]
      dig_bound [of j] dig_bound [of k] unfolding b_def by arith
qed

lemma borrow_digit:
  fixes borrow :: dbl and j k :: dig
  assumes "borrow = 0 \<or> borrow = -1"
    and "r + p * e = v + sint (signed_drop_bit DIG_SIZE (borrow + (ucast j - ucast k)))"
  shows "uint (lo_dig (borrow + (ucast j - ucast k))) + 65536 * r + 65536 * p * e
    = uint j - uint k + 65536 * v + sint borrow"
proof -
  let ?b = "borrow + (ucast j - ucast k)"
  have "65536 * r + 65536 * p * e = 65536 * (v + sint (signed_drop_bit DIG_SIZE ?b))"
    using assms(2) by (simp add: algebra_simps)
  then show ?thesis using sint_split [of ?b] borrow_step [OF assms(1), of j k] by (simp add: algebra_simps)
qed

lemma length_mpn_sub_loop [simp]: "length (mpn_sub_loop borrow js ks) = length js"
  by (induction borrow js ks rule: mpn_sub_loop.induct) (simp_all add: Let_def)

lemma mpn_sub_loop_val:
  assumes "borrow = 0 \<or> borrow = -1" "length ks \<le> length js"
  shows "\<exists>b. (b = 0 \<or> b = -1) \<and>
    mpn_val (mpn_sub_loop borrow js ks) + 65536 ^ length js * b = mpn_val js - mpn_val ks + sint borrow"
  using assms
proof (induction borrow js ks rule: mpn_sub_loop.induct)
  case (1 borrow j js k ks)
  from 1 borrow_next [of borrow j k] obtain b where b: "b = 0 \<or> b = -1" and
    *: "mpn_val (mpn_sub_loop (signed_drop_bit DIG_SIZE (borrow + (ucast j - ucast k))) js ks)
      + 65536 ^ length js * b
      = mpn_val js - mpn_val ks + sint (signed_drop_bit DIG_SIZE (borrow + (ucast j - ucast k)))"
    by force
  show ?case using b borrow_digit [OF "1.prems"(1) *]
    by (intro exI [of _ b]) (simp add: Let_def algebra_simps)
next
  case (2 borrow j js)
  from 2 borrow_next [of borrow j 0] obtain b where b: "b = 0 \<or> b = -1" and
    *: "mpn_val (mpn_sub_loop (signed_drop_bit DIG_SIZE (borrow + (ucast j - ucast (0::dig)))) js [])
      + 65536 ^ length js * b
      = mpn_val js - mpn_val [] + sint (signed_drop_bit DIG_SIZE (borrow + (ucast j - ucast (0::dig))))"
    by force
  show ?case using b borrow_digit [OF "2.prems"(1) *]
    by (intro exI [of _ b]) (simp add: Let_def algebra_simps)
qed auto

lemma mpn_sub_val:
  assumes "length ks \<le> length js" "mpn_val ks \<le> mpn_val js"
  shows "mpn_val (mpn_sub js ks) = mpn_val js - mpn_val ks"
proof -
  obtain b where b: "b = 0 \<or> b = -1"
    and v: "mpn_val (mpn_sub_loop 0 js ks) + 65536 ^ length js * b = mpn_val js - mpn_val ks"
    using mpn_sub_loop_val [of 0, OF _ assms(1)] by auto
  have "b \<noteq> -1" using v assms(2) mpn_val_less [of "mpn_sub_loop 0 js ks"] by auto
  then show ?thesis using b v by (simp add: mpn_sub_def)
qed

lemma mpn_sub_normalised [simp]: "normalised (mpn_sub js ks)"
  by (simp add: mpn_sub_def)

lemma length_mpn_sub: "length (mpn_sub js ks) \<le> length js"
  using length_strip_le [of "mpn_sub_loop 0 js ks"] by (simp add: mpn_sub_def)

end
