(* ===== verification/Mpn_Mul.thy ===== *)
theory Mpn_Mul
  imports Mpn
begin

text \<open>
  Multiplication in \<^verbatim>\<open>py/mpz.c\<close>: by one digit with a digit added (used by the string reader) and
  the schoolbook product of two digit arrays.
\<close>

section \<open>Definitions\<close>

fun mpn_mul_dig_loop :: "dbl \<Rightarrow> dig list \<Rightarrow> dig \<Rightarrow> dig list" where
  "mpn_mul_dig_loop carry (i # is) dmul =
     (let carry = carry + ucast i * ucast dmul
      in lo_dig carry # mpn_mul_dig_loop (drop_bit DIG_SIZE carry) is dmul)"
| "mpn_mul_dig_loop carry [] dmul = (if carry \<noteq> 0 then [ucast carry] else [])"

definition mpn_mul_dig_add_dig :: "dig list \<Rightarrow> dig \<Rightarrow> dig \<Rightarrow> dig list" where
  "mpn_mul_dig_add_dig idig dmul dadd = mpn_mul_dig_loop (ucast dadd) idig dmul"

text \<open>
  One row of \<^verbatim>\<open>mpn_mul\<close>: \<open>ids\<close> is the part of the zeroed result array from \<^verbatim>\<open>idig\<close> on.  The row
  adds \<open>j * k\<close> into it and stores the last carry when it is not zero; the second result is the
  number of digits up to \<^verbatim>\<open>id\<close>.
\<close>

fun mpn_mul_row :: "dbl \<Rightarrow> dig list \<Rightarrow> dig list \<Rightarrow> dig \<Rightarrow> dig list \<times> nat" where
  "mpn_mul_row carry (i # ids) (j # js) k =
     (let carry = carry + (ucast i + ucast j * ucast k);
          (ids', n) = mpn_mul_row (drop_bit DIG_SIZE carry) ids js k
      in (lo_dig carry # ids', Suc n))"
| "mpn_mul_row carry (i # ids) [] k =
     (if carry \<noteq> 0 then (ucast carry # ids, 1) else (i # ids, 0))"
| "mpn_mul_row carry [] js k = ([], 0)"

fun mpn_mul_rows :: "dig list \<Rightarrow> dig list \<Rightarrow> dig list \<Rightarrow> dig list \<times> nat" where
  "mpn_mul_rows ids js [] = (ids, 0)"
| "mpn_mul_rows ids js (k # ks) =
     (let (ids', n) = mpn_mul_row 0 ids js k
      in case ks of
           [] \<Rightarrow> (ids', n)
         | _ \<Rightarrow> (let (ids'', n') = mpn_mul_rows (tl ids') js ks
                 in (hd ids' # ids'', Suc n')))"

definition mpn_mul :: "dig list \<Rightarrow> dig list \<Rightarrow> dig list \<Rightarrow> dig list" where
  "mpn_mul idig jdig kdig = (let (ids, ilen) = mpn_mul_rows idig jdig kdig in take ilen ids)"

section \<open>Multiplication by a digit\<close>

lemma mult_dig_bound: "uint (i::dig) * uint (k::dig) \<le> 65535 * 65535"
  using dig_bound [of i] dig_bound [of k] by (intro mult_mono) auto

lemma mul_carry:
  fixes carry :: dbl and i k :: dig
  assumes "uint carry < 65536"
  shows "uint (carry + ucast i * ucast k) = uint carry + uint i * uint k"
    "uint (drop_bit DIG_SIZE (carry + ucast i * ucast k)) < 65536"
proof -
  have "uint (carry + ucast i * ucast k) = (uint carry + uint i * uint k) mod 4294967296"
    by (simp add: uint_word_ariths dig_simps mod_simps)
  also have "\<dots> = uint carry + uint i * uint k"
    using assms mult_dig_bound [of i k] by (intro mod_pos_pos_trivial) auto
  finally show "uint (carry + ucast i * ucast k) = uint carry + uint i * uint k" .
  then show "uint (drop_bit DIG_SIZE (carry + ucast i * ucast k)) < 65536"
    using assms mult_dig_bound [of i k] by (intro uint_drop_16_le) auto
qed

lemma uint_ucast_small: "uint (c::dbl) < 65536 \<Longrightarrow> uint (ucast c :: dig) = uint c"
  by (simp add: unsigned_ucast_eq take_bit_int_eq_self)

lemma mpn_mul_dig_loop_val:
  "uint carry < 65536 \<Longrightarrow>
   mpn_val (mpn_mul_dig_loop carry is dmul) = mpn_val is * uint dmul + uint carry"
proof (induction carry "is" dmul rule: mpn_mul_dig_loop.induct)
  case (1 carry i "is" dmul)
  then show ?case using mul_carry [of carry i dmul] carry_split [of "carry + ucast i * ucast dmul"]
    by (simp add: Let_def algebra_simps)
qed (simp add: uint_ucast_small)

theorem mpn_mul_dig_add_dig_val:
  "mpn_val (mpn_mul_dig_add_dig idig dmul dadd) = mpn_val idig * uint dmul + uint dadd"
  using dig_bound [of dadd]
  by (simp add: mpn_mul_dig_add_dig_def mpn_mul_dig_loop_val dig_simps)

lemma length_mpn_mul_dig_add_dig: "length (mpn_mul_dig_add_dig idig dmul dadd) \<le> length idig + 1"
proof -
  have "length (mpn_mul_dig_loop carry idig dmul) \<le> length idig + 1" for carry
    by (induction carry idig dmul rule: mpn_mul_dig_loop.induct) (simp_all add: Let_def)
  then show ?thesis by (simp add: mpn_mul_dig_add_dig_def)
qed

section \<open>The schoolbook product\<close>

lemma row_carry:
  fixes carry :: dbl and i j k :: dig
  assumes "uint carry < 65536"
  shows "uint (carry + (ucast i + ucast j * ucast k)) = uint carry + uint i + uint j * uint k"
    "uint (drop_bit DIG_SIZE (carry + (ucast i + ucast j * ucast k))) < 65536"
proof -
  let ?c = "carry + (ucast i + ucast j * ucast k)"
  have b: "uint carry + (uint i + uint j * uint k) < 4294967296"
    using assms mult_dig_bound [of j k] dig_bound [of i] by linarith
  have "uint ?c = (uint carry + (uint i + uint j * uint k)) mod 4294967296"
    by (simp add: uint_word_ariths dig_simps mod_simps)
  also have "\<dots> = uint carry + (uint i + uint j * uint k)"
    using b by (intro mod_pos_pos_trivial) auto
  finally show c: "uint ?c = uint carry + uint i + uint j * uint k" by simp
  show "uint (drop_bit DIG_SIZE ?c) < 65536"
    using b c by (intro uint_drop_16_le) linarith
qed

lemma mpn_mul_row_val:
  assumes "uint carry < 65536" "length js < length ids" "ids ! length js = 0"
  shows "mpn_val (fst (mpn_mul_row carry ids js k)) = mpn_val ids + mpn_val js * uint k + uint carry
    \<and> length (fst (mpn_mul_row carry ids js k)) = length ids
    \<and> drop (Suc (length js)) (fst (mpn_mul_row carry ids js k)) = drop (Suc (length js)) ids"
  using assms
proof (induction carry ids js k rule: mpn_mul_row.induct)
  case (1 carry i ids j js k)
  then show ?case
    using row_carry [of carry i j k] carry_split [of "carry + (ucast i + ucast j * ucast k)"]
    by (simp add: Let_def split_beta algebra_simps)
qed (simp_all add: uint_ucast_small)

lemma mpn_mul_row_top:
  assumes "uint carry < 65536" "length js < length ids"
  shows "let (ids', n) = mpn_mul_row carry ids js k
    in n = length js \<and> ids' ! length js = ids ! length js \<or> n = Suc (length js) \<and> ids' ! length js \<noteq> 0"
  using assms
proof (induction carry ids js k rule: mpn_mul_row.induct)
  case (1 carry i ids j js k)
  then show ?case using row_carry [of carry i j k] by (auto simp: Let_def split: prod.splits)
next
  case (2 carry i ids k)
  have "ucast carry \<noteq> (0::dig)" if "carry \<noteq> 0" using that uint_ucast_small 2 uint_0_iff by metis
  then show ?case by simp
qed simp

text \<open>
  The rows add up to the product, and nothing above the returned length is set.  The hypothesis
  is what \<^verbatim>\<open>mpn_mul\<close> assumes: a zeroed array with room for both operands.
\<close>

lemma drop_zero_nth:
  assumes "\<forall>d \<in> set (drop n ids). d = 0" "n \<le> m" "m < length ids"
  shows "ids ! m = (0::dig)"
proof -
  have "drop n ids ! (m - n) \<in> set (drop n ids)" using assms(2,3) by (intro nth_mem) simp
  then show ?thesis using assms by simp
qed

lemma set_drop_Suc: "set (drop (Suc n) xs) \<subseteq> set (drop n xs)"
  by (simp add: set_drop_subset_set_drop)

lemma mpn_mul_rows_val:
  assumes "ks \<noteq> []" "length js + length ks \<le> length ids" "\<forall>d \<in> set (drop (length js) ids). d = 0"
  shows "let (ids', n) = mpn_mul_rows ids js ks in
    mpn_val ids' = mpn_val ids + mpn_val js * mpn_val ks \<and> length ids' = length ids
    \<and> (\<forall>d \<in> set (drop n ids'). d = 0)
    \<and> (n = length js + length ks - 1 \<or> n = length js + length ks \<and> ids' ! (n - 1) \<noteq> 0)"
  using assms
proof (induction ids js ks rule: mpn_mul_rows.induct)
  case (2 ids js k ks)
  obtain ids' n where row: "mpn_mul_row 0 ids js k = (ids', n)" by fastforce
  have room: "length js < length ids" using "2.prems"(2) by simp
  have z: "ids ! length js = 0" using drop_zero_nth [OF "2.prems"(3) _ room] by simp
  have val: "mpn_val ids' = mpn_val ids + mpn_val js * uint k" "length ids' = length ids"
    "drop (Suc (length js)) ids' = drop (Suc (length js)) ids"
    using mpn_mul_row_val [of 0 js ids k] room z row by simp_all
  have zs: "\<forall>d \<in> set (drop (Suc (length js)) ids'). d = 0"
    using "2.prems"(3) set_drop_Suc [of "length js" ids] val(3) by auto
  have top: "n = length js \<and> ids' ! length js = 0 \<or> n = Suc (length js) \<and> ids' ! length js \<noteq> 0"
    using mpn_mul_row_top [of 0 js ids k] room row z by simp
  show ?case
  proof (cases ks)
    case Nil
    have "\<forall>d \<in> set (drop n ids'). d = 0"
      using top zs room val(2) Cons_nth_drop_Suc [of "length js" ids'] by (auto simp flip: Cons_nth_drop_Suc)
    then show ?thesis using Nil row val top by auto
  next
    case (Cons k' ks')
    obtain a as where ids': "ids' = a # as" using room val(2) by (cases ids') auto
    obtain bs n' where rec: "mpn_mul_rows as js ks = (bs, n')" by fastforce
    have "mpn_val bs = mpn_val as + mpn_val js * mpn_val ks \<and> length bs = length as
        \<and> (\<forall>d \<in> set (drop n' bs). d = 0)
        \<and> (n' = length js + length ks - 1 \<or> n' = length js + length ks \<and> bs ! (n' - 1) \<noteq> 0)"
      using "2.IH" [OF row [symmetric] refl Cons] "2.prems"(2) Cons ids' val(2) zs rec by simp
    then show ?thesis
      using Cons row rec ids' val(1,2) by (auto simp: algebra_simps nth_Cons split: nat.splits)
  qed
qed simp

lemma mpn_val_take:
  assumes "\<forall>d \<in> set (drop n ds). d = 0"
  shows "mpn_val (take n ds) = mpn_val ds"
proof -
  have "drop n ds = replicate (length (drop n ds)) 0" using assms by (intro replicate_eqI) auto
  then have "mpn_val (drop n ds) = 0" by (metis mpn_val_replicate_0)
  then show ?thesis using mpn_val_append [of "take n ds" "drop n ds"] by simp
qed

lemma mpn_mul_val_normalised:
  assumes "ks \<noteq> []" "length js + length ks \<le> m"
  shows "mpn_val (mpn_mul (replicate m 0) js ks) = mpn_val js * mpn_val ks"
    and "js \<noteq> [] \<Longrightarrow> normalised js \<Longrightarrow> normalised ks \<Longrightarrow> normalised (mpn_mul (replicate m 0) js ks)"
    and "length (mpn_mul (replicate m 0) js ks) \<le> length js + length ks"
proof -
  obtain ids n where rows: "mpn_mul_rows (replicate m 0) js ks = (ids, n)" by fastforce
  have *: "mpn_val ids = mpn_val js * mpn_val ks" "length ids = m" "\<forall>d \<in> set (drop n ids). d = 0"
    "n = length js + length ks - 1 \<or> n = length js + length ks \<and> ids ! (n - 1) \<noteq> 0"
    using mpn_mul_rows_val [OF assms(1), of js "replicate m 0"] assms(2) rows by auto
  show val: "mpn_val (mpn_mul (replicate m 0) js ks) = mpn_val js * mpn_val ks"
    using * by (simp add: mpn_mul_def rows mpn_val_take)
  show "length (mpn_mul (replicate m 0) js ks) \<le> length js + length ks"
    using *(4) by (auto simp: mpn_mul_def rows)
  assume n: "js \<noteq> []" "normalised js" "normalised ks"
  have len: "length (mpn_mul (replicate m 0) js ks) = n"
    using *(2,4) assms(2) by (auto simp: mpn_mul_def rows)
  from *(4) show "normalised (mpn_mul (replicate m 0) js ks)"
  proof
    assume n1: "n = length js + length ks - 1"
    have "(65536::int) ^ (n - 1) = 65536 ^ (length js - 1) * 65536 ^ (length ks - 1)"
      using n1 n(1) assms(1) by (cases js; cases ks) (simp_all add: power_add)
    also have "\<dots> \<le> mpn_val js * mpn_val ks"
      using mpn_val_ge [of js] mpn_val_ge [of ks] n assms(1) by (intro mult_mono) (auto simp: normalised_def)
    finally show ?thesis using val len by (intro normalisedI_val) simp
  next
    assume n1: "n = length js + length ks \<and> ids ! (n - 1) \<noteq> 0"
    then have "last (take n ids) \<noteq> 0" using *(2) assms n(1) by (subst last_conv_nth) auto
    then show ?thesis by (simp add: mpn_mul_def rows normalised_def)
  qed
qed

end
