(* ===== verification/Mpn_Bits.thy ===== *)
theory Mpn_Bits
  imports Mpn
begin

text \<open>
  The bitwise routines of \<^verbatim>\<open>py/mpz.c\<close> in the configuration the firmware builds
  (\<^verbatim>\<open>MICROPY_OPT_MPZ_BITWISE\<close>): fast loops for two non-negative operands, and the \<^verbatim>\<open>_neg\<close>
  loops that produce two's complement digits on the fly from sign and magnitude.  In the \<^verbatim>\<open>_neg\<close>
  loops the C condition \<^verbatim>\<open>--klen <= --jlen\<close> on unsigned lengths with \<^verbatim>\<open>klen <= jlen\<close> says exactly that
  \<open>k\<close> still has a digit.
\<close>

section \<open>Definitions\<close>

fun mpn_and_loop :: "dig list \<Rightarrow> dig list \<Rightarrow> dig list" where
  "mpn_and_loop (j # js) (k # ks) = (j AND k) # mpn_and_loop js ks"
| "mpn_and_loop _ _ = []"

definition mpn_and :: "dig list \<Rightarrow> dig list \<Rightarrow> dig list" where
  "mpn_and jdig kdig = mpn_remove_trailing_zeros (mpn_and_loop jdig kdig)"

definition mask_of :: "dbl \<Rightarrow> dig" where
  "mask_of carry = (if carry = 0 then 0 else ucast DIG_MASK)"

fun mpn_and_neg_loop :: "dig \<Rightarrow> dig \<Rightarrow> dig \<Rightarrow> dbl \<Rightarrow> dbl \<Rightarrow> dbl \<Rightarrow> dig list \<Rightarrow> dig list \<Rightarrow> dig list" where
  "mpn_and_neg_loop imask jmask kmask carryi carryj carryk (j # js) ks =
     (let carryj = carryj + ucast (j XOR jmask);
          carryk = carryk + (case ks of k # _ \<Rightarrow> ucast (k XOR kmask) | [] \<Rightarrow> ucast kmask);
          carryi = carryi + (((carryj AND carryk) XOR ucast imask) AND DIG_MASK)
      in lo_dig carryi # mpn_and_neg_loop imask jmask kmask (drop_bit DIG_SIZE carryi)
           (drop_bit DIG_SIZE carryj) (drop_bit DIG_SIZE carryk) js (drop 1 ks))"
| "mpn_and_neg_loop imask jmask kmask carryi carryj carryk [] ks =
     (if carryi \<noteq> 0 then [ucast carryi] else [])"

definition mpn_and_neg :: "dig list \<Rightarrow> dig list \<Rightarrow> dbl \<Rightarrow> dbl \<Rightarrow> dbl \<Rightarrow> dig list" where
  "mpn_and_neg jdig kdig carryi carryj carryk =
     mpn_remove_trailing_zeros (mpn_and_neg_loop (mask_of carryi) (mask_of carryj) (mask_of carryk)
       carryi carryj carryk jdig kdig)"

fun mpn_or :: "dig list \<Rightarrow> dig list \<Rightarrow> dig list" where
  "mpn_or (j # js) (k # ks) = (j OR k) # mpn_or js ks"
| "mpn_or js [] = js"
| "mpn_or [] ks = []"

fun mpn_or_neg_loop :: "dig \<Rightarrow> dig \<Rightarrow> dbl \<Rightarrow> dbl \<Rightarrow> dbl \<Rightarrow> dig list \<Rightarrow> dig list \<Rightarrow> dig list \<times> dbl" where
  "mpn_or_neg_loop jmask kmask carryi carryj carryk (j # js) ks =
     (let carryj = carryj + ucast (j XOR jmask);
          carryk = carryk + (case ks of k # _ \<Rightarrow> ucast (k XOR kmask) | [] \<Rightarrow> ucast kmask);
          carryi = carryi + (((carryj OR carryk) XOR DIG_MASK) AND DIG_MASK);
          (ids, c) = mpn_or_neg_loop jmask kmask (drop_bit DIG_SIZE carryi)
           (drop_bit DIG_SIZE carryj) (drop_bit DIG_SIZE carryk) js (drop 1 ks)
      in (lo_dig carryi # ids, c))"
| "mpn_or_neg_loop jmask kmask carryi carryj carryk [] ks = ([], carryi)"

definition mpn_or_neg :: "dig list \<Rightarrow> dig list \<Rightarrow> dbl \<Rightarrow> dbl \<Rightarrow> dig list option" where
  "mpn_or_neg jdig kdig carryj carryk =
     (let (ids, carryi) = mpn_or_neg_loop (mask_of carryj) (mask_of carryk) 1 carryj carryk jdig kdig
      in if carryi = 0 then Some (mpn_remove_trailing_zeros ids) else None)"

fun mpn_xor_loop :: "dig list \<Rightarrow> dig list \<Rightarrow> dig list" where
  "mpn_xor_loop (j # js) (k # ks) = (j XOR k) # mpn_xor_loop js ks"
| "mpn_xor_loop js [] = js"
| "mpn_xor_loop [] ks = []"

definition mpn_xor :: "dig list \<Rightarrow> dig list \<Rightarrow> dig list" where
  "mpn_xor jdig kdig = mpn_remove_trailing_zeros (mpn_xor_loop jdig kdig)"

fun mpn_xor_neg_loop :: "dbl \<Rightarrow> dbl \<Rightarrow> dbl \<Rightarrow> dig list \<Rightarrow> dig list \<Rightarrow> dig list" where
  "mpn_xor_neg_loop carryi carryj carryk (j # js) ks =
     (let carryj = carryj + (ucast j + DIG_MASK);
          carryk = carryk + (case ks of k # _ \<Rightarrow> ucast k + DIG_MASK | [] \<Rightarrow> DIG_MASK);
          carryi = carryi + ((carryj XOR carryk) AND DIG_MASK)
      in lo_dig carryi # mpn_xor_neg_loop (drop_bit DIG_SIZE carryi)
           (drop_bit DIG_SIZE carryj) (drop_bit DIG_SIZE carryk) js (drop 1 ks))"
| "mpn_xor_neg_loop carryi carryj carryk [] ks = (if carryi \<noteq> 0 then [ucast carryi] else [])"

definition mpn_xor_neg :: "dig list \<Rightarrow> dig list \<Rightarrow> dbl \<Rightarrow> dbl \<Rightarrow> dbl \<Rightarrow> dig list" where
  "mpn_xor_neg jdig kdig carryi carryj carryk =
     mpn_remove_trailing_zeros (mpn_xor_neg_loop carryi carryj carryk jdig kdig)"

section \<open>Bitwise operations digit by digit\<close>

lemma bit_digit:
  assumes "0 \<le> a" "a < 65536"
  shows "bit (a + 65536 * (b::int)) n = (if n < 16 then bit a n else bit b (n - 16))"
proof -
  have "a + 65536 * b = concat_bit 16 a b"
    using assms by (simp add: concat_bit_eq take_bit_int_eq_self push_bit_eq_mult)
  then show ?thesis by (simp add: bit_concat_bit_iff)
qed

lemma take_bit_bounds: "take_bit 16 x = x \<Longrightarrow> 0 \<le> x \<and> x < (65536::int)"
  using take_bit_int_less_exp [of 16 x] take_bit_nonnegative [of 16 x] by simp

lemma bitwise_bounds:
  fixes a c :: int
  assumes "0 \<le> a" "a < 65536" "0 \<le> c" "c < 65536"
  shows "0 \<le> a AND c" "a AND c < 65536" "0 \<le> a OR c" "a OR c < 65536" "0 \<le> a XOR c" "a XOR c < 65536"
proof -
  have "take_bit 16 a = a" "take_bit 16 c = c" using assms by (simp_all add: take_bit_int_eq_self)
  then have "take_bit 16 (a AND c) = a AND c" "take_bit 16 (a OR c) = a OR c" "take_bit 16 (a XOR c) = a XOR c"
    by simp_all
  then show "0 \<le> a AND c" "a AND c < 65536" "0 \<le> a OR c" "a OR c < 65536" "0 \<le> a XOR c" "a XOR c < 65536"
    using take_bit_bounds by blast+
qed

lemma digit_bitwise:
  fixes a b c d :: int
  assumes "0 \<le> a" "a < 65536" "0 \<le> c" "c < 65536"
  shows "(a + 65536 * b) AND (c + 65536 * d) = (a AND c) + 65536 * (b AND d)"
    "(a + 65536 * b) OR (c + 65536 * d) = (a OR c) + 65536 * (b OR d)"
    "(a + 65536 * b) XOR (c + 65536 * d) = (a XOR c) + 65536 * (b XOR d)"
  by (rule bit_eqI; simp add: bit_and_iff bit_or_iff bit_xor_iff bit_digit assms bitwise_bounds [OF assms])+

lemma mpn_and_loop_val: "mpn_val (mpn_and_loop js ks) = mpn_val js AND mpn_val ks"
  by (induction js ks rule: mpn_and_loop.induct)
    (simp_all add: digit_bitwise dig_bound unsigned_and_eq)

lemma mpn_or_val: "length ks \<le> length js \<Longrightarrow> mpn_val (mpn_or js ks) = mpn_val js OR mpn_val ks"
  by (induction js ks rule: mpn_or.induct)
    (simp_all add: digit_bitwise dig_bound unsigned_or_eq)

lemma mpn_xor_loop_val:
  "length ks \<le> length js \<Longrightarrow> mpn_val (mpn_xor_loop js ks) = mpn_val js XOR mpn_val ks"
  by (induction js ks rule: mpn_xor_loop.induct)
    (simp_all add: digit_bitwise dig_bound unsigned_xor_eq)

lemma mpn_or_normalised:
  "normalised js \<Longrightarrow> normalised ks \<Longrightarrow> length ks \<le> length js \<Longrightarrow> normalised (mpn_or js ks)"
proof -
  assume n: "normalised js" "normalised ks" "length ks \<le> length js"
  have "length (mpn_or js ks) = length js" using n(3) by (induction js ks rule: mpn_or.induct) auto
  moreover have "mpn_val js \<le> mpn_val js OR mpn_val ks" by (simp add: or_greater_eq or.commute)
  ultimately show ?thesis
    using mpn_or_val [OF n(3)] mpn_val_ge [of js] n(1)
    by (cases "js = []") (auto simp: normalised_def intro!: normalisedI_val [unfolded normalised_def])
qed

section \<open>Two's complement streams\<close>

text \<open>
  The integer a masked stream stands for: with mask 0 the digits as they are, with mask
  \<^verbatim>\<open>DIG_MASK\<close> their complement; the carry is added at the bottom.
\<close>

definition strm :: "dig \<Rightarrow> dbl \<Rightarrow> dig list \<Rightarrow> int" where
  "strm m carry ds = (if m = 0 then mpn_val ds else - 1 - mpn_val ds) + uint carry"

definition mask_ok :: "dig \<Rightarrow> bool" where
  "mask_ok m \<longleftrightarrow> m = 0 \<or> m = ucast DIG_MASK"

lemma mask_of_ok [simp]: "mask_ok (mask_of c)"
  by (simp add: mask_of_def mask_ok_def)

lemma uint_mask [simp]: "uint (ucast DIG_MASK :: dig) = 65535"
  by (simp add: DIG_MASK_def)

lemma uint_xor_mask: "uint (d XOR ucast DIG_MASK :: dig) = 65535 - uint d"
proof -
  have "(ucast DIG_MASK :: dig) = - 1" by (simp add: DIG_MASK_def)
  then have "d XOR ucast DIG_MASK = NOT d" by simp
  then show ?thesis using uint_lt2p [of d]
    by (simp add: unsigned_not_eq take_bit_not_eq_mask_diff mask_eq_exp_minus_1 take_bit_int_eq_self)
qed

lemma stream_digit:
  fixes c :: dbl and x :: dig
  assumes "uint c \<le> 1"
  shows "uint (c + ucast x) = uint c + uint x" "uint (drop_bit DIG_SIZE (c + ucast x)) \<le> 1"
    "uint c + uint x = uint (lo_dig (c + ucast x)) + 65536 * uint (drop_bit DIG_SIZE (c + ucast x))"
  using add_carry1 [OF assms, of x] carry_split [of "c + ucast x"] by auto

lemma strm_Cons:
  fixes d m :: dig and c :: dbl
  assumes "mask_ok m" "uint c \<le> 1"
  defines "s \<equiv> c + ucast (d XOR m)"
  shows "strm m c (d # ds) = uint (lo_dig s) + 65536 * strm m (drop_bit DIG_SIZE s) ds"
proof -
  have "uint (d XOR m) = (if m = 0 then uint d else 65535 - uint d)"
    using assms(1) uint_xor_mask [of d] by (auto simp: mask_ok_def)
  then show ?thesis using stream_digit(3) [OF assms(2), of "d XOR m"] unfolding s_def
    by (auto simp: strm_def algebra_simps)
qed

lemma strm_Nil:
  assumes "mask_ok m" "uint c \<le> 1"
  shows "strm m c [] = uint (lo_dig (c + ucast m)) + 65536 * strm m (drop_bit DIG_SIZE (c + ucast m)) []"
proof -
  have "uint m = (if m = 0 then 0 else 65535)" using assms(1) by (auto simp: mask_ok_def)
  then show ?thesis using stream_digit(3) [OF assms(2), of m] by (auto simp: strm_def algebra_simps)
qed

lemma digit_div:
  assumes "0 \<le> a" "a < 65536"
  shows "(a + 65536 * (x::int)) div 65536 ^ Suc n = x div 65536 ^ n"
proof -
  have "(a + 65536 * x) div 65536 ^ Suc n = (a + 65536 * x) div 65536 div 65536 ^ n"
    by (simp add: zdiv_zmult2_eq)
  also have "(a + 65536 * x) div 65536 = x" using assms by simp
  finally show ?thesis .
qed

definition kdigit :: "dig \<Rightarrow> dig list \<Rightarrow> dig" where
  "kdigit m ks = (case ks of k # _ \<Rightarrow> k XOR m | [] \<Rightarrow> m)"

lemma strm_kdigit:
  assumes "mask_ok m" "uint c \<le> 1"
  shows "strm m c ks = uint (lo_dig (c + ucast (kdigit m ks)))
    + 65536 * strm m (drop_bit DIG_SIZE (c + ucast (kdigit m ks))) (drop 1 ks)"
  using strm_Cons [OF assms] strm_Nil [OF assms] by (cases ks) (simp_all add: kdigit_def)

lemma kdigit_ucast: "(case ks of k # _ \<Rightarrow> ucast (k XOR m) | [] \<Rightarrow> ucast m) = (ucast (kdigit m ks) :: dbl)"
  by (simp add: kdigit_def split: list.split)

lemma DIG_MASK_mask: "DIG_MASK = mask 16"
  by (simp add: DIG_MASK_def mask_eq_exp_minus_1)

lemma lo_dig_ucast: "lo_dig d = ucast d"
  by (rule bit_word_eqI) (simp add: lo_dig_def DIG_MASK_mask bit_simps)

lemma masked_and: "((a AND b) XOR ucast m) AND DIG_MASK = ucast ((lo_dig a AND lo_dig b) XOR (m::dig))"
  by (rule bit_word_eqI) (auto simp: lo_dig_ucast DIG_MASK_mask bit_simps not_less)

lemma masked_or: "((a OR b) XOR DIG_MASK) AND DIG_MASK = ucast ((lo_dig a OR lo_dig b) XOR (ucast DIG_MASK :: dig))"
  by (rule bit_word_eqI) (auto simp: lo_dig_ucast DIG_MASK_mask bit_simps not_less)

lemma masked_xor: "(a XOR b) AND DIG_MASK = ucast (lo_dig a XOR lo_dig b)"
  by (rule bit_word_eqI) (auto simp: lo_dig_ucast DIG_MASK_mask bit_simps not_less)

definition flip_if :: "dig \<Rightarrow> int \<Rightarrow> int" where
  "flip_if m x = (if m = 0 then x else - 1 - x)"

lemma flip_digit:
  fixes m x :: dig and c :: dbl
  assumes "mask_ok m" "uint c \<le> 1"
  shows "flip_if m (uint x + 65536 * r) + uint c =
    uint (lo_dig (c + ucast (x XOR m)))
    + 65536 * (flip_if m r + uint (drop_bit DIG_SIZE (c + ucast (x XOR m))))"
proof -
  have "uint (x XOR m) = (if m = 0 then uint x else 65535 - uint x)"
    using assms(1) uint_xor_mask [of x] by (auto simp: mask_ok_def)
  then show ?thesis using stream_digit(3) [OF assms(2), of "x XOR m"]
    by (auto simp: flip_if_def algebra_simps)
qed

lemma uint_0_1_ucast: "uint (c::dbl) \<le> 1 \<Longrightarrow> mpn_val (if c \<noteq> 0 then [ucast c] else []) = uint c"
  by (simp add: unsigned_ucast_eq take_bit_int_eq_self)

lemma mpn_and_neg_loop_val:
  assumes "mask_ok im" "mask_ok jm" "mask_ok km" "uint ci \<le> 1" "uint cj \<le> 1" "uint ck \<le> 1"
  shows "mpn_val (mpn_and_neg_loop im jm km ci cj ck js ks)
      + 65536 ^ length js * flip_if im ((strm jm cj js div 65536 ^ length js) AND (strm km ck ks div 65536 ^ length js))
    = flip_if im (strm jm cj js AND strm km ck ks) + uint ci"
  using assms(4-)
proof (induction js arbitrary: ci cj ck ks)
  case Nil
  then show ?case using uint_0_1_ucast [of ci] by simp
next
  case (Cons j js)
  let ?cj = "cj + ucast (j XOR jm)" and ?ck = "ck + ucast (kdigit km ks)"
  let ?x = "lo_dig ?cj AND lo_dig ?ck"
  let ?ci = "ci + ucast (?x XOR im)"
  let ?J = "strm jm (drop_bit DIG_SIZE ?cj) js" and ?K = "strm km (drop_bit DIG_SIZE ?ck) (drop 1 ks)"
  let ?out = "mpn_and_neg_loop im jm km (drop_bit DIG_SIZE ?ci) (drop_bit DIG_SIZE ?cj) (drop_bit DIG_SIZE ?ck) js (drop 1 ks)"
  let ?e = "flip_if im ((?J div 65536 ^ length js) AND (?K div 65536 ^ length js))"
  have J: "strm jm cj (j # js) = uint (lo_dig ?cj) + 65536 * ?J" by (rule strm_Cons [OF assms(2) Cons.prems(2)])
  have K: "strm km ck ks = uint (lo_dig ?ck) + 65536 * ?K" by (rule strm_kdigit [OF assms(3) Cons.prems(3)])
  have R: "strm jm cj (j # js) AND strm km ck ks = uint ?x + 65536 * (?J AND ?K)"
    unfolding J K by (simp add: digit_bitwise dig_bound unsigned_and_eq)
  have ends: "strm jm cj (j # js) div 65536 ^ length (j # js) = ?J div 65536 ^ length js"
    "strm km ck ks div 65536 ^ length (j # js) = ?K div 65536 ^ length js"
    unfolding J K length_Cons by (rule digit_div; rule dig_bound)+
  have IH: "mpn_val ?out + 65536 ^ length js * ?e = flip_if im (?J AND ?K) + uint (drop_bit DIG_SIZE ?ci)"
    using Cons stream_digit(2) by blast
  have "mpn_val (mpn_and_neg_loop im jm km ci cj ck (j # js) ks) = uint (lo_dig ?ci) + 65536 * mpn_val ?out"
    by (simp add: Let_def masked_and kdigit_ucast)
  then show ?case unfolding ends unfolding R using IH flip_digit [OF assms(1) Cons.prems(1), of ?x "?J AND ?K"]
    by (simp add: algebra_simps)
qed

lemma mpn_or_neg_loop_val:
  fixes jm km :: dig
  defines "im \<equiv> ucast DIG_MASK :: dig"
  assumes "mask_ok jm" "mask_ok km" "uint ci \<le> 1" "uint cj \<le> 1" "uint ck \<le> 1"
  shows "let (ids, c) = mpn_or_neg_loop jm km ci cj ck js ks in
    length ids = length js \<and> uint c \<le> 1 \<and>
    mpn_val ids + 65536 ^ length js * (uint c +
      flip_if im ((strm jm cj js div 65536 ^ length js) OR (strm km ck ks div 65536 ^ length js)))
    = flip_if im (strm jm cj js OR strm km ck ks) + uint ci"
  using assms(4-)
proof (induction js arbitrary: ci cj ck ks)
  case Nil
  then show ?case by simp
next
  case (Cons j js)
  let ?cj = "cj + ucast (j XOR jm)" and ?ck = "ck + ucast (kdigit km ks)"
  let ?x = "lo_dig ?cj OR lo_dig ?ck"
  let ?ci = "ci + ucast (?x XOR im)"
  let ?J = "strm jm (drop_bit DIG_SIZE ?cj) js" and ?K = "strm km (drop_bit DIG_SIZE ?ck) (drop 1 ks)"
  let ?e = "flip_if im ((?J div 65536 ^ length js) OR (?K div 65536 ^ length js))"
  obtain ids c where out: "mpn_or_neg_loop jm km (drop_bit DIG_SIZE ?ci) (drop_bit DIG_SIZE ?cj)
      (drop_bit DIG_SIZE ?ck) js (drop 1 ks) = (ids, c)" by fastforce
  have im: "mask_ok im" by (simp add: im_def mask_ok_def)
  have J: "strm jm cj (j # js) = uint (lo_dig ?cj) + 65536 * ?J" by (rule strm_Cons [OF assms(2) Cons.prems(2)])
  have K: "strm km ck ks = uint (lo_dig ?ck) + 65536 * ?K" by (rule strm_kdigit [OF assms(3) Cons.prems(3)])
  have R: "strm jm cj (j # js) OR strm km ck ks = uint ?x + 65536 * (?J OR ?K)"
    unfolding J K by (simp add: digit_bitwise dig_bound unsigned_or_eq)
  have ends: "strm jm cj (j # js) div 65536 ^ length (j # js) = ?J div 65536 ^ length js"
    "strm km ck ks div 65536 ^ length (j # js) = ?K div 65536 ^ length js"
    unfolding J K length_Cons by (rule digit_div; rule dig_bound)+
  have IH: "length ids = length js" "uint c \<le> 1"
    "mpn_val ids + 65536 ^ length js * (uint c + ?e) = flip_if im (?J OR ?K) + uint (drop_bit DIG_SIZE ?ci)"
    using Cons.IH [OF stream_digit(2) [OF Cons.prems(1)] stream_digit(2) [OF Cons.prems(2)]
      stream_digit(2) [OF Cons.prems(3)], of "?x XOR im" "j XOR jm" "kdigit km ks" "drop 1 ks"] out
    by simp_all
  have "mpn_or_neg_loop jm km ci cj ck (j # js) ks = (lo_dig ?ci # ids, c)"
    using out by (simp add: Let_def masked_or kdigit_ucast im_def)
  then show ?case unfolding ends unfolding R using IH flip_digit [OF im Cons.prems(1), of ?x "?J OR ?K"]
    by (simp add: algebra_simps)
qed

section \<open>Signed operands\<close>

definition sgv :: "bool \<Rightarrow> dig list \<Rightarrow> int" where
  "sgv neg ds = (if neg then - mpn_val ds else mpn_val ds)"

lemma strm_signed: "strm (mask_of (of_bool neg)) (of_bool neg) ds = sgv neg ds"
proof -
  have "(ucast DIG_MASK :: dig) \<noteq> 0" by (metis uint_mask unsigned_0 zero_neq_numeral)
  then show ?thesis by (simp add: strm_def mask_of_def sgv_def)
qed

lemma sgv_div:
  assumes "neg \<longrightarrow> 0 < mpn_val ds" "length ds \<le> n"
  shows "sgv neg ds div 65536 ^ n = - of_bool neg"
proof -
  have "mpn_val ds < 65536 ^ n"
    using mpn_val_less [of ds] power_increasing [OF assms(2), of "65536::int"] by linarith
  then have "(- mpn_val ds) div 65536 ^ n = -1" if "0 < mpn_val ds"
    using that by (intro int_div_pos_eq [where r = "65536 ^ n - mpn_val ds"]) auto
  then show ?thesis using assms(1) \<open>mpn_val ds < 65536 ^ n\<close>
    by (auto simp: sgv_def div_pos_pos_trivial)
qed

lemma mpn_and_neg_val:
  assumes "nj \<longrightarrow> 0 < mpn_val js" "nk \<longrightarrow> 0 < mpn_val ks" "length ks \<le> length js" "nj \<or> nk"
  shows "mpn_val (mpn_and_neg js ks (of_bool (nj = nk)) (of_bool nj) (of_bool nk))
    = \<bar>sgv nj js AND sgv nk ks\<bar>"
proof -
  let ?im = "mask_of (of_bool (nj = nk))"
  have ends: "sgv nj js div 65536 ^ length js = - of_bool nj" "sgv nk ks div 65536 ^ length js = - of_bool nk"
    using sgv_div assms by auto
  have "mpn_val (mpn_and_neg js ks (of_bool (nj = nk)) (of_bool nj) (of_bool nk))
      + 65536 ^ length js * flip_if ?im (- of_bool nj AND - of_bool nk)
    = flip_if ?im (sgv nj js AND sgv nk ks) + of_bool (nj = nk)"
    using mpn_and_neg_loop_val [of ?im "mask_of (of_bool nj)" "mask_of (of_bool nk)"
        "of_bool (nj = nk)" "of_bool nj" "of_bool nk" js ks]
    unfolding strm_signed ends by (simp add: mpn_and_neg_def)
  moreover have "?im = (if nj = nk then ucast DIG_MASK else 0)" by (simp add: mask_of_def)
  moreover have "(ucast DIG_MASK :: dig) \<noteq> 0" by (metis uint_mask unsigned_0 zero_neq_numeral)
  moreover have "sgv nj js AND sgv nk ks < 0 \<longleftrightarrow> nj \<and> nk"
    using assms mpn_val_nonneg [of js] mpn_val_nonneg [of ks] by (auto simp: sgv_def not_less [symmetric])
  ultimately show ?thesis using assms(4) by (auto simp: flip_if_def abs_if)
qed

lemma or_neg_ge: "(a::int) < 0 \<Longrightarrow> a \<le> a OR b"
proof -
  assume "a < 0"
  have "a OR b = a + (b AND NOT a)" by (subst disjunctive_add_eq_or) (auto simp: bit_eq_iff bit_simps)
  then show ?thesis using \<open>a < 0\<close> by simp
qed

lemma mpn_or_neg_val:
  assumes "nj \<longrightarrow> 0 < mpn_val js" "nk \<longrightarrow> 0 < mpn_val ks" "length ks \<le> length js" "nj \<or> nk"
  shows "\<exists>ds. mpn_or_neg js ks (of_bool nj) (of_bool nk) = Some ds \<and> normalised ds
    \<and> length ds \<le> length js \<and> mpn_val ds = - (sgv nj js OR sgv nk ks)"
proof -
  obtain ids c where out: "mpn_or_neg_loop (mask_of (of_bool nj)) (mask_of (of_bool nk)) 1 (of_bool nj) (of_bool nk) js ks
    = (ids, c)" by fastforce
  have ends: "sgv nj js div 65536 ^ length js = - of_bool nj" "sgv nk ks div 65536 ^ length js = - of_bool nk"
    using sgv_div assms by auto
  have ne: "(ucast DIG_MASK :: dig) \<noteq> 0" by (metis uint_mask unsigned_0 zero_neq_numeral)
  have len: "length ids = length js" and c: "uint c \<le> 1"
    and v: "mpn_val ids + 65536 ^ length js * uint c = - (sgv nj js OR sgv nk ks)"
    using mpn_or_neg_loop_val [of "mask_of (of_bool nj)" "mask_of (of_bool nk)" 1 "of_bool nj" "of_bool nk" js ks]
      out assms(4) ne unfolding strm_signed ends by (auto simp: flip_if_def)
  have "mpn_val ks < 65536 ^ length js"
    using mpn_val_less [of ks] power_increasing [OF assms(3), of "65536::int"] by linarith
  then have "- (sgv nj js OR sgv nk ks) < 65536 ^ length js"
    using assms or_neg_ge [of "sgv nj js" "sgv nk ks"] or_neg_ge [of "sgv nk ks" "sgv nj js"] mpn_val_less [of js]
    by (auto simp: sgv_def or.commute)
  moreover have "mpn_val ids + 65536 ^ length js = - (sgv nj js OR sgv nk ks)" if "uint c = 1"
    using v that by simp
  ultimately have "uint c \<noteq> 1" using mpn_val_nonneg [of ids] by linarith
  then have "c = 0" using c uint_0_iff [of c] uint_ge_0 [of c] by linarith
  then show ?thesis using out len v length_strip_le [of ids] by (simp add: mpn_or_neg_def)
qed

section \<open>Exclusive or with negative operands\<close>

lemma xor_stream_digit:
  fixes c :: dbl and d :: dig
  assumes "uint c \<le> 1"
  shows "uint (c + (ucast d + DIG_MASK)) = uint c + uint d + 65535"
    "uint (drop_bit DIG_SIZE (c + (ucast d + DIG_MASK))) \<le> 1"
    "uint c + uint d + 65535 = uint (lo_dig (c + (ucast d + DIG_MASK)))
       + 65536 * uint (drop_bit DIG_SIZE (c + (ucast d + DIG_MASK)))"
  using add_carry [OF assms, of d "ucast DIG_MASK"] carry_split [of "c + (ucast d + DIG_MASK)"]
  by (simp_all add: DIG_MASK_def)

definition xdigit :: "dig list \<Rightarrow> dig" where
  "xdigit ks = (case ks of k # _ \<Rightarrow> k | [] \<Rightarrow> 0)"

lemma xdigit_ucast: "(case ks of k # _ \<Rightarrow> ucast k + DIG_MASK | [] \<Rightarrow> DIG_MASK) = ucast (xdigit ks) + DIG_MASK"
  by (simp add: xdigit_def split: list.split)

lemma xstrm:
  assumes "uint c \<le> 1"
  shows "mpn_val ks - 1 + uint c = uint (lo_dig (c + (ucast (xdigit ks) + DIG_MASK)))
    + 65536 * (mpn_val (drop 1 ks) - 1 + uint (drop_bit DIG_SIZE (c + (ucast (xdigit ks) + DIG_MASK))))"
  using xor_stream_digit(3) [OF assms, of "xdigit ks"]
  by (cases ks) (simp_all add: xdigit_def algebra_simps)

lemma mpn_xor_neg_loop_val:
  assumes "uint ci \<le> 1" "uint cj \<le> 1" "uint ck \<le> 1"
  shows "mpn_val (mpn_xor_neg_loop ci cj ck js ks) + 65536 ^ length js *
      (((mpn_val js - 1 + uint cj) div 65536 ^ length js) XOR ((mpn_val ks - 1 + uint ck) div 65536 ^ length js))
    = ((mpn_val js - 1 + uint cj) XOR (mpn_val ks - 1 + uint ck)) + uint ci"
  using assms
proof (induction js arbitrary: ci cj ck ks)
  case Nil
  then show ?case using uint_0_1_ucast [of ci] by simp
next
  case (Cons j js)
  let ?cj = "cj + (ucast j + DIG_MASK)" and ?ck = "ck + (ucast (xdigit ks) + DIG_MASK)"
  let ?x = "lo_dig ?cj XOR lo_dig ?ck"
  let ?ci = "ci + ucast ?x"
  let ?J = "mpn_val js - 1 + uint (drop_bit DIG_SIZE ?cj)"
  let ?K = "mpn_val (drop 1 ks) - 1 + uint (drop_bit DIG_SIZE ?ck)"
  let ?out = "mpn_xor_neg_loop (drop_bit DIG_SIZE ?ci) (drop_bit DIG_SIZE ?cj) (drop_bit DIG_SIZE ?ck) js (drop 1 ks)"
  have J: "mpn_val (j # js) - 1 + uint cj = uint (lo_dig ?cj) + 65536 * ?J"
    using xstrm [OF Cons.prems(2), of "j # js"] by (simp add: xdigit_def)
  have K: "mpn_val ks - 1 + uint ck = uint (lo_dig ?ck) + 65536 * ?K" by (rule xstrm [OF Cons.prems(3)])
  have R: "(mpn_val (j # js) - 1 + uint cj) XOR (mpn_val ks - 1 + uint ck) = uint ?x + 65536 * (?J XOR ?K)"
    unfolding J K by (simp only: digit_bitwise dig_bound unsigned_xor_eq)
  have ends: "(mpn_val (j # js) - 1 + uint cj) div 65536 ^ length (j # js) = ?J div 65536 ^ length js"
    "(mpn_val ks - 1 + uint ck) div 65536 ^ length (j # js) = ?K div 65536 ^ length js"
    unfolding J K length_Cons by (rule digit_div; rule dig_bound)+
  have IH: "mpn_val ?out + 65536 ^ length js * ((?J div 65536 ^ length js) XOR (?K div 65536 ^ length js))
      = (?J XOR ?K) + uint (drop_bit DIG_SIZE ?ci)"
    using Cons.IH stream_digit(2) [OF Cons.prems(1)] xor_stream_digit(2) [OF Cons.prems(2)]
      xor_stream_digit(2) [OF Cons.prems(3)] by blast
  have "mpn_val (mpn_xor_neg_loop ci cj ck (j # js) ks) = uint (lo_dig ?ci) + 65536 * mpn_val ?out"
    by (simp add: Let_def masked_xor xdigit_ucast)
  then show ?case unfolding ends unfolding R using IH stream_digit(3) [OF Cons.prems(1), of ?x]
    by (simp add: algebra_simps)
qed

text \<open>
  Both negative: \<open>(j - 1) XOR (k - 1)\<close>; exactly one negative: the complement plus one, which is the
  magnitude of the negative result.
\<close>

lemma xor_end:
  assumes "nj \<longrightarrow> 0 < mpn_val js" "length js \<le> n"
  shows "(mpn_val js - of_bool nj) div 65536 ^ n = 0"
proof -
  have "mpn_val js < 65536 ^ n"
    using mpn_val_less [of js] power_increasing [OF assms(2), of "65536::int"] by linarith
  then show ?thesis using assms(1) by (intro div_pos_pos_trivial) auto
qed

lemma mpn_xor_neg_val:
  assumes "nj \<longrightarrow> 0 < mpn_val js" "nk \<longrightarrow> 0 < mpn_val ks" "length ks \<le> length js" "nj \<or> nk"
  shows "mpn_val (mpn_xor_neg js ks (of_bool (nj \<noteq> nk)) (of_bool (\<not> nj)) (of_bool (\<not> nk)))
    = \<bar>sgv nj js XOR sgv nk ks\<bar>"
proof -
  define X where "X = (mpn_val js - of_bool nj) XOR (mpn_val ks - of_bool nk)"
  have e: "mpn_val ds - 1 + uint (of_bool (\<not> b) :: dbl) = mpn_val ds - of_bool b" for b ds by simp
  have val: "mpn_val (mpn_xor_neg js ks (of_bool (nj \<noteq> nk)) (of_bool (\<not> nj)) (of_bool (\<not> nk)))
    = X + of_bool (nj \<noteq> nk)"
    using mpn_xor_neg_loop_val [of "of_bool (nj \<noteq> nk)" "of_bool (\<not> nj)" "of_bool (\<not> nk)" js ks]
    unfolding e using assms by (simp add: mpn_xor_neg_def xor_end X_def)
  have neg: "- mpn_val ds = NOT (mpn_val ds - 1)" for ds by (simp add: not_int_def)
  have sgv: "sgv nj js XOR sgv nk ks = (if nj = nk then X else NOT X)"
    using assms(4) by (auto simp: sgv_def neg X_def)
  have "0 \<le> X" using assms unfolding X_def by (subst xor_nonnegative_int_iff) auto
  then show ?thesis unfolding val sgv by (auto simp: not_int_def)
qed

lemma length_mpn_and: "length (mpn_and js ks) \<le> length js"
proof -
  have "length (mpn_and_loop js ks) \<le> length js" by (induction js ks rule: mpn_and_loop.induct) auto
  then show ?thesis using length_strip_le [of "mpn_and_loop js ks"] by (simp add: mpn_and_def)
qed

lemma length_mpn_or: "length ks \<le> length js \<Longrightarrow> length (mpn_or js ks) = length js"
  by (induction js ks rule: mpn_or.induct) auto

lemma length_mpn_xor: "length ks \<le> length js \<Longrightarrow> length (mpn_xor js ks) \<le> length js"
proof -
  assume "length ks \<le> length js"
  then have "length (mpn_xor_loop js ks) = length js" by (induction js ks rule: mpn_xor_loop.induct) auto
  then show ?thesis using length_strip_le [of "mpn_xor_loop js ks"] by (simp add: mpn_xor_def)
qed

lemma length_mpn_and_neg: "length (mpn_and_neg js ks ci cj ck) \<le> length js + 1"
proof -
  have "length (mpn_and_neg_loop im jm km ci cj ck js ks) \<le> length js + 1" for im jm km
    by (induction js arbitrary: ci cj ck ks) (simp_all add: Let_def)
  then show ?thesis
    unfolding mpn_and_neg_def using length_strip_le order_trans by blast
qed

lemma length_mpn_xor_neg: "length (mpn_xor_neg js ks ci cj ck) \<le> length js + 1"
proof -
  have "length (mpn_xor_neg_loop ci cj ck js ks) \<le> length js + 1"
    by (induction js arbitrary: ci cj ck ks) (simp_all add: Let_def)
  then show ?thesis
    unfolding mpn_xor_neg_def using length_strip_le order_trans by blast
qed

text \<open>
  With two negative operands the result of \<^verbatim>\<open>mpn_xor_neg\<close> needs no extra digit, which is all that
  \<^verbatim>\<open>mpz_xor_inpl\<close> reserves in that case.
\<close>

lemma normalised_length_le:
  assumes "normalised ds" "mpn_val ds < 65536 ^ n"
  shows "length ds \<le> n"
proof (rule ccontr)
  assume "\<not> length ds \<le> n"
  then have "ds \<noteq> []" "n \<le> length ds - 1" by auto
  then have "65536 ^ (length ds - 1) \<le> mpn_val ds" "(65536::int) ^ n \<le> 65536 ^ (length ds - 1)"
    using assms(1) mpn_val_ge [of ds] by (simp_all add: normalised_def)
  then show False using assms(2) by linarith
qed

lemma xor_less_power: "0 \<le> (a::int) \<Longrightarrow> a < 2 ^ n \<Longrightarrow> 0 \<le> b \<Longrightarrow> b < 2 ^ n \<Longrightarrow> a XOR b < 2 ^ n"
  by (metis take_bit_int_eq_self take_bit_int_less_exp take_bit_xor)

lemma length_mpn_xor_neg_both:
  assumes "0 < mpn_val js" "0 < mpn_val ks" "length ks \<le> length js"
  shows "length (mpn_xor_neg_loop 0 0 0 js ks) = length js"
proof -
  have len: "length (mpn_xor_neg_loop ci cj ck js ks) \<in> {length js, length js + 1}" for ci cj ck
    by (induction js arbitrary: ci cj ck ks) (simp_all add: Let_def)
  have "mpn_val ks < 65536 ^ length js"
    using mpn_val_less [of ks] power_increasing [OF assms(3), of "65536::int"] by linarith
  moreover have "(65536::int) ^ length js = 2 ^ (16 * length js)" by (simp add: power_mult)
  ultimately have small: "(mpn_val js - 1) XOR (mpn_val ks - 1) < 65536 ^ length js"
    using xor_less_power [of "mpn_val js - 1" "16 * length js" "mpn_val ks - 1"] mpn_val_less [of js] assms by simp
  have last: "last (mpn_xor_neg_loop ci cj ck js ks) \<noteq> 0"
    if "length (mpn_xor_neg_loop ci cj ck js ks) = length js + 1" "uint ci \<le> 1" for ci cj ck
    using that
  proof (induction js arbitrary: ci cj ck ks)
    case Nil
    have "ucast ci \<noteq> (0::dig)" if "ci \<noteq> 0"
      using that uint_0_1_ucast [of ci] Nil uint_0_iff [of ci] by auto
    then show ?case using Nil by (auto split: if_splits)
  next
    case (Cons j js)
    then show ?case
      using stream_digit(2) [OF Cons.prems(2)] unfolding mpn_xor_neg_loop.simps Let_def masked_xor
      by (auto simp: last_ConsR)
  qed
  have "mpn_val (mpn_xor_neg_loop 0 0 0 js ks) = (mpn_val js - 1) XOR (mpn_val ks - 1)"
    using mpn_xor_neg_loop_val [of 0 0 0 js ks] xor_end [of True js "length js"] xor_end [of True ks "length js"] assms
    by simp
  then show ?thesis
    using small len [of 0 0 0] last [of 0 0 0] mpn_val_ge [of "mpn_xor_neg_loop 0 0 0 js ks"] by fastforce
qed

end
