(* ===== verification/Mpn_Shift.thy ===== *)
theory Mpn_Shift
  imports Mpn
begin

text \<open>
  The shifts of \<^verbatim>\<open>py/mpz.c\<close>: \<^verbatim>\<open>mpn_shl\<close> walks the digits from the top and keeps the previous
  digit in the upper half of a 32-bit window, \<^verbatim>\<open>mpn_shr\<close> walks them from the bottom and looks one
  digit ahead.  They are multiplication and floor division by a power of two.
\<close>

section \<open>Definitions\<close>

fun mpn_shl_loop :: "nat \<Rightarrow> dbl \<Rightarrow> dig list \<Rightarrow> dig list" where
  "mpn_shl_loop n_part d (j # js) =
     (let d = d OR ucast j
      in lo_dig (drop_bit (DIG_SIZE - n_part) d) # mpn_shl_loop n_part (push_bit DIG_SIZE d) js)"
| "mpn_shl_loop n_part d [] = [lo_dig (drop_bit (DIG_SIZE - n_part) d)]"

definition mpn_shl :: "dig list \<Rightarrow> nat \<Rightarrow> dig list" where
  "mpn_shl jdig n =
     (let n_whole = (n + DIG_SIZE - 1) div DIG_SIZE;
          n_part = n mod DIG_SIZE;
          n_part = (if n_part = 0 then DIG_SIZE else n_part);
          shifted = rev (mpn_shl_loop n_part 0 (rev jdig))
      in mpn_remove_trailing_zeros (replicate (n_whole - 1) 0 @ shifted))"

fun mpn_shr_loop :: "nat \<Rightarrow> dig list \<Rightarrow> dig list" where
  "mpn_shr_loop n_part [] = []"
| "mpn_shr_loop n_part [j] = [lo_dig (drop_bit n_part (ucast j))]"
| "mpn_shr_loop n_part (j # j1 # js) =
     (let d = ucast j OR push_bit DIG_SIZE (ucast j1)
      in lo_dig (drop_bit n_part d) # mpn_shr_loop n_part (j1 # js))"

definition mpn_shr :: "dig list \<Rightarrow> nat \<Rightarrow> dig list" where
  "mpn_shr jdig n =
     (let n_whole = n div DIG_SIZE; n_part = n mod DIG_SIZE
      in if n_whole \<ge> length jdig then []
         else let idig = mpn_shr_loop n_part (drop n_whole jdig)
              in if last idig = 0 then butlast idig else idig)"

section \<open>A 32-bit window over two digits\<close>

lemma uint_window:
  "uint (push_bit DIG_SIZE (ucast (h::dig)) OR ucast (l::dig) :: dbl) = 65536 * uint h + uint l"
proof -
  have "(push_bit DIG_SIZE (ucast h) OR ucast l :: dbl) = push_bit DIG_SIZE (ucast h) + ucast l"
    by (rule disjunctive_add_eq_or [symmetric]) (auto intro!: bit_word_eqI simp: bit_simps)
  also have "uint \<dots> = (65536 * uint h + uint l) mod 4294967296"
    by (simp add: uint_word_ariths push_bit_eq_mult dig_simps mod_simps mult.commute)
  also have "\<dots> = 65536 * uint h + uint l"
    using dig_bound [of h] dig_bound [of l] by (intro mod_pos_pos_trivial) simp_all
  finally show ?thesis .
qed

lemma push_window:
  "push_bit DIG_SIZE (push_bit DIG_SIZE (ucast (h::dig)) OR ucast (l::dig) :: dbl) = push_bit DIG_SIZE (ucast l)"
  by (rule bit_word_eqI) (auto simp: bit_simps)

lemma power_split:
  fixes x :: int
  assumes "p \<le> 16"
  shows "(x * 2 ^ p) div 65536 = x div 2 ^ (16 - p)"
proof -
  have e: "(65536::int) = 2 ^ (16 - p) * 2 ^ p" using assms by (simp flip: power_add)
  show ?thesis unfolding e by simp
qed

lemma shl_window:
  assumes "p \<le> 16"
  shows "uint (lo_dig (drop_bit (DIG_SIZE - p) (push_bit DIG_SIZE (ucast (h::dig)) OR ucast (l::dig))))
    = (uint h * 2 ^ p) mod 65536 + (uint l * 2 ^ p) div 65536"
proof -
  have e: "(65536::int) = 2 ^ (16 - p) * 2 ^ p" using assms by (simp flip: power_add)
  have "65536 * uint h + uint l = uint l + (uint h * 2 ^ p) * 2 ^ (16 - p)" unfolding e by simp
  then have w: "(65536 * uint h + uint l) div 2 ^ (16 - p) = uint h * 2 ^ p + uint l div 2 ^ (16 - p)"
    by (simp only: div_mult_self1) simp
  have small: "uint l div 2 ^ (16 - p) < 2 ^ p" "0 \<le> uint l div 2 ^ (16 - p)"
    using dig_bound [of l] e by (auto intro!: int_div_lessI simp: mult.commute pos_imp_zdiv_nonneg_iff)
  have d: "(uint h * 2 ^ p) mod 65536 = 2 ^ p * (uint h mod 2 ^ (16 - p))"
    unfolding e by (simp add: mult.commute [of "uint h"] mult.commute [of "2 ^ (16 - p)"] mod_mult_mult1)
  have "2 ^ p * (uint h mod 2 ^ (16 - p)) \<le> 2 ^ p * (2 ^ (16 - p) - 1)"
    by (intro mult_left_mono) (simp_all add: zle_diff1_eq)
  then have "(uint h * 2 ^ p) mod 65536 + uint l div 2 ^ (16 - p) < 65536"
    using small e by (simp add: d algebra_simps)
  then have "(uint h * 2 ^ p + uint l div 2 ^ (16 - p)) mod 65536 = (uint h * 2 ^ p) mod 65536 + uint l div 2 ^ (16 - p)"
    using small by (metis mod_add_left_eq mod_pos_pos_trivial pos_mod_sign add_nonneg_nonneg zero_less_numeral)
  then show ?thesis
    using w power_split [OF assms, of "uint l"] by (simp only: uint_lo_dig uint_dbl_drop uint_window)
qed

lemma mpn_shl_loop_val:
  assumes "p \<le> 16"
  shows "mpn_val (rev (mpn_shl_loop p (push_bit DIG_SIZE (ucast (h::dig))) js))
    = (uint h * 2 ^ p) mod 65536 * 65536 ^ length js + mpn_val (rev js) * 2 ^ p"
    and "length (mpn_shl_loop p (push_bit DIG_SIZE (ucast h)) js) = length js + 1"
proof -
  have "mpn_val (rev (mpn_shl_loop p (push_bit DIG_SIZE (ucast h)) js))
    = (uint h * 2 ^ p) mod 65536 * 65536 ^ length js + mpn_val (rev js) * 2 ^ p
    \<and> length (mpn_shl_loop p (push_bit DIG_SIZE (ucast h)) js) = length js + 1"
  proof (induction js arbitrary: h)
    case Nil
    then show ?case using shl_window [OF assms, of h 0] by (simp add: mult.commute)
  next
    case (Cons j js)
    have split: "uint j * 2 ^ p = (uint j * 2 ^ p) div 65536 * 65536 + (uint j * 2 ^ p) mod 65536" by simp
    have "uint j * 2 ^ p * 65536 ^ length js
        = (uint j * 2 ^ p) div 65536 * 65536 ^ length (j # js) + (uint j * 2 ^ p) mod 65536 * 65536 ^ length js"
      by (metis (no_types, lifting) split distrib_right mult.assoc power_Suc length_Cons)
    then show ?case
      using Cons [of j] shl_window [OF assms, of h j]
      by (simp add: Let_def push_window mpn_val_append algebra_simps)
  qed
  then show "mpn_val (rev (mpn_shl_loop p (push_bit DIG_SIZE (ucast h)) js))
    = (uint h * 2 ^ p) mod 65536 * 65536 ^ length js + mpn_val (rev js) * 2 ^ p"
    "length (mpn_shl_loop p (push_bit DIG_SIZE (ucast h)) js) = length js + 1" by auto
qed

lemma shl_count:
  assumes "0 < n"
  shows "n = DIG_SIZE * ((n + DIG_SIZE - 1) div DIG_SIZE - 1)
    + (if n mod DIG_SIZE = 0 then DIG_SIZE else n mod DIG_SIZE)"
proof -
  obtain m where n: "n = Suc m" using assms by (cases n) auto
  have w: "(n + DIG_SIZE - 1) div DIG_SIZE - 1 = m div DIG_SIZE" by (simp add: n)
  have "Suc (DIG_SIZE * (m div DIG_SIZE) + m mod DIG_SIZE) = n" by (simp add: n)
  then show ?thesis unfolding w by (cases "m mod DIG_SIZE = 15") (simp_all add: n mod_Suc)
qed

theorem mpn_shl_val:
  assumes "0 < n"
  shows "mpn_val (mpn_shl js n) = mpn_val js * 2 ^ n"
proof -
  define w where "w = (n + DIG_SIZE - 1) div DIG_SIZE - 1"
  define p where "p = (if n mod DIG_SIZE = 0 then DIG_SIZE else n mod DIG_SIZE)"
  have p: "p \<le> 16" unfolding p_def by (simp add: less_imp_le)
  have n: "n = 16 * w + p" using shl_count [OF assms] by (simp only: w_def p_def)
  have "mpn_val (mpn_shl js n) = 65536 ^ w * mpn_val (rev (mpn_shl_loop p 0 (rev js)))"
    by (simp add: mpn_shl_def Let_def mpn_val_append w_def p_def)
  also have "\<dots> = 65536 ^ w * (mpn_val js * 2 ^ p)"
    using mpn_shl_loop_val(1) [OF p, of 0 "rev js"] by simp
  also have "(65536::int) ^ w = 2 ^ (16 * w)" by (simp add: power_mult)
  finally show ?thesis unfolding n by (simp add: power_add algebra_simps)
qed

lemma mpn_shl_normalised [simp]: "normalised (mpn_shl js n)"
  by (simp add: mpn_shl_def Let_def)

lemma length_mpn_shl: "0 < n \<Longrightarrow> length (mpn_shl js n) \<le> length js + (n + DIG_SIZE - 1) div DIG_SIZE"
proof -
  assume "0 < n"
  define p where "p = (if n mod DIG_SIZE = 0 then DIG_SIZE else n mod DIG_SIZE)"
  have p: "p \<le> 16" unfolding p_def by (simp add: less_imp_le)
  have "1 \<le> (n + DIG_SIZE - 1) div DIG_SIZE" using \<open>0 < n\<close> by (simp add: div_greater_zero_iff)
  then show ?thesis
    using length_strip_le [of "replicate ((n + DIG_SIZE - 1) div DIG_SIZE - 1) 0 @ rev (mpn_shl_loop p 0 (rev js))"]
      mpn_shl_loop_val(2) [OF p, of 0 "rev js"]
    by (simp add: mpn_shl_def Let_def p_def)
qed

section \<open>Shift right\<close>

lemma window_commute:
  "ucast (l::dig) OR push_bit DIG_SIZE (ucast (h::dig)) = (push_bit DIG_SIZE (ucast h) OR ucast l :: dbl)"
  by (simp add: or.commute)

lemma shr_digit:
  fixes x v :: int
  assumes "p \<le> 16"
  shows "(x + 65536 * v) div 2 ^ p = x div 2 ^ p + 2 ^ (16 - p) * v"
proof -
  have e: "(65536::int) = 2 ^ (16 - p) * 2 ^ p" using assms by (simp flip: power_add)
  have "x + 65536 * v = x + (2 ^ (16 - p) * v) * 2 ^ p" unfolding e by simp
  then show ?thesis by (simp only: div_mult_self1) simp
qed

lemma div_div_commute: "(x::int) div 2 ^ p div 65536 = x div 65536 div 2 ^ p"
  by (simp only: zdiv_zmult2_eq [symmetric] zero_le_power zero_le_numeral mult.commute)

lemma mpn_shr_loop_val:
  assumes "p < 16"
  shows "mpn_val (mpn_shr_loop p js) = mpn_val js div 2 ^ p"
  using assms
proof (induction p js rule: mpn_shr_loop.induct)
  case (2 p j)
  have "0 \<le> uint j div 2 ^ p" by (simp add: pos_imp_zdiv_nonneg_iff)
  moreover have "uint j div 2 ^ p \<le> uint j" using zdiv_mono2 [of "uint j" 1 "2 ^ p"] by simp
  ultimately show ?case using dig_bound [of j] by (simp add: dig_simps)
next
  case (3 p j j1 js)
  let ?x = "uint j + 65536 * uint j1" and ?v = "mpn_val js"
  let ?X = "uint j + 65536 * mpn_val (j1 # js)"
  have p: "p \<le> 16" using 3 by simp
  have "?X = ?x + 65536 * (65536 * ?v)" by simp
  then have "?X div 2 ^ p = ?x div 2 ^ p + 2 ^ (16 - p) * (65536 * ?v)"
    by (simp only: shr_digit [OF p])
  also have "\<dots> = ?x div 2 ^ p + 65536 * (2 ^ (16 - p) * ?v)" by simp
  finally have lo: "?X div 2 ^ p mod 65536 = ?x div 2 ^ p mod 65536" by (simp only: mod_mult_self2)
  have hi: "?X div 2 ^ p div 65536 = mpn_val (j1 # js) div 2 ^ p"
    unfolding div_div_commute using dig_bound [of j]
    by (simp only: div_mult_self2) (simp add: div_pos_pos_trivial)
  have "mpn_val (mpn_shr_loop p (j # j1 # js)) = ?x div 2 ^ p mod 65536 + 65536 * (mpn_val (j1 # js) div 2 ^ p)"
    using 3 by (simp add: Let_def dig_simps window_commute uint_window add.commute del: drop_bit_or)
  also have "\<dots> = ?X div 2 ^ p" unfolding hi [symmetric] lo [symmetric] by simp
  finally show ?case by simp
qed simp

lemma length_mpn_shr_loop [simp]: "length (mpn_shr_loop p js) = length js"
  by (induction p js rule: mpn_shr_loop.induct) (simp_all add: Let_def)

lemma mpn_val_drop: "mpn_val (drop n ds) = mpn_val ds div 65536 ^ n"
proof (induction n arbitrary: ds)
  case (Suc n)
  show ?case
  proof (cases ds)
    case (Cons d ds')
    have "mpn_val ds div 65536 ^ Suc n = mpn_val ds div 65536 div 65536 ^ n"
      by (simp add: zdiv_zmult2_eq)
    then show ?thesis using Cons Suc [of ds'] dig_bound [of d] by simp
  qed simp
qed simp

lemma mpn_val_butlast: "ds \<noteq> [] \<Longrightarrow> last ds = 0 \<Longrightarrow> mpn_val (butlast ds) = mpn_val ds"
  by (metis append_butlast_last_id mpn_val_append mpn_val.simps mult_zero_right add.right_neutral unsigned_0)

theorem mpn_shr_val: "mpn_val (mpn_shr js n) = mpn_val js div 2 ^ n"
proof -
  let ?w = "n div DIG_SIZE" and ?p = "n mod DIG_SIZE"
  have "(2::int) ^ n = 2 ^ (16 * ?w + ?p)" by simp
  also have "\<dots> = 65536 ^ ?w * 2 ^ ?p" by (simp only: power_add power_mult) simp
  finally have n: "(2::int) ^ n = 65536 ^ ?w * 2 ^ ?p" .
  show ?thesis
  proof (cases "?w \<ge> length js")
    case True
    have "mpn_val js div 65536 ^ ?w = 0" using mpn_val_drop [of ?w js] True by simp
    then show ?thesis using True unfolding n by (simp add: mpn_shr_def zdiv_zmult2_eq)
  next
    case False
    let ?i = "mpn_shr_loop ?p (drop ?w js)"
    have "?i \<noteq> []" using False by (simp flip: length_greater_0_conv)
    then have "mpn_val (if last ?i = 0 then butlast ?i else ?i) = mpn_val ?i"
      using mpn_val_butlast [of ?i] by simp
    also have "\<dots> = mpn_val js div 65536 ^ ?w div 2 ^ ?p"
      by (simp add: mpn_shr_loop_val mpn_val_drop)
    finally show ?thesis using False unfolding n by (simp add: mpn_shr_def Let_def zdiv_zmult2_eq)
  qed
qed

lemma length_mpn_shr: "length (mpn_shr js n) \<le> length js"
  by (auto simp: mpn_shr_def Let_def)

lemma mpn_shr_normalised:
  assumes "normalised js"
  shows "normalised (mpn_shr js n)"
proof (cases "n div DIG_SIZE \<ge> length js")
  case True
  then show ?thesis by (simp add: mpn_shr_def normalised_def)
next
  case False
  let ?ds = "drop (n div DIG_SIZE) js" and ?p = "n mod DIG_SIZE"
  let ?i = "mpn_shr_loop ?p ?ds"
  have ds: "?ds \<noteq> []" "last ?ds \<noteq> 0" using False assms by (auto simp: normalised_def last_drop)
  then have ne: "?i \<noteq> []" by (simp flip: length_greater_0_conv)
  have "normalised (butlast ?i)" if "last ?i = 0"
  proof (cases "length ?i = 1")
    case True
    then show ?thesis using ne by (cases ?i) (auto simp: normalised_def)
  next
    case False
    let ?m = "length ?i - 2"
    have "2 \<le> length ?i" using False ne by (cases ?i) (auto simp: Suc_le_eq)
    then have len: "length (butlast ?i) = ?m + 1" "length ?ds = ?m + 2"
      using length_mpn_shr_loop [of ?p ?ds] by (simp_all only: length_butlast)
    have "(65536::int) ^ ?m * 2 ^ ?p \<le> 65536 ^ ?m * 65536"
      using power_increasing [of ?p 16 "2::int"] by (intro mult_left_mono) (auto simp: less_imp_le)
    also have "\<dots> = 65536 ^ (length ?ds - 1)" unfolding len(2) by simp
    also have "\<dots> \<le> mpn_val ?ds" by (rule mpn_val_ge [OF ds])
    finally have "65536 ^ ?m \<le> mpn_val ?ds div 2 ^ ?p"
      using zdiv_mono1 [of "65536 ^ ?m * 2 ^ ?p" "mpn_val ?ds" "2 ^ ?p"] by simp
    also have "\<dots> = mpn_val (butlast ?i)" using mpn_val_butlast [OF ne that] by (simp add: mpn_shr_loop_val)
    finally show ?thesis using len by (intro normalisedI_val) simp
  qed
  then show ?thesis using False ne by (simp add: mpn_shr_def Let_def normalised_def)
qed

end
