(* ===== verification/Mpn_Div.thy ===== *)
theory Mpn_Div
  imports Mpn_Shift
begin

text \<open>
  Long division of digit arrays, \<^verbatim>\<open>mpn_div\<close> of \<^verbatim>\<open>py/mpz.c\<close>: the denominator is normalised on
  the fly (shifted left until its top bit is set), each quotient digit is estimated from the two
  leading digits of the numerator, the product is subtracted with a signed borrow, and the estimate is
  corrected by adding the denominator back.  The counting and correction loops carry fuel; \<open>None\<close>
  is a loop that has not ended, and the theorem at the end shows that this never happens.
\<close>

section \<open>Definitions\<close>

fun mpn_div_norm_shift :: "nat \<Rightarrow> dig \<Rightarrow> nat option" where
  "mpn_div_norm_shift 0 d = None"
| "mpn_div_norm_shift (Suc fuel) d =
     (if d AND 0x8000 = 0 then map_option Suc (mpn_div_norm_shift fuel (push_bit 1 d)) else Some 0)"

fun mpn_div_shl :: "nat \<Rightarrow> dig \<Rightarrow> dig list \<Rightarrow> dig list" where
  "mpn_div_shl norm_shift carry [] = []"
| "mpn_div_shl norm_shift carry (n # ns) =
     lo_dig (push_bit norm_shift (ucast n) OR ucast carry)
       # mpn_div_shl norm_shift (ucast (drop_bit (DIG_SIZE - norm_shift) (ucast n :: dbl))) ns"

fun mpn_div_mulsub :: "nat \<Rightarrow> dbl \<Rightarrow> dbl \<Rightarrow> dbl \<Rightarrow> dig list \<Rightarrow> dig list \<Rightarrow> dig list \<times> dbl" where
  "mpn_div_mulsub norm_shift quo d_norm borrow (n # ns) (d # ds) =
     (let d_norm = push_bit norm_shift (ucast d) OR drop_bit DIG_SIZE d_norm;
          x = quo * (d_norm AND DIG_MASK);
          low_digs = (borrow AND DIG_MASK) + ucast n - (x AND DIG_MASK);
          borrow = signed_drop_bit DIG_SIZE borrow - drop_bit DIG_SIZE x + signed_drop_bit DIG_SIZE low_digs;
          (ns', b) = mpn_div_mulsub norm_shift quo d_norm borrow ns ds
      in (lo_dig low_digs # ns', b))"
| "mpn_div_mulsub norm_shift quo d_norm borrow ns ds = ([], borrow)"

fun mpn_div_addback :: "nat \<Rightarrow> dbl \<Rightarrow> dbl \<Rightarrow> dig list \<Rightarrow> dig list \<Rightarrow> dig list \<times> dbl" where
  "mpn_div_addback norm_shift d_norm carry (n # ns) (d # ds) =
     (let d_norm = push_bit norm_shift (ucast d) OR drop_bit DIG_SIZE d_norm;
          carry = carry + (ucast n + (d_norm AND DIG_MASK));
          (ns', c) = mpn_div_addback norm_shift d_norm (drop_bit DIG_SIZE carry) ns ds
      in (lo_dig carry # ns', c))"
| "mpn_div_addback norm_shift d_norm carry ns ds = ([], carry)"

fun mpn_div_correct :: "nat \<Rightarrow> nat \<Rightarrow> dbl \<Rightarrow> dbl \<Rightarrow> dig list \<Rightarrow> dig list \<Rightarrow> (dig list \<times> dbl) option" where
  "mpn_div_correct 0 norm_shift borrow quo ns den = None"
| "mpn_div_correct (Suc fuel) norm_shift borrow quo ns den =
     (if borrow = 0 then Some (ns, quo)
      else let (ns', carry) = mpn_div_addback norm_shift 0 0 ns den
           in mpn_div_correct fuel norm_shift (borrow + carry) (quo - 1) ns' den)"

definition mpn_div_step :: "nat \<Rightarrow> dbl \<Rightarrow> dig list \<Rightarrow> dig list \<Rightarrow> (dig list \<times> dig) option" where
  "mpn_div_step norm_shift lead_den_digit den win =
     (let num_dig = last win;
          quo = (push_bit DIG_SIZE (ucast num_dig) OR ucast (win ! (length den - 1))) div lead_den_digit;
          (ns, borrow) = mpn_div_mulsub norm_shift quo 0 0 (butlast win) den;
          borrow = borrow + ucast num_dig
      in map_option (\<lambda>(ns, quo). (ns, lo_dig quo))
           (mpn_div_correct (Suc (unat quo)) norm_shift borrow quo ns den))"

text \<open>
  The \<^verbatim>\<open>while (*num_len > den_len)\<close> loop: \<open>win\<close> is the numerator from the current quotient
  position up (\<open>den_len + 1\<close> digits), \<open>ls\<close> the digits below it, highest first.  The result is the
  quotient digits and the remaining \<open>den_len\<close> numerator digits.
\<close>

fun mpn_div_loop :: "nat \<Rightarrow> dbl \<Rightarrow> dig list \<Rightarrow> dig list \<Rightarrow> dig list \<Rightarrow> (dig list \<times> dig list) option" where
  "mpn_div_loop norm_shift lead_den_digit den [] win =
     map_option (\<lambda>(ns, q). ([q], ns)) (mpn_div_step norm_shift lead_den_digit den win)"
| "mpn_div_loop norm_shift lead_den_digit den (l # ls) win =
     (case mpn_div_step norm_shift lead_den_digit den win of
        None \<Rightarrow> None
      | Some (ns, q) \<Rightarrow>
          map_option (\<lambda>(qs, r). (qs @ [q], r)) (mpn_div_loop norm_shift lead_den_digit den ls (l # ns)))"

fun mpn_div_shr :: "nat \<Rightarrow> dig \<Rightarrow> dig list \<Rightarrow> dig list" where
  "mpn_div_shr norm_shift carry [] = []"
| "mpn_div_shr norm_shift carry (n # ns) =
     lo_dig (drop_bit norm_shift (ucast n) OR ucast carry)
       # mpn_div_shr norm_shift (ucast (push_bit (DIG_SIZE - norm_shift) (ucast n :: dbl))) ns"

definition mpn_div :: "dig list \<Rightarrow> dig list \<Rightarrow> (dig list \<times> dig list) option" where
  "mpn_div num den =
     (let cmp = mpn_cmp num den
      in if cmp = 0 then Some ([], [1])
         else if cmp < 0 then Some (num, [])
         else case mpn_div_norm_shift DIG_SIZE (last den) of
           None \<Rightarrow> None
         | Some norm_shift \<Rightarrow>
             let num' = mpn_div_shl norm_shift 0 (num @ [0]);
                 lead = push_bit norm_shift (ucast (last den));
                 lead = (if length den \<ge> 2
                         then lead OR drop_bit (DIG_SIZE - norm_shift) (ucast (den ! (length den - 2)))
                         else lead);
                 quo_len = length num' - length den
             in map_option (\<lambda>(quo, r).
                  (mpn_remove_trailing_zeros (rev (mpn_div_shr norm_shift 0 (rev r))),
                   mpn_remove_trailing_zeros quo))
                (mpn_div_loop norm_shift lead den
                   (rev (take (quo_len - 1) num')) (drop (quo_len - 1) num')))"

section \<open>Normalising the denominator\<close>

lemma bits_below:
  fixes c :: dbl
  assumes "uint c < 2 ^ s" "bit c n"
  shows "n < s"
proof -
  have "take_bit s (uint c) = uint c" using assms(1) by (simp add: take_bit_int_eq_self)
  moreover have "bit (uint c) n" using assms(2) bit_imp_le_length [OF assms(2)] by (simp add: bit_uint_iff)
  ultimately show ?thesis by (metis bit_take_bit_iff)
qed

lemma uint_shift_or:
  fixes d :: dig and c :: dbl
  assumes "s \<le> 16" "uint c < 2 ^ s"
  shows "uint (push_bit s (ucast d) OR c) = uint d * 2 ^ s + uint c"
proof -
  have le: "uint d * 2 ^ s + uint c < 4294967296"
  proof -
    have "uint d * 2 ^ s + uint c < (uint d + 1) * 2 ^ s" using assms(2) by (simp add: algebra_simps)
    also have "\<dots> \<le> 65536 * 2 ^ 16"
      using dig_bound [of d] power_increasing [OF assms(1), of "2::int"] by (intro mult_mono) auto
    finally show ?thesis by simp
  qed
  have nb: "\<not> bit c n" if "s \<le> n" for n using bits_below [OF assms(2), of n] that by auto
  have "push_bit s (ucast d) OR c = push_bit s (ucast d) + c"
    by (rule disjunctive_add_eq_or [symmetric])
      (auto intro!: bit_word_eqI simp: bit_simps nb)
  also have "uint \<dots> = (uint d * 2 ^ s + uint c) mod 4294967296"
    by (simp add: uint_word_ariths unsigned_push_bit_eq take_bit_eq_mod dig_simps mod_simps)
      (simp add: push_bit_eq_mult)
  also have "\<dots> = uint d * 2 ^ s + uint c" using le by (intro mod_pos_pos_trivial) auto
  finally show ?thesis .
qed

fun norm_digits :: "nat \<Rightarrow> dbl \<Rightarrow> dig list \<Rightarrow> dig list" where
  "norm_digits s d_norm [] = []"
| "norm_digits s d_norm (d # ds) =
     (let d_norm = push_bit s (ucast d) OR drop_bit DIG_SIZE d_norm
      in lo_dig d_norm # norm_digits s d_norm ds)"

lemma norm_carry:
  fixes d :: dig and d_norm :: dbl
  assumes "s \<le> 16" "uint (drop_bit DIG_SIZE d_norm) < 2 ^ s"
  shows "uint (push_bit s (ucast d) OR drop_bit DIG_SIZE d_norm)
           = uint d * 2 ^ s + uint (drop_bit DIG_SIZE d_norm)"
    and "uint (drop_bit DIG_SIZE (push_bit s (ucast d) OR drop_bit DIG_SIZE d_norm)) < 2 ^ s"
proof -
  let ?e = "push_bit s (ucast d) OR drop_bit DIG_SIZE d_norm"
  show 1: "uint ?e = uint d * 2 ^ s + uint (drop_bit DIG_SIZE d_norm)"
    by (rule uint_shift_or [OF assms])
  have "uint ?e < (uint d + 1) * 2 ^ s" unfolding 1 using assms(2) by (simp add: algebra_simps)
  also have "\<dots> \<le> 65536 * 2 ^ s" using dig_bound [of d] by (intro mult_right_mono) auto
  finally show "uint (drop_bit DIG_SIZE ?e) < 2 ^ s" by (intro uint_drop_16_le) simp
qed

lemma length_norm_digits [simp]: "length (norm_digits s d_norm ds) = length ds"
  by (induction s d_norm ds rule: norm_digits.induct) (simp_all add: Let_def)

lemma norm_digits_carry:
  assumes "s \<le> 16" "uint (drop_bit DIG_SIZE d_norm) < 2 ^ s"
  shows "\<exists>c \<ge> 0. mpn_val (norm_digits s d_norm ds) + 65536 ^ length ds * c
                   = mpn_val ds * 2 ^ s + uint (drop_bit DIG_SIZE d_norm)"
  using assms
proof (induction s d_norm ds rule: norm_digits.induct)
  case (1 s d_norm)
  then show ?case by auto
next
  case (2 s d_norm d ds)
  let ?e = "push_bit s (ucast d) OR drop_bit DIG_SIZE d_norm"
  obtain c where c: "0 \<le> c" "mpn_val (norm_digits s ?e ds) + 65536 ^ length ds * c
                   = mpn_val ds * 2 ^ s + uint (drop_bit DIG_SIZE ?e)"
    using 2(1) [OF refl 2(2) norm_carry(2) [OF 2(2,3)]] by blast
  have "uint (lo_dig ?e) + 65536 * uint (drop_bit DIG_SIZE ?e)
          = uint d * 2 ^ s + uint (drop_bit DIG_SIZE d_norm)"
    unfolding norm_carry(1) [OF 2(2,3), of d, symmetric] by (rule carry_split)
  then have "mpn_val (norm_digits s d_norm (d # ds)) + 65536 ^ length (d # ds) * c
      = mpn_val (d # ds) * 2 ^ s + uint (drop_bit DIG_SIZE d_norm)"
    using c(2) by (simp add: Let_def algebra_simps del: drop_bit_or)
  then show ?case using c(1) by blast
qed

lemma norm_digits_val:
  assumes "s \<le> 16" "mpn_val ds * 2 ^ s < 65536 ^ length ds"
  shows "mpn_val (norm_digits s 0 ds) = mpn_val ds * 2 ^ s"
proof -
  obtain c where c: "0 \<le> c" "mpn_val (norm_digits s 0 ds) + 65536 ^ length ds * c = mpn_val ds * 2 ^ s"
    using norm_digits_carry [OF assms(1), of 0 ds] by auto
  have "65536 ^ length ds * c < 65536 ^ length ds * 1"
    using c(2) assms(2) mpn_val_nonneg [of "norm_digits s 0 ds"] by linarith
  then have "c = 0" using c(1) by (simp add: mult_less_cancel_left_pos)
  with c(2) show ?thesis by simp
qed

section \<open>Subtracting and adding back a multiple of the denominator\<close>

fun sub_digits :: "dbl \<Rightarrow> dbl \<Rightarrow> dig list \<Rightarrow> dig list \<Rightarrow> dig list \<times> dbl" where
  "sub_digits quo borrow (n # ns) (e # es) =
     (let x = quo * ucast e;
          low_digs = (borrow AND DIG_MASK) + ucast n - (x AND DIG_MASK);
          borrow = signed_drop_bit DIG_SIZE borrow - drop_bit DIG_SIZE x + signed_drop_bit DIG_SIZE low_digs;
          (ns', b) = sub_digits quo borrow ns es
      in (lo_dig low_digs # ns', b))"
| "sub_digits quo borrow ns es = ([], borrow)"

lemma ucast_lo_dig: "ucast (lo_dig d) = d AND DIG_MASK"
proof (rule word_uint_eqI)
  have "d AND DIG_MASK = take_bit 16 d"
    by (simp add: DIG_MASK_def take_bit_eq_mask mask_eq_exp_minus_1)
  then have "uint (d AND DIG_MASK) = take_bit 16 (uint d)" by (simp only: unsigned_take_bit_eq)
  then show "uint (ucast (lo_dig d) :: dbl) = uint (d AND DIG_MASK)"
    by (simp add: dig_simps take_bit_eq_mod)
qed

lemma mulsub_sub_digits:
  "mpn_div_mulsub s quo d_norm borrow ns ds = sub_digits quo borrow ns (norm_digits s d_norm ds)"
  by (induction s quo d_norm borrow ns ds rule: mpn_div_mulsub.induct)
    (simp_all add: Let_def ucast_lo_dig del: drop_bit_or)

fun add_digits :: "dbl \<Rightarrow> dig list \<Rightarrow> dig list \<Rightarrow> dig list \<times> dbl" where
  "add_digits carry (n # ns) (e # es) =
     (let carry = carry + (ucast n + ucast e);
          (ns', c) = add_digits (drop_bit DIG_SIZE carry) ns es
      in (lo_dig carry # ns', c))"
| "add_digits carry ns es = ([], carry)"

lemma addback_add_digits:
  "mpn_div_addback s d_norm carry ns ds = add_digits carry ns (norm_digits s d_norm ds)"
  by (induction s d_norm carry ns ds rule: mpn_div_addback.induct)
    (simp_all add: Let_def ucast_lo_dig del: drop_bit_or)

lemma length_add_digits:
  "length ns = length es \<Longrightarrow> length (fst (add_digits carry ns es)) = length ns"
  by (induction carry ns es rule: add_digits.induct) (simp_all add: Let_def split_beta)

lemma length_sub_digits:
  "length ns = length es \<Longrightarrow> length (fst (sub_digits quo borrow ns es)) = length ns"
  by (induction quo borrow ns es rule: sub_digits.induct) (simp_all add: Let_def split_beta)

lemma add_digits_val:
  assumes "length ns = length es" "uint carry \<le> 1"
  shows "mpn_val (fst (add_digits carry ns es)) + 65536 ^ length es * uint (snd (add_digits carry ns es))
           = mpn_val ns + mpn_val es + uint carry \<and> uint (snd (add_digits carry ns es)) \<le> 1"
  using assms
proof (induction carry ns es rule: add_digits.induct)
  case (1 carry n ns e es)
  let ?c = "carry + (ucast n + ucast e)"
  have c: "uint ?c = uint carry + uint n + uint e" using 1(3) by (rule add_carry)
  have "uint (drop_bit DIG_SIZE ?c) \<le> 1"
    using 1(3) by (rule add_carry(2))
  with 1(1) [OF refl] 1(2) have ih:
    "mpn_val (fst (add_digits (drop_bit DIG_SIZE ?c) ns es))
        + 65536 ^ length es * uint (snd (add_digits (drop_bit DIG_SIZE ?c) ns es))
       = mpn_val ns + mpn_val es + uint (drop_bit DIG_SIZE ?c)"
    "uint (snd (add_digits (drop_bit DIG_SIZE ?c) ns es)) \<le> 1" by auto
  then show ?case using carry_split [of ?c] c by (simp add: Let_def split_beta algebra_simps)
qed auto

lemma sub_digit:
  fixes borrow quo :: dbl and n e :: dig
  assumes b: "- 65537 \<le> sint borrow" "sint borrow \<le> 0" and q: "uint quo \<le> 65537"
  defines "x \<equiv> quo * ucast e"
  defines "low \<equiv> (borrow AND DIG_MASK) + ucast n - (x AND DIG_MASK)"
  defines "borrow' \<equiv> signed_drop_bit DIG_SIZE borrow - drop_bit DIG_SIZE x + signed_drop_bit DIG_SIZE low"
  shows "uint (lo_dig low) + 65536 * sint borrow' = sint borrow + uint n - uint quo * uint e"
    and "- 65537 \<le> sint borrow'" "sint borrow' \<le> 0"
proof -
  have xb: "uint quo * uint e \<le> 65537 * 65535" using q dig_bound [of e] by (intro mult_mono) auto
  then have x: "uint x = uint quo * uint e" unfolding x_def
    by (subst uint_dbl_mult) (simp_all add: dig_simps)
  note split = carry_split [of x] sint_split [of borrow] sint_split [of low]
  note bnd = dig_bound [of "lo_dig x"] dig_bound [of "lo_dig borrow"] dig_bound [of "lo_dig low"] dig_bound [of n]
  have xd: "0 \<le> uint (drop_bit DIG_SIZE x)" "uint (drop_bit DIG_SIZE x) \<le> 65535"
    using split bnd xb x by (simp, linarith)
  have low: "sint low = uint (lo_dig borrow) + uint n - uint (lo_dig x)"
  proof -
    have "low = word_of_int (uint (lo_dig borrow) + uint n - uint (lo_dig x))"
      unfolding low_def ucast_lo_dig [symmetric] by (simp only: of_int_add of_int_diff ucast_eq)
    then show ?thesis using bnd by (simp only: sint_dbl_of_int)
  qed
  let ?r = "sint (signed_drop_bit DIG_SIZE borrow) - uint (drop_bit DIG_SIZE x)
              + sint (signed_drop_bit DIG_SIZE low)"
  have "sint borrow' = ?r"
  proof -
    have "borrow' = word_of_int ?r"
      unfolding borrow'_def by (simp only: of_int_add of_int_diff of_int_sint of_int_uint scast_id ucast_id)
    moreover have "- 2147483648 \<le> ?r" "?r < 2147483648" using split bnd low xd b by linarith+
    ultimately show ?thesis by (simp only: sint_dbl_of_int)
  qed
  with split low x show eq: "uint (lo_dig low) + 65536 * sint borrow' = sint borrow + uint n - uint quo * uint e"
    by linarith
  have "0 \<le> uint quo * uint e" by simp
  with eq bnd b xb show "- 65537 \<le> sint borrow'" "sint borrow' \<le> 0" by linarith+
qed

lemma sub_digits_val:
  assumes "length ns = length es" "- 65537 \<le> sint borrow" "sint borrow \<le> 0" "uint quo \<le> 65537"
  shows "mpn_val (fst (sub_digits quo borrow ns es)) + 65536 ^ length es * sint (snd (sub_digits quo borrow ns es))
           = mpn_val ns + sint borrow - uint quo * mpn_val es
         \<and> - 65537 \<le> sint (snd (sub_digits quo borrow ns es)) \<and> sint (snd (sub_digits quo borrow ns es)) \<le> 0"
  using assms
proof (induction quo borrow ns es rule: sub_digits.induct)
  case (1 quo borrow n ns e es)
  note d = sub_digit [OF 1(3,4,5), where n = n and e = e]
  show ?case using 1(1) [OF refl refl refl _ d(2,3) 1(5)] 1(2) d(1)
    by (simp add: Let_def split_beta algebra_simps)
qed auto

section \<open>One quotient digit\<close>

lemma sint_dbl_add:
  fixes a b :: dbl
  assumes "- 2147483648 \<le> sint a + x" "sint a + x < 2147483648" "b = word_of_int x"
  shows "sint (a + b) = sint a + x"
proof -
  have "a + b = word_of_int (sint a + x)" by (simp only: of_int_add of_int_sint scast_id assms(3))
  with assms(1,2) show ?thesis by (simp only: sint_dbl_of_int)
qed

lemma borrow_sign:
  assumes "0 \<le> v" "v < p"
  shows "v + p * b < (p::int) \<Longrightarrow> b \<le> 0" "v + p * b < 0 \<Longrightarrow> b < 0" "0 \<le> v + p * b \<Longrightarrow> 0 \<le> b"
proof -
  have "p * 1 \<le> p * b" if "1 \<le> b" using assms that by (intro mult_left_mono) auto
  moreover have "0 \<le> p * b" if "0 \<le> b" using assms that by simp
  moreover have "p * b \<le> p * (-1)" if "b \<le> -1" using assms that by (intro mult_left_mono) auto
  ultimately show "v + p * b < p \<Longrightarrow> b \<le> 0" "v + p * b < 0 \<Longrightarrow> b < 0" "0 \<le> v + p * b \<Longrightarrow> 0 \<le> b"
    using assms by linarith+
qed

lemma mpn_div_correct_val:
  fixes borrow quo :: dbl and ns den :: "dig list"
  assumes "length ns = length den" "k < fuel" "int k \<le> uint quo" "- 65537 \<le> sint borrow"
    and "0 \<le> mpn_val ns + 65536 ^ length den * sint borrow + int k * mpn_val (norm_digits s 0 den)"
    and "mpn_val ns + 65536 ^ length den * sint borrow + int k * mpn_val (norm_digits s 0 den)
           < mpn_val (norm_digits s 0 den)"
  shows "\<exists>ns' quo'. mpn_div_correct fuel s borrow quo ns den = Some (ns', quo')
           \<and> length ns' = length den \<and> uint quo' = uint quo - int k
           \<and> mpn_val ns' = mpn_val ns + 65536 ^ length den * sint borrow + int k * mpn_val (norm_digits s 0 den)"
  using assms
proof (induction k arbitrary: fuel borrow quo ns)
  case (0 fuel borrow quo ns)
  note bs = borrow_sign [OF mpn_val_nonneg mpn_val_less [of ns], of "sint borrow"]
  have "sint borrow = 0"
    using bs(1,3) 0(1,5,6) mpn_val_less [of "norm_digits s 0 den"] by force
  then have "borrow = 0" by (intro signed_word_eqI) simp
  with 0 show ?case by (cases fuel) simp_all
next
  case (Suc k fuel borrow quo ns)
  let ?es = "norm_digits s 0 den"
  note bs = borrow_sign [OF mpn_val_nonneg mpn_val_less [of ns], of "sint borrow"]
  obtain f where f: "fuel = Suc f" using Suc(3) by (cases fuel) auto
  obtain ns' c where a: "add_digits 0 ns ?es = (ns', c)" by fastforce
  have av: "mpn_val ns' + 65536 ^ length den * uint c = mpn_val ns + mpn_val ?es" "uint c \<le> 1" "length ns' = length den"
    using add_digits_val [of ns ?es 0] length_add_digits [of ns ?es 0] Suc(2) a by simp_all
  have "0 \<le> int k * mpn_val ?es" by simp
  moreover have "int (Suc k) * mpn_val ?es = int k * mpn_val ?es + mpn_val ?es" by (simp add: algebra_simps)
  ultimately have "mpn_val ns + 65536 ^ length ns * sint borrow < 0"
    using Suc(7) unfolding Suc(2) by linarith
  then have neg: "sint borrow < 0" using bs(2) by blast
  have sb: "sint (borrow + c) = sint borrow + uint c"
    using Suc(5) neg av(2) uint_ge_0 [of c] by (intro sint_dbl_add) (linarith, linarith, simp)
  have q1: "uint (quo - 1) = uint quo - 1" using Suc(4) uint_lt2p [of quo] by (simp add: uint_word_ariths)
  have R: "mpn_val ns' + 65536 ^ length den * sint (borrow + c) = mpn_val ns + 65536 ^ length den * sint borrow + mpn_val ?es"
    using av(1) sb by (simp add: algebra_simps)
  have lo: "- 65537 \<le> sint (borrow + c)" using sb Suc(5) uint_ge_0 [of c] by linarith
  obtain ns'' quo' where ih: "mpn_div_correct f s (borrow + c) (quo - 1) ns' den = Some (ns'', quo')"
    "length ns'' = length den" "uint quo' = uint (quo - 1) - int k"
    "mpn_val ns'' = mpn_val ns' + 65536 ^ length den * sint (borrow + c) + int k * mpn_val ?es"
    using Suc.IH [of ns' f "quo - 1" "borrow + c"] Suc(3-7) f q1 av(3) lo R by (auto simp: algebra_simps)
  have "borrow \<noteq> 0" using neg by auto
  then show ?case using ih(1,2,3) ih(4) [unfolded R] a q1 by (simp add: f addback_add_digits algebra_simps)
qed

text \<open>
  The estimate: with the two leading digits of the window \<open>t\<close> and the leading digit \<open>h\<close> of the
  normalised denominator, \<open>t div h\<close> is at least the quotient digit, and at most 65537.
\<close>

lemma quotient_estimate:
  fixes p t h wl dl :: int
  assumes "0 \<le> wl" "wl < p" "0 \<le> dl" "dl < p" "32768 \<le> h" "0 \<le> t"
    and "t * p + wl < (h * p + dl) * 65536"
  shows "(t * p + wl) div (h * p + dl) \<le> t div h" "t div h \<le> 65537"
proof -
  let ?q = "(t * p + wl) div (h * p + dl)"
  have p: "0 < p" using assms(1,2) by linarith
  have hp: "0 < h * p" using p assms(5) by simp
  have hd: "0 < h * p + dl" using hp assms(3) by linarith
  have tp: "0 \<le> t * p + wl" using assms(1,6) p by simp
  have q0: "0 \<le> ?q" using hd tp by (simp add: pos_imp_zdiv_nonneg_iff)
  have "?q * (h * p + dl) \<le> t * p + wl" using hd pos_mod_sign [OF hd, of "t * p + wl"] div_mult_mod_eq [of "t * p + wl" "h * p + dl"] by linarith
  moreover have "0 \<le> ?q * dl" using q0 assms(3) by simp
  ultimately have "(?q * h) * p < (t + 1) * p" using assms(2) by (simp add: algebra_simps)
  then have "?q * h < t + 1" using p by simp
  then have "?q * h \<le> t" by simp
  then have "(?q * h) div h \<le> t div h" using assms(5) by (intro zdiv_mono1) auto
  then show "?q \<le> t div h" using assms(5) by simp
  have "t * p < (h + 1) * 65536 * p" using assms(1,4,7) by (simp add: algebra_simps)
  then have "t < (h + 1) * 65536" using p by simp
  then have "t < 65538 * h" using assms(5) by (simp add: algebra_simps)
  then show "t div h \<le> 65537" using int_div_lessI [of h t 65538] assms(5) by simp
qed

lemma mpn_val_snoc: "mpn_val (ds @ [d]) = mpn_val ds + 65536 ^ length ds * uint d"
  by (simp add: mpn_val_append)

lemma mpn_div_step_val:
  fixes den win :: "dig list" and s :: nat
  defines "es \<equiv> norm_digits s 0 den"
  assumes len: "length win = Suc (length den)" and den: "den \<noteq> []"
    and lead: "lead = ucast (last es)" "32768 \<le> uint (last es)"
    and win: "mpn_val win < mpn_val es * 65536"
  shows "\<exists>ns q. mpn_div_step s lead den win = Some (ns, q) \<and> length ns = length den
           \<and> mpn_val ns = mpn_val win mod mpn_val es \<and> uint q = mpn_val win div mpn_val es"
proof -
  obtain ws w v where w: "win = ws @ [w, v]" "length ws = length den - 1"
  proof -
    obtain us v where "win = us @ [v]" using len by (cases win rule: rev_cases) auto
    moreover from this obtain ws w where "us = ws @ [w]" using len den by (cases us rule: rev_cases) auto
    ultimately show thesis using that [of ws w v] len by simp
  qed
  obtain dl h where e: "es = dl @ [h]" "length dl = length den - 1"
    using den by (cases es rule: rev_cases) (auto simp: es_def dest: arg_cong [of _ _ length])
  let ?p = "65536 ^ (length den - 1) :: int" and ?t = "uint v * 65536 + uint w" and ?h = "uint h"
  have d: "Suc (length den - 1) = length den" using den by (cases den) auto
  have wv: "mpn_val win = ?t * ?p + mpn_val ws" using w by (simp add: mpn_val_append algebra_simps)
  have ev: "mpn_val es = ?h * ?p + mpn_val dl" using e by (simp add: mpn_val_append algebra_simps)
  define q where "q = mpn_val win div mpn_val es"
  define r where "r = mpn_val win mod mpn_val es"
  have h: "32768 \<le> ?h" "lead = ucast h" using lead e by simp_all
  have est: "q \<le> ?t div ?h" "?t div ?h \<le> 65537"
    using quotient_estimate [of "mpn_val ws" ?p "mpn_val dl" ?h ?t] mpn_val_less [of ws] mpn_val_less [of dl]
      w(2) e(2) h(1) win unfolding wv ev q_def by simp_all
  have epos: "0 < mpn_val es" using h(1) mpn_val_nonneg [of dl] zero_less_power [of "65536::int" "length den - 1"]
    unfolding ev by (metis add_pos_nonneg less_le_trans mult_pos_pos zero_less_numeral)
  have r: "0 \<le> r" "r < mpn_val es" "mpn_val win = q * mpn_val es + r" using epos by (simp_all add: q_def r_def)
  have q: "0 \<le> q" "q < 65536" using epos win unfolding q_def
    by (simp add: pos_imp_zdiv_nonneg_iff) (rule int_div_lessI, simp_all add: mult.commute epos win)
  define quo :: dbl where "quo = (push_bit DIG_SIZE (ucast v) OR ucast w) div lead"
  have quo: "uint quo = ?t div ?h"
    using uint_shift_or [of DIG_SIZE "ucast w" v] dig_bound [of w] unfolding quo_def h(2)
    by (simp add: uint_div uint_ucast_dig)
  obtain ns b where sd: "sub_digits quo 0 (butlast win) es = (ns, b)" by fastforce
  have lb: "length (butlast win) = length es" using len by (simp add: es_def)
  have nb: "mpn_val ns + 65536 ^ length den * sint b = mpn_val (butlast win) - uint quo * mpn_val es"
    "-65537 \<le> sint b" "sint b \<le> 0" "length ns = length den"
    using sub_digits_val [OF lb, of 0 quo] length_sub_digits [OF lb, of quo 0] sd est(2) quo len
    by (simp_all add: es_def)
  have wb: "mpn_val win = mpn_val (butlast win) + 65536 ^ length den * uint v"
  proof -
    have "length (ws @ [w]) = length den" using w d by simp
    then show ?thesis using mpn_val_snoc [of "ws @ [w]" v] w by (simp add: butlast_append)
  qed
  have sb: "sint (b + ucast v) = sint b + uint v"
    using nb(2,3) dig_bound [of v] by (intro sint_dbl_add) (linarith, linarith, rule ucast_eq)
  define k where "k = nat (uint quo - q)"
  have k: "int k = uint quo - q" using est(1) quo by (simp add: k_def)
  have R: "mpn_val ns + 65536 ^ length den * sint (b + ucast v) + int k * mpn_val es = r"
  proof -
    have "int k * mpn_val es = uint quo * mpn_val es - q * mpn_val es"
      "65536 ^ length den * sint (b + ucast v) = 65536 ^ length den * sint b + 65536 ^ length den * uint v"
      unfolding k sb by (simp_all only: left_diff_distrib distrib_left)
    with nb(1) wb r(3) show ?thesis by linarith
  qed
  have kf: "k < Suc (unat quo)" using k q(1) uint_nat [of quo] by linarith
  have ck: "int k \<le> uint quo" "- 65537 \<le> sint (b + ucast v)" using k q(1) sb nb(2) dig_bound [of v] by linarith+
  obtain ns' quo' where c: "mpn_div_correct (Suc (unat quo)) s (b + ucast v) quo ns den = Some (ns', quo')"
    "length ns' = length den" "uint quo' = uint quo - int k" "mpn_val ns' = r"
    using mpn_div_correct_val [OF nb(4) kf ck, of s] R r unfolding es_def [symmetric] by auto
  have "uint (lo_dig quo') = q" using c(3) k q by (simp add: uint_lo_dig)
  moreover have "last win = v" "win ! (length den - 1) = w" using w by (simp_all add: nth_append)
  then have "mpn_div_step s lead den win = Some (ns', lo_dig quo')"
    using c(1) sd by (simp add: mpn_div_step_def Let_def quo_def mulsub_sub_digits es_def)
  ultimately show ?thesis using c q_def r_def by auto
qed

section \<open>The quotient loop\<close>

lemma mpn_div_loop_val:
  fixes den win ls :: "dig list" and s :: nat
  defines "es \<equiv> norm_digits s 0 den"
  assumes "length win = Suc (length den)" and den: "den \<noteq> []"
    and lead: "lead = ucast (last es)" "32768 \<le> uint (last es)"
    and "mpn_val win < mpn_val es * 65536"
  shows "\<exists>qs r. mpn_div_loop s lead den ls win = Some (qs, r)
           \<and> length qs = Suc (length ls) \<and> length r = length den \<and> mpn_val r < mpn_val es
           \<and> mpn_val (rev ls @ win) = mpn_val qs * mpn_val es + mpn_val r"
  using assms(2,6)
proof (induction ls arbitrary: win)
  case Nil
  obtain ns q where st: "mpn_div_step s lead den win = Some (ns, q)" "length ns = length den"
      "mpn_val ns = mpn_val win mod mpn_val es" "uint q = mpn_val win div mpn_val es"
    using mpn_div_step_val [OF Nil(1) den lead [unfolded es_def] Nil(2) [unfolded es_def]]
    unfolding es_def by blast
  have "0 < mpn_val es" using Nil(2) mpn_val_nonneg [of win] by linarith
  then show ?case using st by simp
next
  case (Cons l ls)
  obtain ns q where st: "mpn_div_step s lead den win = Some (ns, q)" "length ns = length den"
      "mpn_val ns = mpn_val win mod mpn_val es" "uint q = mpn_val win div mpn_val es"
    using mpn_div_step_val [OF Cons(2) den lead [unfolded es_def] Cons(3) [unfolded es_def]]
    unfolding es_def by blast
  have "0 < mpn_val es" using Cons(3) mpn_val_nonneg [of win] by linarith
  then have r: "mpn_val ns < mpn_val es" "mpn_val win = uint q * mpn_val es + mpn_val ns"
    using st(3,4) by simp_all
  have "mpn_val (l # ns) < mpn_val es * 65536" using r(1) dig_bound [of l] by simp
  then obtain qs r where ih: "mpn_div_loop s lead den ls (l # ns) = Some (qs, r)" "length qs = Suc (length ls)"
      "length r = length den" "mpn_val r < mpn_val es"
      "mpn_val (rev ls @ l # ns) = mpn_val qs * mpn_val es + mpn_val r"
    using Cons.IH [of "l # ns"] st(2) by auto
  have "mpn_val (rev (l # ls) @ win) = mpn_val (rev ls @ l # ns) + 65536 ^ length (rev ls @ [l]) * (mpn_val win - mpn_val ns)"
    using mpn_val_append [of "rev ls @ [l]" win] mpn_val_append [of "rev ls @ [l]" ns]
    by (simp add: right_diff_distrib)
  also have "\<dots> = mpn_val (qs @ [q]) * mpn_val es + mpn_val r"
    using ih(2,5) r(2) by (simp add: mpn_val_append algebra_simps)
  finally show ?case using st(1) ih by simp
qed

section \<open>Normalisation of the operands\<close>

lemma bit_top_dig: "(d AND 0x8000 = 0) = (uint (d :: dig) < 32768)"
proof -
  have "(d AND 2 ^ 15 = 0) = (\<not> bit d 15)" by (rule and_exp_eq_0_iff_not_bit)
  moreover have "bit d 15 = bit (uint d) 15" by (simp add: bit_uint_iff)
  moreover have "\<dots> = odd (uint d div 2 ^ 15)" by (rule bit_iff_odd)
  moreover have "uint d div 32768 = (if uint d < 32768 then 0 else 1)"
    using dig_bound [of d] by (auto simp: div_pos_pos_trivial)
  ultimately show ?thesis by (auto split: if_splits)
qed

lemma mpn_div_norm_shift_val:
  assumes "uint d < 65536" "65536 \<le> uint d * 2 ^ fuel" "fuel \<le> 16"
  shows "\<exists>s < fuel. mpn_div_norm_shift fuel d = Some s \<and> 32768 \<le> uint d * 2 ^ s \<and> uint d * 2 ^ s < 65536"
  using assms
proof (induction fuel arbitrary: d)
  case 0
  then show ?case by simp
next
  case (Suc fuel)
  show ?case
  proof (cases "uint d < 32768")
    case True
    have "uint (push_bit 1 d) = uint d * 2"
      using True by (simp add: push_bit_eq_mult uint_word_ariths)
    then show ?thesis using Suc.IH [of "push_bit 1 d"] Suc(2-4) True by (auto simp: bit_top_dig)
  next
    case False
    then show ?thesis using Suc(2) by (auto simp: bit_top_dig intro!: exI [of _ 0])
  qed
qed

lemma shift_carry:
  fixes d :: dig and c :: dbl
  assumes "s \<le> 16" "uint c < 2 ^ s"
  shows "drop_bit DIG_SIZE (push_bit s (ucast d) OR c) = drop_bit (DIG_SIZE - s) (ucast d)"
proof (rule word_uint_eqI)
  have "(65536 :: int) = 2 ^ s * 2 ^ (16 - s)" using assms(1) by (simp flip: power_add)
  then have "(uint d * 2 ^ s + uint c) div 65536 = (uint d * 2 ^ s + uint c) div 2 ^ s div 2 ^ (16 - s)"
    by (simp only: zdiv_zmult2_eq [of "2 ^ (16 - s)"] zero_le_power zero_le_numeral)
  also have "(uint d * 2 ^ s + uint c) div 2 ^ s = uint d" using assms(2) by simp
  finally show "uint (drop_bit DIG_SIZE (push_bit s (ucast d) OR c)) = uint (drop_bit (DIG_SIZE - s) (ucast d :: dbl))"
    using uint_shift_or [OF assms, of d] by (simp add: dig_simps del: drop_bit_or)
qed

lemma mpn_div_shl_norm:
  assumes "s \<le> 16" "ucast carry = drop_bit DIG_SIZE d_norm" "uint carry < 2 ^ s"
  shows "mpn_div_shl s carry ns = norm_digits s d_norm ns"
  using assms
proof (induction s carry ns arbitrary: d_norm rule: mpn_div_shl.induct)
  case (2 s carry n ns)
  let ?e = "push_bit s (ucast n) OR drop_bit DIG_SIZE d_norm"
  let ?c = "ucast (drop_bit (DIG_SIZE - s) (ucast n :: dbl)) :: dig"
  have u: "uint (drop_bit DIG_SIZE d_norm) < 2 ^ s" using 2(3,4) uint_ucast_dig [of carry] by simp
  have c: "drop_bit DIG_SIZE ?e = drop_bit (DIG_SIZE - s) (ucast n)" by (rule shift_carry [OF 2(2) u])
  have le: "uint (drop_bit DIG_SIZE ?e) < 2 ^ s" by (rule norm_carry(2) [OF 2(2) u])
  have "(2::int) ^ s \<le> 65536" using power_increasing [OF 2(2), of "2::int"] by simp
  then have cu: "uint ?c = uint (drop_bit DIG_SIZE ?e)"
    unfolding c [symmetric] using le by (simp add: unsigned_ucast_eq take_bit_int_eq_self del: drop_bit_or)
  then have "ucast ?c = drop_bit DIG_SIZE ?e" by (intro word_uint_eqI) (simp add: dig_simps del: drop_bit_or)
  then have "mpn_div_shl s ?c ns = norm_digits s ?e ns" using cu le 2(2) by (intro 2(1)) (auto simp del: drop_bit_or)
  then show ?case using 2(3) by (simp add: Let_def)
qed simp

lemma last_norm_digits:
  assumes "s \<le> 16" "uint (drop_bit DIG_SIZE d_norm) < 2 ^ s"
  shows "last (norm_digits s d_norm (ds @ [a, b])) = lo_dig (push_bit s (ucast b) OR drop_bit (DIG_SIZE - s) (ucast a))"
  using assms(2)
proof (induction ds arbitrary: d_norm)
  case Nil
  then show ?case by (simp add: Let_def shift_carry [OF assms(1) Nil] del: drop_bit_or)
next
  case (Cons d ds)
  show ?case using Cons.IH [OF norm_carry(2) [OF assms(1) Cons(2)]] norm_digits.elims
    by (cases "norm_digits s (push_bit s (ucast d) OR drop_bit 16 d_norm) (ds @ [a, b]) = []")
      (auto simp: Let_def dest: arg_cong [of _ _ length] simp del: drop_bit_or)
qed

lemma lo_dig_small: "uint (d::dbl) < 65536 \<Longrightarrow> ucast (lo_dig d) = d"
  by (rule word_uint_eqI) (simp add: dig_simps)

lemma norm_lead:
  assumes "s \<le> 16" "den \<noteq> []" "mpn_val den * 2 ^ s < 65536 ^ length den"
  shows "(if 2 \<le> length den
          then push_bit s (ucast (last den)) OR drop_bit (DIG_SIZE - s) (ucast (den ! (length den - 2)))
          else push_bit s (ucast (last den))) = (ucast (last (norm_digits s 0 den)) :: dbl)"
proof (cases "2 \<le> length den")
  case True
  obtain b ds where 1: "den = ds @ [b]" using assms(2) by (cases den rule: rev_cases) auto
  then obtain a cs where 2: "ds = cs @ [a]" using True by (cases ds rule: rev_cases) auto
  let ?x = "push_bit s (ucast b) OR drop_bit (DIG_SIZE - s) (ucast a) :: dbl"
  have "uint (drop_bit (DIG_SIZE - s) (ucast a) :: dbl) < 2 ^ s"
  proof -
    have "(65536::int) = 2 ^ s * 2 ^ (16 - s)" using assms(1) by (simp flip: power_add)
    then have "uint a div 2 ^ (16 - s) < 2 ^ s" using dig_bound [of a] by (intro int_div_lessI) simp_all
    then show ?thesis by (simp add: dig_simps)
  qed
  then have "uint ?x = uint b * 2 ^ s + uint a div 2 ^ (16 - s)"
    using uint_shift_or [OF assms(1), of "drop_bit (DIG_SIZE - s) (ucast a)" b] by (simp add: dig_simps)
  moreover have "(uint b * 2 ^ s + uint a div 2 ^ (16 - s)) * 65536 < 65536 * 65536"
  proof -
    have "65536 ^ length cs * ((uint a + 65536 * uint b) * 2 ^ s) \<le> mpn_val ((cs @ [a]) @ [b]) * 2 ^ s"
      by (simp add: mpn_val_append algebra_simps)
    then have "65536 ^ length cs * ((uint a + 65536 * uint b) * 2 ^ s) < 65536 ^ length cs * (65536 * 65536)"
      using assms(3) unfolding 1 2 by (rule le_less_trans [OF _ less_le_trans]) simp
    then have "(uint a + 65536 * uint b) * 2 ^ s < 65536 * 65536" by (simp only: mult_less_cancel_left_pos zero_less_power zero_less_numeral)
    moreover have "uint a div 2 ^ (16 - s) * 65536 \<le> uint a * 2 ^ s"
    proof -
      have "uint a div 2 ^ (16 - s) * 2 ^ (16 - s) \<le> uint a" 
        using minus_mod_eq_div_mult [of "uint a" "2 ^ (16 - s)"] pos_mod_sign [of "2 ^ (16 - s)" "uint a"]
          zero_less_power [of "2::int" "16 - s"] by linarith
      then have "uint a div 2 ^ (16 - s) * 2 ^ (16 - s) * 2 ^ s \<le> uint a * 2 ^ s" by (intro mult_right_mono) auto
      moreover have "(65536::int) = 2 ^ (16 - s) * 2 ^ s" using assms(1) by (simp flip: power_add)
      ultimately show ?thesis by (simp only: mult.assoc)
    qed
    ultimately show ?thesis by (simp add: algebra_simps)
  qed
  ultimately have "uint ?x < 65536" by simp
  then show ?thesis using last_norm_digits [of s 0 cs a b] assms(1)
    by (simp add: 1 2 nth_append lo_dig_small)
next
  case False
  then obtain b where "den = [b]" using assms(2) by (cases den; cases "tl den") auto
  moreover from this have "uint (push_bit s (ucast b) :: dbl) < 65536"
    using assms(1,3) uint_shift_or [of s 0 b] by simp
  ultimately show ?thesis by (simp add: lo_dig_small)
qed

lemma length_mpn_div_shr [simp]: "length (mpn_div_shr s c hs) = length hs"
  by (induction s c hs rule: mpn_div_shr.induct) simp_all

lemma mpn_div_shr_val:
  assumes "s \<le> 16" "ucast c = (push_bit (DIG_SIZE - s) (ucast h) :: dbl)" "uint (h::dig) < 2 ^ s"
  shows "mpn_val (rev (mpn_div_shr s c hs)) = (uint h * 65536 ^ length hs + mpn_val (rev hs)) div 2 ^ s"
  using assms
proof (induction s c hs arbitrary: h rule: mpn_div_shr.induct)
  case (1 s carry)
  then show ?case by (simp add: div_pos_pos_trivial)
next
  case (2 s carry n ns)
  let ?c = "ucast (push_bit (DIG_SIZE - s) (ucast n :: dbl)) :: dig" and ?t = "take_bit s n"
  let ?p = "65536 ^ length ns :: int"
  have c: "ucast ?c = (push_bit (DIG_SIZE - s) (ucast ?t) :: dbl)"
    using 2(2) by (auto intro!: bit_word_eqI simp: bit_simps)
  have t: "uint ?t = uint n mod 2 ^ s" by (simp only: unsigned_take_bit_eq) (simp add: take_bit_eq_mod)
  have B: "(65536::int) = 2 ^ (16 - s) * 2 ^ s" using 2(2) by (simp flip: power_add)
  have nd: "uint n div 2 ^ s < 2 ^ (16 - s)" using dig_bound [of n] B by (intro int_div_lessI) simp_all
  let ?o = "drop_bit s (ucast n) OR ucast carry :: dbl"
  have o: "uint ?o = uint h * 2 ^ (16 - s) + uint n div 2 ^ s"
    using uint_shift_or [of "16 - s" "drop_bit s (ucast n)" h] nd 2(3)
    by (simp add: dig_simps or.commute)
  moreover have "uint h * 2 ^ (16 - s) + uint n div 2 ^ s < 65536"
  proof -
    have "(uint h + 1) * 2 ^ (16 - s) \<le> 2 ^ s * 2 ^ (16 - s)" using 2(4) by (intro mult_right_mono) auto
    then show ?thesis using nd B by (simp add: algebra_simps)
  qed
  moreover have "0 \<le> uint h * 2 ^ (16 - s) + uint n div 2 ^ s" by (simp add: pos_imp_zdiv_nonneg_iff)
  ultimately have lo: "uint (lo_dig ?o) = uint h * 2 ^ (16 - s) + uint n div 2 ^ s"
    by (simp only: uint_lo_dig mod_pos_pos_trivial)
  have ih: "mpn_val (rev (mpn_div_shr s ?c ns)) = (uint ?t * ?p + mpn_val (rev ns)) div 2 ^ s"
    using 2(1) [OF 2(2) c] t by simp
  have "uint h * 65536 ^ length (n # ns) + mpn_val (rev (n # ns))
          = 2 ^ s * (?p * (uint h * 2 ^ (16 - s) + uint n div 2 ^ s)) + (uint ?t * ?p + mpn_val (rev ns))"
  proof -
    have "uint h * 65536 ^ length (n # ns) = 2 ^ s * (?p * (uint h * 2 ^ (16 - s)))"
      by (simp only: list.size power_Suc B) (simp add: B power_Suc mult_ac)
    moreover have "uint n = 2 ^ s * (uint n div 2 ^ s) + uint ?t" using t by simp
    then have "?p * uint n = ?p * (2 ^ s * (uint n div 2 ^ s)) + ?p * uint ?t" by (metis distrib_left)
    ultimately show ?thesis by (simp add: mpn_val_append algebra_simps)
  qed
  also have "\<dots> div 2 ^ s = ?p * (uint h * 2 ^ (16 - s) + uint n div 2 ^ s) + (uint ?t * ?p + mpn_val (rev ns)) div 2 ^ s"
    by (rule div_mult_self4) simp
  finally show ?case using ih lo by (simp add: mpn_val_append length_mpn_div_shr)
qed

section \<open>Division\<close>

lemma mpn_val_take_drop:
  assumes "n \<le> length ds"
  shows "mpn_val ds = mpn_val (take n ds) + 65536 ^ n * mpn_val (drop n ds)"
  using mpn_val_append [of "take n ds" "drop n ds"] assms by simp

lemma norm_denominator:
  assumes "normalised den" "den \<noteq> []"
  obtains s where "mpn_div_norm_shift DIG_SIZE (last den) = Some s" "s \<le> 15"
    "mpn_val den * 2 ^ s < 65536 ^ length den" "32768 * 65536 ^ (length den - 1) \<le> mpn_val den * 2 ^ s"
proof -
  obtain ds d where d: "den = ds @ [d]" using assms(2) by (cases den rule: rev_cases) auto
  have "d \<noteq> 0" using assms d by (simp add: normalised_def)
  then have "1 \<le> uint d" using uint_0_iff [of d] uint_ge_0 [of d] by linarith
  then obtain s where s: "s < 16" "mpn_div_norm_shift DIG_SIZE d = Some s" "32768 \<le> uint d * 2 ^ s" "uint d * 2 ^ s < 65536"
    using mpn_div_norm_shift_val [of d 16] dig_bound [of d] by auto
  let ?p = "65536 ^ length ds :: int"
  have v: "mpn_val den * 2 ^ s = mpn_val ds * 2 ^ s + ?p * (uint d * 2 ^ s)" by (simp add: d mpn_val_snoc algebra_simps)
  have dvd: "(uint d + 1) * 2 ^ s \<le> 65536"
  proof -
    have e: "(65536::int) = 2 ^ (16 - s) * 2 ^ s" using s(1) by (simp flip: power_add)
    then have "uint d * 2 ^ s < 2 ^ (16 - s) * 2 ^ s" using s(4) by simp
    then have "uint d < 2 ^ (16 - s)" by (rule mult_right_less_imp_less) simp
    then have "(uint d + 1) * 2 ^ s \<le> 2 ^ (16 - s) * 2 ^ s" by (intro mult_right_mono) auto
    with e show ?thesis by simp
  qed
  have "mpn_val ds * 2 ^ s < ?p * 2 ^ s" using mpn_val_less [of ds] by simp
  then have "mpn_val den * 2 ^ s < ?p * ((uint d + 1) * 2 ^ s)" unfolding v by (simp add: algebra_simps)
  also have "\<dots> \<le> ?p * 65536" using dvd by (intro mult_left_mono) auto
  finally have 1: "mpn_val den * 2 ^ s < 65536 ^ length den" by (simp add: d)
  have "?p * 32768 \<le> ?p * (uint d * 2 ^ s)" using s(3) by (intro mult_left_mono) auto
  moreover have "0 \<le> mpn_val ds * 2 ^ s" by simp
  ultimately have "32768 * 65536 ^ (length den - 1) \<le> mpn_val den * 2 ^ s" unfolding v using d by (simp only: length_append_singleton diff_Suc_1)
  with 1 s that show thesis by (simp add: d)
qed

lemma norm_last_ge:
  assumes "den \<noteq> []" "length es = length den" "32768 * 65536 ^ (length den - 1) \<le> mpn_val es"
  shows "32768 \<le> uint (last es)"
proof -
  obtain ds d where d: "es = ds @ [d]" using assms(1,2) by (cases es rule: rev_cases) auto
  have "length ds = length den - 1" using assms(2) d by (metis diff_Suc_1 length_append_singleton)
  then have "65536 ^ length ds * 32768 \<le> mpn_val ds + 65536 ^ length ds * uint d"
    using assms(3) by (simp add: d mpn_val_snoc mult.commute)
  then have "65536 ^ length ds * 32768 < 65536 ^ length ds * (uint d + 1)"
    using mpn_val_less [of ds] by (simp only: distrib_left)
  then show ?thesis by (simp add: d)
qed

lemma mpn_div_long:
  assumes num: "normalised num" and den: "normalised den" "den \<noteq> []" and gt: "mpn_val den < mpn_val num"
  shows "\<exists>r q. mpn_div num den = Some (r, q) \<and> normalised r \<and> normalised q
           \<and> mpn_val q = mpn_val num div mpn_val den \<and> mpn_val r = mpn_val num mod mpn_val den
           \<and> length r \<le> length den \<and> length q \<le> Suc (length num) - length den"
proof -
  have len: "length den \<le> length num" using mpn_val_length_mono [OF den(1), of num] gt by (rule_tac ccontr) auto
  obtain s where s: "mpn_div_norm_shift DIG_SIZE (last den) = Some s" "s \<le> 15"
    "mpn_val den * 2 ^ s < 65536 ^ length den" "32768 * 65536 ^ (length den - 1) \<le> mpn_val den * 2 ^ s"
    using norm_denominator [OF den] by blast
  define es where "es = norm_digits s 0 den"
  define num' where "num' = mpn_div_shl s 0 (num @ [0])"
  define lead where "lead = (if 2 \<le> length den
          then push_bit s (ucast (last den)) OR drop_bit (DIG_SIZE - s) (ucast (den ! (length den - 2)))
          else push_bit s (ucast (last den)) :: dbl)"
  define k where "k = length num - length den"
  have ev: "mpn_val es = mpn_val den * 2 ^ s" unfolding es_def using s by (intro norm_digits_val) auto
  have le: "lead = ucast (last es)" unfolding lead_def es_def using s den by (intro norm_lead) auto
  have lst: "32768 \<le> uint (last es)" using norm_last_ge [of den es] den(2) s(4) ev by (simp add: es_def)
  have s32: "(2::int) ^ s \<le> 32768" using power_increasing [OF s(2), of "2::int"] by simp
  have numb: "mpn_val num * 2 ^ s < 65536 ^ length num * 32768"
    using mpn_val_less [of num] s32 by (intro mult_less_le_imp_less) auto
  have n': "num' = norm_digits s 0 (num @ [0])" unfolding num'_def using s(2) by (intro mpn_div_shl_norm) auto
  have nv: "mpn_val num' = mpn_val num * 2 ^ s" "length num' = Suc (length num)"
  proof -
    have "(0::int) < 65536 ^ length num" by simp
    then have "mpn_val num * 2 ^ s < 65536 * 65536 ^ length num" using numb by linarith
    then show "mpn_val num' = mpn_val num * 2 ^ s" "length num' = Suc (length num)"
      unfolding n' using norm_digits_val [of s "num @ [0]"] s(2) by (simp_all add: mpn_val_append)
  qed
  have split: "mpn_val num' = mpn_val (take k num') + 65536 ^ k * mpn_val (drop k num')"
    by (rule mpn_val_take_drop) (simp add: nv k_def)
  have win: "mpn_val (drop k num') < mpn_val es * 65536"
  proof -
    have "65536 ^ k * mpn_val (drop k num') < 65536 ^ length num * 32768"
      using split numb nv(1) mpn_val_nonneg [of "take k num'"] by linarith
    also have "\<dots> = 65536 ^ k * (65536 ^ length den * 32768)" using len by (simp add: k_def flip: power_add)
    finally have "mpn_val (drop k num') < 65536 ^ length den * 32768" by simp
    also have "\<dots> = (32768 * 65536 ^ (length den - 1)) * 65536" using den(2) by (cases den) simp_all
    also have "\<dots> \<le> mpn_val es * 65536" using s(4) ev by (intro mult_right_mono) auto
    finally show ?thesis .
  qed
  have lw: "length (drop k num') = Suc (length den)" using nv(2) len by (simp add: k_def)
  obtain qs r where l: "mpn_div_loop s lead den (rev (take k num')) (drop k num') = Some (qs, r)"
      "length qs = Suc k" "length r = length den" "mpn_val r < mpn_val es"
      "mpn_val num' = mpn_val qs * mpn_val es + mpn_val r"
    using mpn_div_loop_val [OF lw den(2) le [unfolded es_def] lst [unfolded es_def] win [unfolded es_def], of "rev (take k num')"]
      nv(2) unfolding es_def by (auto simp: k_def)
  have "mpn_val num' div mpn_val es = mpn_val qs \<and> mpn_val num' mod mpn_val es = mpn_val r"
  proof -
    have "mpn_val es \<noteq> 0" using l(4) mpn_val_nonneg [of r] by linarith
    moreover have "mpn_val r div mpn_val es = 0" using l(4) by simp
    ultimately show ?thesis using l(4,5) by (simp add: div_add1_eq [of _ "mpn_val r"])
  qed
  then have qr: "mpn_val qs = mpn_val num div mpn_val den" "mpn_val r = mpn_val num mod mpn_val den * 2 ^ s"
    by (simp_all add: nv(1) ev mod_mult_mult2 flip: mult_mod_left)
  have "mpn_val (rev (mpn_div_shr s 0 (rev r))) = mpn_val num mod mpn_val den"
    using mpn_div_shr_val [of s 0 0 "rev r"] s(2) qr(2) by simp
  moreover have "mpn_div num den = Some (mpn_remove_trailing_zeros (rev (mpn_div_shr s 0 (rev r))), mpn_remove_trailing_zeros qs)"
    using gt s(1) l(1) nv(2) len unfolding mpn_div_def Let_def mpn_cmp_sgn [OF num den(1)] num'_def [symmetric] lead_def [symmetric]
    by (simp add: k_def lead_def num'_def)
  ultimately show ?thesis
    using qr(1) l(2,3) len length_strip_le [of qs] length_strip_le [of "rev (mpn_div_shr s 0 (rev r))"]
    by (simp add: k_def Suc_diff_le)
qed

lemma mpn_div_val:
  assumes num: "normalised num" and den: "normalised den" "den \<noteq> []"
  shows "\<exists>r q. mpn_div num den = Some (r, q) \<and> normalised r \<and> normalised q
           \<and> mpn_val q = mpn_val num div mpn_val den \<and> mpn_val r = mpn_val num mod mpn_val den
           \<and> length r \<le> length num \<and> length q \<le> length num"
proof -
  have pos: "0 < mpn_val den" using den by (rule mpn_val_pos)
  consider "mpn_val num = mpn_val den" | "mpn_val num < mpn_val den" | "mpn_val den < mpn_val num" by linarith
  then show ?thesis
  proof cases
    case 1
    then have "num \<noteq> []" using pos by auto
    with 1 pos show ?thesis
      by (auto simp: mpn_div_def mpn_cmp_sgn [OF num den(1)] normalised_def Suc_leI)
  next
    case 2
    then show ?thesis using pos num by (simp add: mpn_div_def mpn_cmp_sgn [OF num den(1)] div_pos_pos_trivial normalised_def)
  next
    case 3
    then have "length den \<le> length num" "1 \<le> length den"
      using mpn_val_length_mono [OF den(1), of num] den(2) by (rule_tac ccontr, auto simp: Suc_leI)
    then show ?thesis using mpn_div_long [OF num den 3] by force
  qed
qed

end
