(* ===== verification/Mpz.thy ===== *)
theory Mpz
  imports Mpn_Mul Mpn_Bits Mpn_Div "HOL-Library.Monad_Syntax"
begin

text \<open>
  Signed integers of arbitrary size, \<^verbatim>\<open>mpz_t\<close> of \<^verbatim>\<open>py/mpz.c\<close>.  The record has the fields of the
  structure; \<open>dig\<close> holds the \<^verbatim>\<open>len\<close> digits in use, and \<open>alloc\<close> the capacity of the buffer, whose
  entries from \<^verbatim>\<open>len\<close> on are written before they are read.  An operation
  \<^verbatim>\<open>mpz_x_inpl(dest, lhs, rhs)\<close> is a function of the three structures that returns the new \<open>dest\<close>;
  \<open>None\<close> is a failed \<^verbatim>\<open>assert\<close>.  The digit loops read position \<open>i\<close> of their operands before they
  write position \<open>i\<close> of the destination, so passing the same structure twice describes the call with
  equal pointers.  Where the code compares the pointers, or reads an operand after the destination has
  been written, a flag says whether they are equal.
\<close>

section \<open>Definitions\<close>

record mpz =
  neg :: bool
  fixed_dig :: bool
  alloc :: nat
  dig :: "dig list"

definition mpz_val :: "mpz \<Rightarrow> int" where
  "mpz_val z = sgv (neg z) (dig z)"

definition mpz_wf :: "mpz \<Rightarrow> bool" where
  "mpz_wf z \<longleftrightarrow> normalised (dig z) \<and> (neg z \<longrightarrow> dig z \<noteq> []) \<and> length (dig z) \<le> alloc z"

abbreviation (input) MIN_ALLOC :: nat where
  "MIN_ALLOC \<equiv> 2"

definition mpz_init_zero :: mpz where
  "mpz_init_zero = \<lparr>neg = False, fixed_dig = False, alloc = 0, dig = []\<rparr>"

definition mpz_need_dig :: "mpz \<Rightarrow> nat \<Rightarrow> mpz option" where
  "mpz_need_dig z need =
     (let need = (if need < MIN_ALLOC then MIN_ALLOC else need)
      in if alloc z < need
         then if fixed_dig z then None else Some (z\<lparr>alloc := need\<rparr>)
         else Some z)"

definition mpz_clone :: "mpz \<Rightarrow> mpz option" where
  "mpz_clone src = (if alloc src \<noteq> 0 then Some (src\<lparr>fixed_dig := False\<rparr>) else None)"

definition mpz_set :: "mpz \<Rightarrow> mpz \<Rightarrow> mpz option" where
  "mpz_set dest src = do {
     dest \<leftarrow> mpz_need_dig dest (length (dig src));
     Some (dest\<lparr>neg := neg src, dig := dig src\<rparr>)}"

text \<open>
  The loop that stores an unsigned value digit by digit,
  \<^verbatim>\<open>while (uval > 0) { z->dig[z->len++] = uval & DIG_MASK; uval >>= DIG_SIZE; }\<close>
  (the value is read off the 32- or 64-bit word by the callers).
\<close>

fun uint_digits :: "nat \<Rightarrow> dig list" where
  "uint_digits uval = (if uval > 0 then of_nat (uval mod 65536) # uint_digits (uval div 65536) else [])"

declare uint_digits.simps [simp del]

definition mpz_set_from_int :: "mpz \<Rightarrow> 32 word \<Rightarrow> mpz option" where
  "mpz_set_from_int z val =
     (if val = 0 then Some (z\<lparr>neg := False, dig := []\<rparr>)
      else do {
        z \<leftarrow> mpz_need_dig z 2;
        let uval = (if val <s 0 then - val else val);
        Some (z\<lparr>neg := val <s 0, dig := uint_digits (unat uval)\<rparr>)})"

definition mpz_set_from_ll :: "mpz \<Rightarrow> 64 word \<Rightarrow> bool \<Rightarrow> mpz option" where
  "mpz_set_from_ll z val is_signed = do {
     z \<leftarrow> mpz_need_dig z 4;
     let uval = (if is_signed \<and> val <s 0 then - val else val);
     Some (z\<lparr>neg := is_signed \<and> val <s 0, dig := uint_digits (unat uval)\<rparr>)}"

definition mpz_init_from_int :: "32 word \<Rightarrow> mpz option" where
  "mpz_init_from_int val = mpz_set_from_int mpz_init_zero val"

definition mpz_init_fixed_from_int :: "nat \<Rightarrow> 32 word \<Rightarrow> mpz option" where
  "mpz_init_fixed_from_int dig_alloc val =
     mpz_set_from_int \<lparr>neg = False, fixed_dig = True, alloc = dig_alloc, dig = []\<rparr> val"

definition mpz_is_zero :: "mpz \<Rightarrow> bool" where
  "mpz_is_zero z \<longleftrightarrow> length (dig z) = 0"

definition mpz_is_neg :: "mpz \<Rightarrow> bool" where
  "mpz_is_neg z \<longleftrightarrow> neg z"

definition mpz_cmp :: "mpz \<Rightarrow> mpz \<Rightarrow> int" where
  "mpz_cmp z1 z2 =
     (let cmp = of_bool (neg z2) - of_bool (neg z1)
      in if cmp \<noteq> 0 then cmp
         else let cmp = mpn_cmp (dig z1) (dig z2)
              in if neg z1 then - cmp else cmp)"

definition mpz_abs_inpl :: "bool \<Rightarrow> mpz \<Rightarrow> mpz \<Rightarrow> mpz option" where
  "mpz_abs_inpl same dest z = do {
     dest \<leftarrow> (if same then Some z else mpz_set dest z);
     Some (dest\<lparr>neg := False\<rparr>)}"

definition mpz_neg_inpl :: "bool \<Rightarrow> mpz \<Rightarrow> mpz \<Rightarrow> mpz option" where
  "mpz_neg_inpl same dest z = do {
     dest \<leftarrow> (if same then Some z else mpz_set dest z);
     Some (if dig dest \<noteq> [] then dest\<lparr>neg := \<not> neg dest\<rparr> else dest)}"

definition mpz_not_inpl :: "bool \<Rightarrow> mpz \<Rightarrow> mpz \<Rightarrow> mpz option" where
  "mpz_not_inpl same dest z = do {
     dest \<leftarrow> (if same then Some z else mpz_set dest z);
     if dig dest = [] then do {
       dest \<leftarrow> mpz_need_dig dest 1;
       Some (dest\<lparr>dig := [1], neg := True\<rparr>)}
     else if neg dest then
       Some (dest\<lparr>neg := False, dig := mpn_sub (dig dest) [1]\<rparr>)
     else do {
       dest \<leftarrow> mpz_need_dig dest (length (dig dest) + 1);
       Some (dest\<lparr>dig := mpn_add (dig dest) [1], neg := True\<rparr>)}}"

definition mpz_shl_inpl :: "mpz \<Rightarrow> mpz \<Rightarrow> nat \<Rightarrow> mpz option" where
  "mpz_shl_inpl dest lhs rhs =
     (if dig lhs = [] \<or> rhs = 0 then mpz_set dest lhs
      else do {
        dest \<leftarrow> mpz_need_dig dest (length (dig lhs) + u32 (rhs + DIG_SIZE - 1) div DIG_SIZE);
        Some (dest\<lparr>dig := mpn_shl (dig lhs) rhs, neg := neg lhs\<rparr>)})"

text \<open>
  The rounding test of \<^verbatim>\<open>mpz_shr_inpl\<close>: whether a bit below position \<open>16 * n_whole + n_part\<close> is set.
\<close>

definition mpz_shr_round_up :: "dig list \<Rightarrow> nat \<Rightarrow> nat \<Rightarrow> bool" where
  "mpz_shr_round_up lhs_dig n_whole n_part \<longleftrightarrow>
     list_ex (\<lambda>d. d \<noteq> 0) (take n_whole lhs_dig)
     \<or> (n_whole < length lhs_dig \<and> (lhs_dig ! n_whole) AND (push_bit n_part 1 - 1) \<noteq> 0)"

definition mpz_shr_inpl :: "bool \<Rightarrow> mpz \<Rightarrow> mpz \<Rightarrow> nat \<Rightarrow> mpz option" where
  "mpz_shr_inpl same dest lhs rhs =
     (if dig lhs = [] \<or> rhs = 0 then mpz_set dest lhs
      else do {
        dest \<leftarrow> mpz_need_dig dest (length (dig lhs));
        let dest = dest\<lparr>dig := mpn_shr (dig lhs) rhs, neg := neg lhs\<rparr>;
        let lhs_dig = (if same then dig dest else dig lhs);
        if neg dest \<and> mpz_shr_round_up lhs_dig (rhs div DIG_SIZE) (rhs mod DIG_SIZE)
        then Some (dest\<lparr>dig := (if dig dest = [] then [1] else mpn_add (dig dest) [1])\<rparr>)
        else Some dest})"

definition mpz_add_inpl :: "mpz \<Rightarrow> mpz \<Rightarrow> mpz \<Rightarrow> mpz option" where
  "mpz_add_inpl dest lhs rhs =
     (let (lhs, rhs) = (if mpn_cmp (dig lhs) (dig rhs) < 0 then (rhs, lhs) else (lhs, rhs))
      in do {
        dest \<leftarrow> (if neg lhs = neg rhs
          then do { dest \<leftarrow> mpz_need_dig dest (length (dig lhs) + 1);
                    Some (dest\<lparr>dig := mpn_add (dig lhs) (dig rhs)\<rparr>) }
          else do { dest \<leftarrow> mpz_need_dig dest (length (dig lhs));
                    Some (dest\<lparr>dig := mpn_sub (dig lhs) (dig rhs)\<rparr>) });
        Some (dest\<lparr>neg := neg lhs \<and> dig dest \<noteq> []\<rparr>)})"

definition mpz_sub_inpl :: "mpz \<Rightarrow> mpz \<Rightarrow> mpz \<Rightarrow> mpz option" where
  "mpz_sub_inpl dest lhs rhs =
     (let (lhs, rhs, n) = (if mpn_cmp (dig lhs) (dig rhs) < 0 then (rhs, lhs, True) else (lhs, rhs, False))
      in do {
        dest \<leftarrow> (if neg lhs \<noteq> neg rhs
          then do { dest \<leftarrow> mpz_need_dig dest (length (dig lhs) + 1);
                    Some (dest\<lparr>dig := mpn_add (dig lhs) (dig rhs)\<rparr>) }
          else do { dest \<leftarrow> mpz_need_dig dest (length (dig lhs));
                    Some (dest\<lparr>dig := mpn_sub (dig lhs) (dig rhs)\<rparr>) });
        Some (dest\<lparr>neg := (if dig dest = [] then False else if n then \<not> neg lhs else neg lhs)\<rparr>)})"

definition mpz_and_inpl :: "mpz \<Rightarrow> mpz \<Rightarrow> mpz \<Rightarrow> mpz option" where
  "mpz_and_inpl dest lhs rhs =
     (let (lhs, rhs) = (if length (dig lhs) < length (dig rhs) then (rhs, lhs) else (lhs, rhs))
      in if \<not> neg lhs \<and> \<not> neg rhs
         then do { dest \<leftarrow> mpz_need_dig dest (length (dig lhs));
                   Some (dest\<lparr>dig := mpn_and (dig lhs) (dig rhs), neg := False\<rparr>) }
         else do { dest \<leftarrow> mpz_need_dig dest (length (dig lhs) + 1);
                   Some (dest\<lparr>dig := mpn_and_neg (dig lhs) (dig rhs)
                                (of_bool (neg lhs = neg rhs)) (of_bool (neg lhs)) (of_bool (neg rhs)),
                              neg := neg lhs \<and> neg rhs\<rparr>) })"

definition mpz_or_inpl :: "mpz \<Rightarrow> mpz \<Rightarrow> mpz \<Rightarrow> mpz option" where
  "mpz_or_inpl dest lhs rhs =
     (let (lhs, rhs) = (if length (dig lhs) < length (dig rhs) then (rhs, lhs) else (lhs, rhs))
      in if \<not> neg lhs \<and> \<not> neg rhs
         then do { dest \<leftarrow> mpz_need_dig dest (length (dig lhs));
                   Some (dest\<lparr>dig := mpn_or (dig lhs) (dig rhs), neg := False\<rparr>) }
         else do { dest \<leftarrow> mpz_need_dig dest (length (dig lhs) + 1);
                   ds \<leftarrow> mpn_or_neg (dig lhs) (dig rhs) (of_bool (neg lhs)) (of_bool (neg rhs));
                   Some (dest\<lparr>dig := ds, neg := True\<rparr>) })"

definition mpz_xor_inpl :: "mpz \<Rightarrow> mpz \<Rightarrow> mpz \<Rightarrow> mpz option" where
  "mpz_xor_inpl dest lhs rhs =
     (let (lhs, rhs) = (if length (dig lhs) < length (dig rhs) then (rhs, lhs) else (lhs, rhs))
      in if neg lhs = neg rhs
         then do { dest \<leftarrow> mpz_need_dig dest (length (dig lhs));
                   Some (dest\<lparr>dig := (if \<not> neg lhs then mpn_xor (dig lhs) (dig rhs)
                                        else mpn_xor_neg (dig lhs) (dig rhs) 0 0 0), neg := False\<rparr>) }
         else do { dest \<leftarrow> mpz_need_dig dest (length (dig lhs) + 1);
                   Some (dest\<lparr>dig := mpn_xor_neg (dig lhs) (dig rhs) 1
                                (of_bool (\<not> neg lhs)) (of_bool (\<not> neg rhs)), neg := True\<rparr>) })"

definition mpz_mul_inpl :: "bool \<Rightarrow> bool \<Rightarrow> mpz \<Rightarrow> mpz \<Rightarrow> mpz \<Rightarrow> mpz option" where
  "mpz_mul_inpl lhs_is_dest rhs_is_dest dest lhs rhs =
     (if dig lhs = [] \<or> dig rhs = [] then mpz_set_from_int dest 0
      else do {
        (lhs, rhs) \<leftarrow>
          (if lhs_is_dest then do { temp \<leftarrow> mpz_clone lhs; Some (temp, if rhs_is_dest then temp else rhs) }
           else if rhs_is_dest then do { temp \<leftarrow> mpz_clone rhs; Some (lhs, temp) }
           else Some (lhs, rhs));
        dest \<leftarrow> mpz_need_dig dest (length (dig lhs) + length (dig rhs));
        Some (dest\<lparr>dig := mpn_mul (replicate (alloc dest) 0) (dig lhs) (dig rhs),
                   neg := neg lhs \<noteq> neg rhs\<rparr>)})"

text \<open>
  The structure of the remainder is \<open>dest_rem\<close>; with \<open>rem_is_lhs\<close> it is also \<open>lhs\<close>, whose sign is then
  read after the remainder has been stored.
\<close>

definition mpz_divmod_signs :: "bool \<Rightarrow> mpz \<Rightarrow> mpz \<Rightarrow> mpz \<Rightarrow> (mpz \<times> mpz) option" where
  "mpz_divmod_signs lhs_neg dest_quo dest_rem rhs =
     (if lhs_neg \<noteq> neg rhs then
        let dest_quo = dest_quo\<lparr>neg := dig dest_quo \<noteq> []\<rparr>
        in if \<not> mpz_is_zero dest_rem then do {
             mpzone \<leftarrow> mpz_init_from_int (- 1);
             dest_quo \<leftarrow> mpz_add_inpl dest_quo dest_quo mpzone;
             dest_rem \<leftarrow> mpz_add_inpl dest_rem dest_rem rhs;
             Some (dest_quo, dest_rem)}
           else Some (dest_quo, dest_rem)
      else Some (dest_quo, dest_rem))"

definition mpz_divmod_inpl :: "bool \<Rightarrow> mpz \<Rightarrow> mpz \<Rightarrow> mpz \<Rightarrow> mpz \<Rightarrow> (mpz \<times> mpz) option" where
  "mpz_divmod_inpl rem_is_lhs dest_quo dest_rem lhs rhs =
     (if mpz_is_zero rhs then None
      else do {
        dest_quo \<leftarrow> mpz_need_dig dest_quo (length (dig lhs) + 1);
        dest_rem \<leftarrow> mpz_need_dig dest_rem (length (dig lhs) + 1);
        dest_rem \<leftarrow> mpz_set dest_rem lhs;
        (r, q) \<leftarrow> mpn_div (dig dest_rem) (dig rhs);
        let dest_quo = dest_quo\<lparr>neg := False, dig := q\<rparr>;
        let dest_rem = dest_rem\<lparr>neg := neg dest_rem \<and> r \<noteq> [], dig := r\<rparr>;
        mpz_divmod_signs (if rem_is_lhs then neg dest_rem else neg lhs) dest_quo dest_rem rhs})"

section \<open>Well-formedness and allocation\<close>

text \<open>
  The result of an operation whose destination may grow: it returns, the structure is well formed and
  holds the value.
\<close>

definition computes :: "mpz option \<Rightarrow> int \<Rightarrow> bool" where
  "computes r v \<longleftrightarrow> (\<exists>z. r = Some z \<and> mpz_wf z \<and> \<not> fixed_dig z \<and> mpz_val z = v)"

named_theorems mpz_simps \<open>allocation and values of structures\<close>

lemma mpz_need_dig_eq [mpz_simps]:
  "mpz_need_dig z n = (if fixed_dig z \<and> alloc z < max n 2 then None
                       else Some (z\<lparr>alloc := max (alloc z) (max n 2)\<rparr>))"
  by (auto simp: mpz_need_dig_def Let_def max_def)

declare mpz_val_def [mpz_simps] computes_def [mpz_simps] sgv_def [mpz_simps]

lemma mpz_wf_neg: "mpz_wf z \<Longrightarrow> neg z \<Longrightarrow> 0 < mpn_val (dig z)"
  by (simp add: mpz_wf_def mpn_val_pos)

lemma mpz_wfD: "mpz_wf z \<Longrightarrow> normalised (dig z)" "mpz_wf z \<Longrightarrow> length (dig z) \<le> alloc z"
  by (simp_all add: mpz_wf_def)

lemma mpz_val_0_iff: "mpz_wf z \<Longrightarrow> (dig z = []) = (mpz_val z = 0)"
  by (auto simp: mpz_wf_def mpz_simps mpn_val_0_iff)

lemma mpz_val_neg_iff: "mpz_wf z \<Longrightarrow> neg z = (mpz_val z < 0)"
  using mpz_wf_neg [of z] mpn_val_nonneg [of "dig z"] by (auto simp: mpz_simps simp del: mpn_val_nonneg)

section \<open>Initialisation and copies\<close>

lemma uint_digits_val: "mpn_val (uint_digits n) = int n"
proof (induction n rule: uint_digits.induct)
  case (1 n)
  have "uint (of_nat (n mod 65536) :: dig) = int n mod 65536"
    by (simp add: unsigned_of_nat take_bit_eq_mod of_nat_mod)
  with 1 show ?case by (subst uint_digits.simps) (simp add: zdiv_int)
qed

lemma uint_digits_normalised: "normalised (uint_digits n)"
proof (induction n rule: uint_digits.induct)
  case (1 n)
  show ?case
  proof (cases "0 < n")
    case True
    let ?d = "of_nat (n mod 65536) :: dig" and ?ds = "uint_digits (n div 65536)"
    have e: "uint_digits n = ?d # ?ds" using True by (simp add: uint_digits.simps [of n])
    show ?thesis
    proof (cases "?ds = []")
      case t: True
      then have "uint ?d = int n" using uint_digits_val [of n] e by simp
      then show ?thesis using t True e by (auto simp: normalised_def)
    next
      case False
      then show ?thesis using 1 [OF True] e by (simp add: normalised_def)
    qed
  next
    case False
    then show ?thesis by (subst uint_digits.simps) (simp add: normalised_def)
  qed
qed

lemma length_uint_digits:
  assumes "n < 65536 ^ k"
  shows "length (uint_digits n) \<le> k"
proof -
  have "int n < 65536 ^ k" using assms by (metis of_nat_less_iff of_nat_numeral of_nat_power)
  then show ?thesis using normalised_length_le [OF uint_digits_normalised] by (simp add: uint_digits_val)
qed

lemma uint_digits_Nil: "(uint_digits n = []) = (n = 0)"
  by (simp add: uint_digits.simps [of n])

text \<open>The absolute value of a signed 32- or 64-bit word, as its negation at that width.\<close>

lemma half_word_less: "(2::int) ^ (LENGTH('a::len) - 1) < 2 ^ LENGTH('a)"
  by (rule power_strict_increasing) simp_all

lemma uint_uminus_neg:
  fixes w :: "'a::len word"
  assumes "w <s 0"
  shows "uint (- w) = - sint w"
proof -
  have s: "sint w < 0" using assms by (simp add: word_sless_alt)
  have "- w = word_of_int (- sint w)" by (simp only: of_int_minus of_int_sint scast_id)
  then have "uint (- w) = take_bit LENGTH('a) (- sint w)" by (simp only: uint_word_of_int_eq)
  moreover have "- sint w < 2 ^ LENGTH('a)" using sint_ge [of w] half_word_less [where 'a = 'a] by linarith
  ultimately show ?thesis using s by (simp add: take_bit_int_eq_self)
qed

lemma uint_nonneg:
  fixes w :: "'a::len word"
  assumes "\<not> w <s 0"
  shows "uint w = sint w"
proof -
  have s: "0 \<le> sint w" using assms by (simp add: word_sless_alt)
  moreover have "sint w < 2 ^ LENGTH('a)" using sint_lt [of w] half_word_less [where 'a = 'a] by linarith
  ultimately show ?thesis by (simp add: uint_sint take_bit_int_eq_self)
qed

lemma mpz_set_computes:
  "mpz_wf src \<Longrightarrow> \<not> fixed_dig dest \<Longrightarrow> computes (mpz_set dest src) (mpz_val src)"
  by (simp add: mpz_set_def mpz_simps mpz_wf_def)

lemma mpz_set_from_int_computes:
  assumes "\<not> fixed_dig z"
  shows "computes (mpz_set_from_int z val) (sint val)"
proof (cases "val = 0")
  case False
  let ?u = "if val <s 0 then - val else val"
  have "unat ?u < 65536 ^ 2" using unsigned_less [of ?u] by (simp add: power2_eq_square)
  then have "length (uint_digits (unat ?u)) \<le> 2" by (rule length_uint_digits)
  moreover have "mpn_val (uint_digits (unat ?u)) = \<bar>sint val\<bar>"
    using uint_uminus_neg [of val] uint_nonneg [of val] by (auto simp: uint_digits_val uint_nat [symmetric] word_sless_alt)
  moreover from this have "uint_digits (unat ?u) \<noteq> []" if "sint val < 0" using that by force
  ultimately show ?thesis using assms False
    by (auto simp: mpz_set_from_int_def mpz_simps mpz_wf_def uint_digits_normalised word_sless_alt)
qed (use assms in \<open>simp add: mpz_set_from_int_def mpz_simps mpz_wf_def normalised_def\<close>)

lemma mpz_set_from_ll_computes:
  assumes "\<not> fixed_dig z"
  shows "computes (mpz_set_from_ll z val is_signed) (if is_signed then sint val else uint val)"
proof -
  let ?u = "if is_signed \<and> val <s 0 then - val else val"
  have "unat ?u < 65536 ^ 4" using unsigned_less [of ?u] by (simp add: power_numeral_reduce)
  then have "length (uint_digits (unat ?u)) \<le> 4" by (rule length_uint_digits)
  moreover have "mpn_val (uint_digits (unat ?u)) = (if is_signed then \<bar>sint val\<bar> else uint val)"
    using uint_uminus_neg [of val] uint_nonneg [of val] by (auto simp: uint_digits_val uint_nat [symmetric] word_sless_alt)
  moreover from this have "uint_digits (unat ?u) \<noteq> []" if "sint val < 0" "is_signed" using that by force
  ultimately show ?thesis using assms
    by (auto simp: mpz_set_from_ll_def mpz_simps mpz_wf_def uint_digits_normalised word_sless_alt)
qed

section \<open>Comparison, sign and complement\<close>

lemma mpz_cmp_sgn:
  assumes "mpz_wf z1" "mpz_wf z2"
  shows "mpz_cmp z1 z2 = sgn (mpz_val z1 - mpz_val z2)"
proof -
  note pos = mpz_wf_neg [OF assms(1)] mpz_wf_neg [OF assms(2)] mpn_val_nonneg [of "dig z1"] mpn_val_nonneg [of "dig z2"]
  have c: "mpn_cmp (dig z1) (dig z2) = sgn (mpn_val (dig z1) - mpn_val (dig z2))"
    by (rule mpn_cmp_sgn) (rule mpz_wfD(1) [OF assms(1)], rule mpz_wfD(1) [OF assms(2)])
  show ?thesis
    using pos by (cases "neg z1"; cases "neg z2") (auto simp: mpz_cmp_def c mpz_simps sgn_if simp del: mpn_val_nonneg)
qed

lemma normalised_one [simp]: "normalised [1]" "mpn_val [1] = 1"
  by (simp_all add: normalised_def)

lemma mpz_abs_inpl_computes:
  "mpz_wf z \<Longrightarrow> \<not> fixed_dig (if same then z else dest) \<Longrightarrow> computes (mpz_abs_inpl same dest z) \<bar>mpz_val z\<bar>"
  by (cases same) (auto simp: mpz_abs_inpl_def mpz_set_def mpz_simps mpz_wf_def)

lemma mpz_neg_inpl_computes:
  "mpz_wf z \<Longrightarrow> \<not> fixed_dig (if same then z else dest) \<Longrightarrow> computes (mpz_neg_inpl same dest z) (- mpz_val z)"
  by (cases same) (auto simp: mpz_neg_inpl_def mpz_set_def mpz_simps mpz_wf_def)

lemma mpz_not_inpl_computes:
  assumes "mpz_wf z" "\<not> fixed_dig (if same then z else dest)"
  shows "computes (mpz_not_inpl same dest z) (NOT (mpz_val z))"
proof -
  define d where "d = (if same then z else dest\<lparr>alloc := max (alloc dest) (max (length (dig z)) 2), neg := neg z, dig := dig z\<rparr>)"
  have d: "(if same then Some z else mpz_set dest z) = Some d" "dig d = dig z" "neg d = neg z" "\<not> fixed_dig d"
    "length (dig z) \<le> alloc d"
    using assms by (auto simp: d_def mpz_set_def mpz_simps mpz_wf_def split: if_splits)
  have ne: "1 \<le> length (dig z)" "0 < mpn_val (dig z)" if "dig z \<noteq> []"
    using that mpz_wfD(1) [OF assms(1)] by (auto simp: Suc_leI mpn_val_pos)
  show ?thesis
  proof (cases "dig z = []")
    case True
    then show ?thesis using d assms(1) by (simp add: mpz_not_inpl_def mpz_simps mpz_wf_def not_int_def)
  next
    case False
    note ne = ne [OF False]
    have sub: "mpn_val (mpn_sub (dig z) [1]) = mpn_val (dig z) - 1" using ne by (subst mpn_sub_val) auto
    have add: "mpn_val (mpn_add (dig z) [1]) = mpn_val (dig z) + 1" "normalised (mpn_add (dig z) [1])"
      using ne mpz_wfD(1) [OF assms(1)] by (simp_all add: mpn_add_val mpn_add_normalised)
    then have "mpn_add (dig z) [1] \<noteq> []" using ne(2) by force
    then show ?thesis
      using d False add sub length_mpn_add [of "dig z" "[1]"] length_mpn_sub [of "dig z" "[1]"]
      by (auto simp: mpz_not_inpl_def mpz_simps mpz_wf_def not_int_def)
  qed
qed

section \<open>Addition and subtraction\<close>

lemma normalised_length_mono:
  assumes "normalised js" "normalised ks" "mpn_val ks \<le> mpn_val js"
  shows "length ks \<le> length js"
  using mpn_val_length_mono [OF assms(2), of js] assms(3) by (rule_tac ccontr) auto

lemma mpn_cmp_less: "normalised js \<Longrightarrow> normalised ks \<Longrightarrow> (mpn_cmp js ks < 0) = (mpn_val js < mpn_val ks)"
  by (simp add: mpn_cmp_sgn)

text \<open>Both operations on magnitudes that are already in order.\<close>

lemma ordered_add_sub:
  assumes "normalised js" "normalised ks" "mpn_val ks \<le> mpn_val js"
  shows "mpn_val (mpn_add js ks) = mpn_val js + mpn_val ks" "normalised (mpn_add js ks)"
    "length (mpn_add js ks) \<le> length js + 1"
    "mpn_val (mpn_sub js ks) = mpn_val js - mpn_val ks" "normalised (mpn_sub js ks)"
    "length (mpn_sub js ks) \<le> length js"
  using normalised_length_mono [OF assms] assms
  by (simp_all add: mpn_add_val mpn_add_normalised length_mpn_add [simplified] mpn_sub_val length_mpn_sub)

lemma mpz_add_inpl_computes:
  assumes "mpz_wf lhs" "mpz_wf rhs" "\<not> fixed_dig dest"
  shows "computes (mpz_add_inpl dest lhs rhs) (mpz_val lhs + mpz_val rhs)"
proof -
  define l r where "l = (if mpn_val (dig lhs) < mpn_val (dig rhs) then rhs else lhs)"
    and "r = (if mpn_val (dig lhs) < mpn_val (dig rhs) then lhs else rhs)"
  have wf: "mpz_wf l" "mpz_wf r" and le: "mpn_val (dig r) \<le> mpn_val (dig l)"
    and sum: "mpz_val lhs + mpz_val rhs = mpz_val l + mpz_val r"
    using assms by (auto simp: l_def r_def)
  note n = mpz_wfD(1) [OF wf(1)] mpz_wfD(1) [OF wf(2)]
  note as = ordered_add_sub [OF n le]
  have sw: "(if mpn_cmp (dig lhs) (dig rhs) < 0 then (rhs, lhs) else (lhs, rhs)) = (l, r)"
    using mpn_cmp_less [OF mpz_wfD(1) [OF assms(1)] mpz_wfD(1) [OF assms(2)]] by (simp add: l_def r_def)
  have "(mpn_add (dig l) (dig r) = []) = (mpn_val (dig l) + mpn_val (dig r) = 0)"
    "(mpn_sub (dig l) (dig r) = []) = (mpn_val (dig l) - mpn_val (dig r) = 0)"
    using mpn_val_0_iff [OF as(2)] mpn_val_0_iff [OF as(5)] as(1,4) by auto
  then show ?thesis
    unfolding mpz_add_inpl_def sw sum using assms(3) as mpz_wf_neg [OF wf(1)] mpz_wf_neg [OF wf(2)] mpn_val_nonneg [of "dig r"]
    by (auto simp: mpz_simps mpz_wf_def simp del: mpn_val_nonneg)
qed

lemma mpz_sub_inpl_computes:
  assumes "mpz_wf lhs" "mpz_wf rhs" "\<not> fixed_dig dest"
  shows "computes (mpz_sub_inpl dest lhs rhs) (mpz_val lhs - mpz_val rhs)"
proof -
  define n where "n \<longleftrightarrow> mpn_val (dig lhs) < mpn_val (dig rhs)"
  define l r where "l = (if n then rhs else lhs)" and "r = (if n then lhs else rhs)"
  have wf: "mpz_wf l" "mpz_wf r" and le: "mpn_val (dig r) \<le> mpn_val (dig l)"
    and dif: "mpz_val lhs - mpz_val rhs = (if n then - (mpz_val l - mpz_val r) else mpz_val l - mpz_val r)"
    using assms by (auto simp: l_def r_def n_def)
  note nn = mpz_wfD(1) [OF wf(1)] mpz_wfD(1) [OF wf(2)]
  note as = ordered_add_sub [OF nn le]
  have sw: "(if mpn_cmp (dig lhs) (dig rhs) < 0 then (rhs, lhs, True) else (lhs, rhs, False)) = (l, r, n)"
    using mpn_cmp_less [OF mpz_wfD(1) [OF assms(1)] mpz_wfD(1) [OF assms(2)]] by (simp add: l_def r_def n_def)
  have "(mpn_add (dig l) (dig r) = []) = (mpn_val (dig l) + mpn_val (dig r) = 0)"
    "(mpn_sub (dig l) (dig r) = []) = (mpn_val (dig l) - mpn_val (dig r) = 0)"
    using mpn_val_0_iff [OF as(2)] mpn_val_0_iff [OF as(5)] as(1,4) by auto
  then show ?thesis
    unfolding mpz_sub_inpl_def sw dif using assms(3) as mpz_wf_neg [OF wf(1)] mpz_wf_neg [OF wf(2)] mpn_val_nonneg [of "dig r"]
    by (auto simp: mpz_simps mpz_wf_def simp del: mpn_val_nonneg)
qed

section \<open>Shifts\<close>

lemma mpz_shl_inpl_computes:
  assumes "mpz_wf lhs" "\<not> fixed_dig dest" "rhs + 15 < 2 ^ 32"
  shows "computes (mpz_shl_inpl dest lhs rhs) (push_bit rhs (mpz_val lhs))"
proof (cases "dig lhs = [] \<or> rhs = 0")
  case True
  then have "push_bit rhs (mpz_val lhs) = mpz_val lhs" by (auto simp: mpz_val_def sgv_def)
  then show ?thesis using True mpz_set_computes [OF assms(1,2)] by (simp add: mpz_shl_inpl_def)
next
  case False
  have v: "mpn_val (mpn_shl (dig lhs) rhs) = mpn_val (dig lhs) * 2 ^ rhs"
    using False by (simp add: mpn_shl_val)
  have "mpn_shl (dig lhs) rhs \<noteq> []" 
    using False v mpn_val_pos [OF mpz_wfD(1) [OF assms(1)]] by force
  moreover have "u32 (rhs + DIG_SIZE - 1) = rhs + DIG_SIZE - 1" using assms(3) by (intro u32_id) simp
  ultimately show ?thesis
    using False assms(1,2) v length_mpn_shl [of rhs "dig lhs"] unfolding push_bit_eq_mult
    by (simp add: mpz_shl_inpl_def mpz_simps mpz_wf_def le_max_iff_disj)
qed

lemma mpn_val_take_mod: "mpn_val (take n ds) = mpn_val ds mod 65536 ^ n"
proof (cases "n \<le> length ds")
  case True
  have "mpn_val ds = mpn_val (take n ds) + 65536 ^ n * mpn_val (drop n ds)" by (rule mpn_val_take_drop [OF True])
  moreover have "mpn_val (take n ds) < 65536 ^ n" using mpn_val_less [of "take n ds"] True by simp
  ultimately show ?thesis using mpn_val_nonneg [of "take n ds"] by (metis mod_mult_self2 mod_pos_pos_trivial)
next
  case False
  have "(65536::int) ^ length ds \<le> 65536 ^ n" using False by (intro power_increasing) auto
  then have "mpn_val ds < 65536 ^ n" using mpn_val_less [of ds] by linarith
  then show ?thesis using False by simp
qed

lemma mpn_val_eq_0: "mpn_val ds = 0 \<longleftrightarrow> (\<forall>d \<in> set ds. d = 0)"
proof (induction ds)
  case (Cons d ds)
  have "uint d + 65536 * mpn_val ds = 0 \<longleftrightarrow> uint d = 0 \<and> mpn_val ds = 0"
    using uint_ge_0 [of d] mpn_val_nonneg [of ds] by linarith
  with Cons show ?case by (simp add: uint_0_iff)
qed simp

lemma dig_and_mask: "(d AND (2 ^ p - 1) = 0) = (uint (d :: dig) mod 2 ^ p = 0)"
proof -
  have "d AND (2 ^ p - 1) = take_bit p d" by (simp add: take_bit_eq_mask mask_eq_exp_minus_1)
  moreover have "uint (take_bit p d) = uint d mod 2 ^ p" by (simp only: unsigned_take_bit_eq) (simp add: take_bit_eq_mod)
  ultimately show ?thesis by (metis uint_0_iff)
qed

lemma mpz_shr_round_up_iff:
  "mpz_shr_round_up ds (n div DIG_SIZE) (n mod DIG_SIZE) \<longleftrightarrow> mpn_val ds mod 2 ^ n \<noteq> 0"
proof -
  let ?w = "n div DIG_SIZE" and ?p = "n mod DIG_SIZE"
  have "(2::int) ^ n = 2 ^ (16 * ?w + ?p)" by simp
  also have "\<dots> = 65536 ^ ?w * 2 ^ ?p" by (simp only: power_add power_mult) simp
  finally have e: "mpn_val ds mod 2 ^ n = 65536 ^ ?w * (mpn_val (drop ?w ds) mod 2 ^ ?p) + mpn_val (take ?w ds)"
    by (simp only: zmod_zmult2_eq zero_le_power zero_le_numeral mpn_val_drop mpn_val_take_mod)
  have h: "mpn_val (drop ?w ds) mod 2 ^ ?p = uint (ds ! ?w) mod 2 ^ ?p" if "?w < length ds"
  proof -
    have "drop ?w ds = ds ! ?w # drop (Suc ?w) ds" using that by (rule Cons_nth_drop_Suc [symmetric])
    moreover have "(65536::int) = 2 ^ ?p * 2 ^ (16 - ?p)" by (simp flip: power_add)
    then have "(2::int) ^ ?p dvd 65536 * x" for x by (metis dvd_triv_left mult.assoc)
    ultimately show ?thesis by (simp add: mod_add_right_eq [of _ "65536 * _", symmetric])
  qed
  have "mpn_val ds mod 2 ^ n = 0 \<longleftrightarrow> mpn_val (drop ?w ds) mod 2 ^ ?p = 0 \<and> mpn_val (take ?w ds) = 0"
  proof -
    have "0 \<le> 65536 ^ ?w * (mpn_val (drop ?w ds) mod 2 ^ ?p)" by simp
    then show ?thesis unfolding e using mpn_val_nonneg [of "take ?w ds"]
      by (auto simp: add_nonneg_eq_0_iff)
  qed
  also have "\<dots> \<longleftrightarrow> \<not> mpz_shr_round_up ds ?w ?p"
  proof (cases "?w < length ds")
    case True
    show ?thesis unfolding h [OF True] dig_and_mask [symmetric] mpn_val_eq_0
      using True by (simp add: mpz_shr_round_up_def list_ex_iff) blast
  qed (simp add: mpz_shr_round_up_def mpn_val_eq_0 list_ex_iff)
  finally show ?thesis by (cases "mpz_shr_round_up ds ?w ?p") simp_all
qed

lemma neg_floor_div:
  assumes "0 < (b::int)"
  shows "(- a) div b = - (a div b + of_bool (a mod b \<noteq> 0))"
  using assms by (simp add: zdiv_zminus1_eq_if)

lemma mpz_shr_inpl_computes:
  assumes "mpz_wf lhs" "\<not> fixed_dig dest"
  shows "computes (mpz_shr_inpl False dest lhs rhs) (drop_bit rhs (mpz_val lhs))"
proof (cases "dig lhs = [] \<or> rhs = 0")
  case True
  then have "drop_bit rhs (mpz_val lhs) = mpz_val lhs" by (auto simp: mpz_val_def sgv_def)
  then show ?thesis using True mpz_set_computes [OF assms] by (simp add: mpz_shr_inpl_def)
next
  case False
  let ?ds = "mpn_shr (dig lhs) rhs" and ?R = "mpz_shr_round_up (dig lhs) (rhs div DIG_SIZE) (rhs mod DIG_SIZE)"
  have v: "mpn_val ?ds = mpn_val (dig lhs) div 2 ^ rhs" "normalised ?ds" "length ?ds \<le> length (dig lhs)"
    using mpz_wfD(1) [OF assms(1)] by (simp_all add: mpn_shr_val mpn_shr_normalised length_mpn_shr)
  let ?es = "if ?ds = [] then [1] else mpn_add ?ds [1]"
  have es: "mpn_val ?es = mpn_val ?ds + 1" "normalised ?es" "?es \<noteq> []"
  proof -
    show 1: "mpn_val ?es = mpn_val ?ds + 1" by (simp add: mpn_add_val Suc_leI)
    show "normalised ?es" using v(2) by (simp add: mpn_add_normalised Suc_leI)
    show "?es \<noteq> []" using 1 mpn_val_nonneg [of ?ds] by force
  qed
  have room: "length ?es \<le> length (dig lhs)"
  proof -
    have "mpn_val (dig lhs) div 2 ^ rhs < mpn_val (dig lhs)"
      using False mpn_val_pos [OF mpz_wfD(1) [OF assms(1)]] by (intro int_div_less_self) auto
    then show ?thesis using es v(1) mpz_wfD(1) [OF assms(1)] by (intro normalised_length_mono) auto
  qed
  have nz: "?ds \<noteq> [] \<or> ?R" if "neg lhs"
    using that mpz_wf_neg [OF assms(1)] v(1) unfolding mpz_shr_round_up_iff
    by (metis add.left_neutral div_mult_mod_eq less_irrefl mpn_val.simps(1) mult_zero_left)
  show ?thesis
  proof (cases "neg lhs")
    case True
    then show ?thesis using False assms es room nz v
      by (auto simp: mpz_shr_inpl_def mpz_simps mpz_wf_def drop_bit_eq_div neg_floor_div mpz_shr_round_up_iff Let_def simp del: mpn_val_nonneg)
  next
    case n: False
    then show ?thesis using False assms v
      by (auto simp: mpz_shr_inpl_def mpz_simps mpz_wf_def drop_bit_eq_div)
  qed
qed

end
