(* ===== verification/Mpz_Arith.thy ===== *)
theory Mpz_Arith
  imports Mpz
begin

text \<open>
  The bitwise, multiplicative and exponentiation operations of \<^verbatim>\<open>py/mpz.c\<close>: each computes the
  operation of Python on unbounded integers (infinite two's complement for the bitwise ones, floor
  division and the modulus of the divisor's sign for \<^verbatim>\<open>mpz_divmod_inpl\<close>).
\<close>

section \<open>Bitwise operations\<close>

text \<open>The operand with more digits goes first; the operations are commutative.\<close>

definition longer :: "mpz \<Rightarrow> mpz \<Rightarrow> mpz \<times> mpz" where
  "longer lhs rhs = (if length (dig lhs) < length (dig rhs) then (rhs, lhs) else (lhs, rhs))"

lemma longer_cases:
  assumes "mpz_wf lhs" "mpz_wf rhs"
  obtains l r where "longer lhs rhs = (l, r)" "mpz_wf l" "mpz_wf r" "length (dig r) \<le> length (dig l)"
    "(l = lhs \<and> r = rhs) \<or> (l = rhs \<and> r = lhs)"
  using assms by (cases "length (dig lhs) < length (dig rhs)") (auto simp: longer_def)

lemma computesI:
  assumes "\<not> fixed_dig z" "normalised (dig z)" "length (dig z) \<le> alloc z" "mpn_val (dig z) = \<bar>v\<bar>" "neg z = (v < 0)"
  shows "computes (Some z) v"
  using assms by (auto simp: computes_def mpz_wf_def mpz_val_def sgv_def)

lemma normalised_bitwise [simp]:
  "normalised (mpn_and js ks)" "normalised (mpn_and_neg js ks ci cj ck)"
  "normalised (mpn_xor js ks)" "normalised (mpn_xor_neg js ks ci cj ck)"
  by (simp_all add: mpn_and_def mpn_and_neg_def mpn_xor_def mpn_xor_neg_def)

lemma length_bitwise_room [simp]:
  "length (mpn_and_neg js ks ci cj ck) \<le> Suc (max (length js) n)"
  "length (mpn_xor_neg js ks ci cj ck) \<le> Suc (max (length js) n)"
  using length_mpn_and_neg [of js ks ci cj ck] length_mpn_xor_neg [of js ks ci cj ck] by linarith+

lemma and_sign:
  assumes "mpz_wf l" "mpz_wf r"
  shows "(neg l \<and> neg r) = (mpz_val l AND mpz_val r < 0)" "(neg l \<or> neg r) = (mpz_val l OR mpz_val r < 0)"
    "(neg l \<noteq> neg r) = (mpz_val l XOR mpz_val r < 0)"
  using mpz_val_neg_iff [OF assms(1)] mpz_val_neg_iff [OF assms(2)]
  by (auto simp: and_negative_int_iff or_negative_int_iff xor_negative_int_iff)

lemma mpz_val_nonneg: "\<not> neg z \<Longrightarrow> mpz_val z = mpn_val (dig z)"
  by (simp add: mpz_val_def sgv_def)

lemma mpz_and_inpl_computes:
  assumes "mpz_wf lhs" "mpz_wf rhs" "\<not> fixed_dig dest"
  shows "computes (mpz_and_inpl dest lhs rhs) (mpz_val lhs AND mpz_val rhs)"
proof -
  obtain l r where lr: "longer lhs rhs = (l, r)" "mpz_wf l" "mpz_wf r" "length (dig r) \<le> length (dig l)"
    "(l = lhs \<and> r = rhs) \<or> (l = rhs \<and> r = lhs)" using longer_cases [OF assms(1,2)] .
  have c: "mpz_val lhs AND mpz_val rhs = mpz_val l AND mpz_val r" using lr(5) by (auto simp: and.commute)
  note s = and_sign(1) [OF lr(2,3)]
  show ?thesis
  proof (cases "neg l \<or> neg r")
    case False
    have "mpn_val (mpn_and (dig l) (dig r)) = mpz_val l AND mpz_val r"
      using False by (simp add: mpn_and_def mpn_and_loop_val mpz_val_nonneg)
    then show ?thesis
      using False lr(1) assms(3) s length_mpn_and [of "dig l" "dig r"] unfolding c
      by (auto simp: mpz_and_inpl_def longer_def mpz_need_dig_eq le_max_iff_disj intro!: computesI
          simp del: and_negative_int_iff or_negative_int_iff xor_negative_int_iff)
  next
    case True
    let ?d = "mpn_and_neg (dig l) (dig r) (of_bool (neg l = neg r)) (of_bool (neg l)) (of_bool (neg r))"
    have "mpn_val ?d = \<bar>mpz_val l AND mpz_val r\<bar>"
      using mpn_and_neg_val [of "neg l" "dig l" "neg r" "dig r"] mpz_wf_neg lr(2-4) True by (simp add: mpz_val_def)
    then show ?thesis
      using True lr(1) assms(3) s unfolding c
      by (auto simp: mpz_and_inpl_def longer_def mpz_need_dig_eq le_max_iff_disj intro!: computesI
          simp del: and_negative_int_iff or_negative_int_iff xor_negative_int_iff)
  qed
qed

lemma mpz_or_inpl_computes:
  assumes "mpz_wf lhs" "mpz_wf rhs" "\<not> fixed_dig dest"
  shows "computes (mpz_or_inpl dest lhs rhs) (mpz_val lhs OR mpz_val rhs)"
proof -
  obtain l r where lr: "longer lhs rhs = (l, r)" "mpz_wf l" "mpz_wf r" "length (dig r) \<le> length (dig l)"
    "(l = lhs \<and> r = rhs) \<or> (l = rhs \<and> r = lhs)" using longer_cases [OF assms(1,2)] .
  have c: "mpz_val lhs OR mpz_val rhs = mpz_val l OR mpz_val r" using lr(5) by (auto simp: or.commute)
  note s = and_sign(2) [OF lr(2,3)]
  show ?thesis
  proof (cases "neg l \<or> neg r")
    case False
    have "mpn_val (mpn_or (dig l) (dig r)) = mpz_val l OR mpz_val r" "normalised (mpn_or (dig l) (dig r))"
      using False lr(2-4) by (simp_all add: mpn_or_val mpz_val_nonneg mpn_or_normalised mpz_wfD)
    then show ?thesis
      using False lr(1,4) assms(3) s length_mpn_or [of "dig r" "dig l"] unfolding c
      by (auto simp: mpz_or_inpl_def longer_def mpz_need_dig_eq le_max_iff_disj intro!: computesI
          simp del: and_negative_int_iff or_negative_int_iff xor_negative_int_iff)
  next
    case True
    obtain ds where ds: "mpn_or_neg (dig l) (dig r) (of_bool (neg l)) (of_bool (neg r)) = Some ds"
      "normalised ds" "length ds \<le> length (dig l)" "mpn_val ds = - (mpz_val l OR mpz_val r)"
      using mpn_or_neg_val [of "neg l" "dig l" "neg r" "dig r"] mpz_wf_neg lr(2-4) True by (auto simp: mpz_val_def)
    then show ?thesis
      using True lr(1) assms(3) s unfolding c
      by (auto simp: mpz_or_inpl_def longer_def mpz_need_dig_eq le_max_iff_disj intro!: computesI
          simp del: and_negative_int_iff or_negative_int_iff xor_negative_int_iff)
  qed
qed

lemma mpz_xor_inpl_computes:
  assumes "mpz_wf lhs" "mpz_wf rhs" "\<not> fixed_dig dest"
  shows "computes (mpz_xor_inpl dest lhs rhs) (mpz_val lhs XOR mpz_val rhs)"
proof -
  obtain l r where lr: "longer lhs rhs = (l, r)" "mpz_wf l" "mpz_wf r" "length (dig r) \<le> length (dig l)"
    "(l = lhs \<and> r = rhs) \<or> (l = rhs \<and> r = lhs)" using longer_cases [OF assms(1,2)] .
  have c: "mpz_val lhs XOR mpz_val rhs = mpz_val l XOR mpz_val r" using lr(5) by (auto simp: xor.commute)
  note s = and_sign(3) [OF lr(2,3)]
  have neg: "mpn_val (mpn_xor_neg (dig l) (dig r) (of_bool (neg l \<noteq> neg r)) (of_bool (\<not> neg l)) (of_bool (\<not> neg r)))
      = \<bar>mpz_val l XOR mpz_val r\<bar>" if "neg l \<or> neg r"
    using mpn_xor_neg_val [of "neg l" "dig l" "neg r" "dig r"] mpz_wf_neg lr(2-4) that by (simp add: mpz_val_def)
  consider "\<not> neg l" "\<not> neg r" | "neg l" "neg r" | "neg l \<noteq> neg r" by blast
  then show ?thesis
  proof cases
    case 1
    have "mpn_val (mpn_xor (dig l) (dig r)) = mpz_val l XOR mpz_val r"
      using 1 lr(4) by (simp add: mpn_xor_def mpn_xor_loop_val mpz_val_nonneg)
    then show ?thesis
      using 1 lr(1,4) assms(3) s length_mpn_xor [of "dig r" "dig l"] unfolding c
      by (auto simp: mpz_xor_inpl_def longer_def mpz_need_dig_eq le_max_iff_disj intro!: computesI
          simp del: and_negative_int_iff or_negative_int_iff xor_negative_int_iff)
  next
    case 2
    have "length (mpn_xor_neg (dig l) (dig r) 0 0 0) \<le> length (dig l)"
      using length_mpn_xor_neg_both [OF mpz_wf_neg [OF lr(2) 2(1)] mpz_wf_neg [OF lr(3) 2(2)] lr(4)]
        length_strip_le [of "mpn_xor_neg_loop 0 0 0 (dig l) (dig r)"] by (simp add: mpn_xor_neg_def)
    then show ?thesis
      using 2 lr(1,4) assms(3) s neg unfolding c
      by (auto simp: mpz_xor_inpl_def longer_def mpz_need_dig_eq le_max_iff_disj intro!: computesI
          simp del: and_negative_int_iff or_negative_int_iff xor_negative_int_iff)
  next
    case 3
    then have "neg l \<or> neg r" by blast
    with 3 show ?thesis
      using lr(1,4) assms(3) s neg unfolding c
      by (auto simp: mpz_xor_inpl_def longer_def mpz_need_dig_eq le_max_iff_disj intro!: computesI
          simp del: and_negative_int_iff or_negative_int_iff xor_negative_int_iff)
  qed
qed

section \<open>Multiplication\<close>

lemma mpz_mul_inpl_computes:
  assumes "mpz_wf lhs" "mpz_wf rhs" "\<not> fixed_dig dest" and same: "ld \<Longrightarrow> rd \<Longrightarrow> lhs = rhs"
  shows "computes (mpz_mul_inpl ld rd dest lhs rhs) (mpz_val lhs * mpz_val rhs)"
proof (cases "dig lhs = [] \<or> dig rhs = []")
  case True
  then have z: "mpz_val lhs * mpz_val rhs = 0" by (auto simp: mpz_simps)
  show ?thesis unfolding z using True mpz_set_from_int_computes [OF assms(3), of 0] by (simp add: mpz_mul_inpl_def)
next
  case False
  then have al: "alloc lhs \<noteq> 0" "alloc rhs \<noteq> 0"
    using mpz_wfD(2) [OF assms(1)] mpz_wfD(2) [OF assms(2)] by (auto simp flip: length_greater_0_conv)
  define m where "m = max (alloc dest) (max (length (dig lhs) + length (dig rhs)) 2)"
  let ?d = "mpn_mul (replicate m 0) (dig lhs) (dig rhs)"
  have d: "mpn_val ?d = mpn_val (dig lhs) * mpn_val (dig rhs)" "normalised ?d"
      "length ?d \<le> length (dig lhs) + length (dig rhs)"
    using mpn_mul_val_normalised [of "dig rhs" "dig lhs" m] False mpz_wfD(1) assms(1,2) by (simp_all add: m_def)
  have "0 < mpn_val (dig lhs)" "0 < mpn_val (dig rhs)" using False assms mpn_val_pos mpz_wfD(1) by blast+
  then have v: "mpn_val ?d = \<bar>mpz_val lhs * mpz_val rhs\<bar>" "neg lhs \<noteq> neg rhs \<longleftrightarrow> mpz_val lhs * mpz_val rhs < 0"
    using d(1) by (auto simp: mpz_simps abs_mult mult_less_0_iff)
  have "mpz_mul_inpl ld rd dest lhs rhs = Some (dest\<lparr>alloc := m, dig := ?d, neg := neg lhs \<noteq> neg rhs\<rparr>)"
    using False al assms(3) same by (auto simp add: mpz_mul_inpl_def mpz_clone_def mpz_need_dig_eq m_def)
  then show ?thesis using assms(3) d(2,3) v by (auto intro!: computesI simp: m_def)
qed

section \<open>Division\<close>

lemma floor_div_signs:
  fixes a b :: int
  assumes "0 < b"
  shows "(- a) div b = - (a div b) - of_bool (a mod b \<noteq> 0)" "a div (- b) = - (a div b) - of_bool (a mod b \<noteq> 0)"
    "(- a) mod b = (if a mod b = 0 then 0 else b - a mod b)" "a mod (- b) = (if a mod b = 0 then 0 else a mod b - b)"
  using assms by (simp_all add: zdiv_zminus1_eq_if zdiv_zminus2_eq_if zmod_zminus1_eq_if zmod_zminus2_eq_if)

lemma mpz_divmod_signs_spec:
  assumes "mpz_wf q0" "\<not> fixed_dig q0" "\<not> neg q0" "mpz_wf r0" "\<not> fixed_dig r0" "mpz_wf rhs"
  shows "\<exists>q r. mpz_divmod_signs ln q0 r0 rhs = Some (q, r)
           \<and> mpz_wf q \<and> \<not> fixed_dig q \<and> mpz_wf r \<and> \<not> fixed_dig r
           \<and> mpz_val q = (if ln = neg rhs then mpz_val q0 else - mpz_val q0 - of_bool (mpz_val r0 \<noteq> 0))
           \<and> mpz_val r = (if ln = neg rhs \<or> mpz_val r0 = 0 then mpz_val r0 else mpz_val r0 + mpz_val rhs)"
proof (cases "ln = neg rhs")
  case True
  then show ?thesis using assms by (auto simp: mpz_divmod_signs_def)
next
  case False
  let ?Q = "q0\<lparr>neg := dig q0 \<noteq> []\<rparr>"
  have Q: "mpz_wf ?Q" "\<not> fixed_dig ?Q" "mpz_val ?Q = - mpz_val q0"
    using assms(1-3) by (auto simp: mpz_wf_def mpz_simps)
  have z: "mpz_is_zero r0 = (mpz_val r0 = 0)" using mpz_val_0_iff [OF assms(4)] by (simp add: mpz_is_zero_def)
  obtain one where one: "mpz_init_from_int (- 1) = Some one" "mpz_wf one" "mpz_val one = - 1"
    using mpz_set_from_int_computes [of mpz_init_zero "- 1"]
    by (auto simp: mpz_init_from_int_def computes_def mpz_init_zero_def)
  obtain q where q: "mpz_add_inpl ?Q ?Q one = Some q" "mpz_wf q" "\<not> fixed_dig q" "mpz_val q = - mpz_val q0 - 1"
    using mpz_add_inpl_computes [OF Q(1) one(2) Q(2)] Q(3) one(3) by (auto simp: computes_def)
  obtain r where r: "mpz_add_inpl r0 r0 rhs = Some r" "mpz_wf r" "\<not> fixed_dig r" "mpz_val r = mpz_val r0 + mpz_val rhs"
    using mpz_add_inpl_computes [OF assms(4,6,5)] by (auto simp: computes_def)
  show ?thesis
    using False Q q r one assms(4,5) z by (cases "mpz_val r0 = 0") (auto simp: mpz_divmod_signs_def)
qed

text \<open>
  The remainder is right also when it is stored over \<open>lhs\<close>; the quotient only when it is not, since its
  sign depends on a field the remainder has overwritten.
\<close>

lemma mpz_divmod_inpl_spec:
  assumes "mpz_wf lhs" "mpz_wf rhs" "\<not> fixed_dig dq" "\<not> fixed_dig dr" "mpz_val rhs \<noteq> 0"
  shows "\<exists>q r. mpz_divmod_inpl alias dq dr lhs rhs = Some (q, r)
           \<and> mpz_wf q \<and> \<not> fixed_dig q \<and> (\<not> alias \<longrightarrow> mpz_val q = mpz_val lhs div mpz_val rhs)
           \<and> mpz_wf r \<and> \<not> fixed_dig r \<and> mpz_val r = mpz_val lhs mod mpz_val rhs"
proof -
  have rne: "dig rhs \<noteq> []" using assms(2,5) mpz_val_0_iff by blast
  note n = mpz_wfD(1) [OF assms(1)] mpz_wfD(1) [OF assms(2)]
  let ?a = "mpn_val (dig lhs)" and ?b = "mpn_val (dig rhs)"
  have b: "0 < ?b" using mpn_val_pos [OF n(2) rne] .
  obtain r q where d: "mpn_div (dig lhs) (dig rhs) = Some (r, q)" "normalised r" "normalised q"
      "mpn_val q = ?a div ?b" "mpn_val r = ?a mod ?b" "length r \<le> length (dig lhs)" "length q \<le> length (dig lhs)"
    using mpn_div_val [OF n rne] by blast
  have r0: "(r = []) = (?a mod ?b = 0)" using mpn_val_0_iff [OF d(2)] d(5) by auto
  define m where "m = Suc (max (length (dig lhs)) (Suc 0))"
  define Q where "Q = dq\<lparr>alloc := max (alloc dq) m, neg := False, dig := q\<rparr>"
  define R where "R = dr\<lparr>alloc := max (alloc dr) m, neg := neg lhs \<and> r \<noteq> [], dig := r\<rparr>"
  define ln where "ln = (if alias then neg lhs \<and> r \<noteq> [] else neg lhs)"
  have Q: "mpz_wf Q" "\<not> fixed_dig Q" "\<not> neg Q" "mpz_val Q = ?a div ?b"
    using d assms(3) by (auto simp: Q_def mpz_wf_def m_def mpz_simps)
  have R: "mpz_wf R" "\<not> fixed_dig R" "mpz_val R = (if neg lhs then - (?a mod ?b) else ?a mod ?b)"
    using d assms(4) r0 by (auto simp: R_def mpz_wf_def m_def mpz_simps)
  have "max (max (alloc dr) m) (max (length (dig lhs)) 2) = max (alloc dr) m" by (simp add: m_def max_def)
  then have eq: "mpz_divmod_inpl alias dq dr lhs rhs = mpz_divmod_signs ln Q R rhs"
    using assms(3,4) d(1) rne
    by (simp add: mpz_divmod_inpl_def mpz_is_zero_def mpz_need_dig_eq mpz_set_def Q_def R_def ln_def
        flip: m_def)
  obtain q' r' where s: "mpz_divmod_signs ln Q R rhs = Some (q', r')" "mpz_wf q'" "\<not> fixed_dig q'" "mpz_wf r'" "\<not> fixed_dig r'"
      "mpz_val q' = (if ln = neg rhs then mpz_val Q else - mpz_val Q - of_bool (mpz_val R \<noteq> 0))"
      "mpz_val r' = (if ln = neg rhs \<or> mpz_val R = 0 then mpz_val R else mpz_val R + mpz_val rhs)"
    using mpz_divmod_signs_spec [OF Q(1-3) R(1,2) assms(2), of ln] by blast
  have "mpz_val r' = mpz_val lhs mod mpz_val rhs"
    unfolding s(7) R(3) ln_def using r0 floor_div_signs [OF b, of ?a]
    by (cases "neg lhs"; cases "neg rhs") (auto simp: mpz_simps)
  moreover have "mpz_val q' = mpz_val lhs div mpz_val rhs" if "\<not> alias"
    unfolding s(6) R(3) Q(4) ln_def using that floor_div_signs [OF b, of ?a]
    by (cases "neg lhs"; cases "neg rhs") (auto simp: mpz_simps)
  ultimately show ?thesis using s(1-5) eq by auto
qed

section \<open>Exponentiation\<close>

text \<open>
  The loop that \<^verbatim>\<open>mpz_pow_inpl\<close> and \<^verbatim>\<open>mpz_pow3_inpl\<close> share: \<open>mul\<close> multiplies the destination by the
  base, \<open>sq\<close> squares the base, \<open>n\<close> is the exponent, shifted right once per turn.
\<close>

lemma mpn_shr_decreases:
  assumes "n \<noteq> []"
  shows "nat (mpn_val (mpn_shr n 1)) + length (mpn_shr n 1) < nat (mpn_val n) + length n"
proof (cases "mpn_val n = 0")
  case True
  let ?i = "mpn_shr_loop 1 n"
  have "mpn_val ?i = 0" using True by (simp add: mpn_shr_loop_val)
  moreover have "?i \<noteq> []" using assms by (simp flip: length_greater_0_conv)
  ultimately have "last ?i = 0" by (simp add: mpn_val_eq_0)
  then have "length (mpn_shr n 1) < length n" using assms by (simp add: mpn_shr_def Let_def)
  then show ?thesis using True by (simp add: mpn_shr_val)
next
  case False
  then have "mpn_val n div 2 < mpn_val n" using mpn_val_nonneg [of n] by linarith
  then show ?thesis using length_mpn_shr [of n 1] by (simp add: mpn_shr_val)
qed

function pow_loop :: "('s \<Rightarrow> 's option) \<Rightarrow> ('s \<Rightarrow> 's option) \<Rightarrow> 's \<Rightarrow> dig list \<Rightarrow> 's option" where
  "pow_loop mul sq s n =
     (if n = [] then Some s
      else case (if hd n AND 1 \<noteq> 0 then mul s else Some s) of
             None \<Rightarrow> None
           | Some s \<Rightarrow>
               if mpn_shr n 1 = [] then Some s
               else case sq s of None \<Rightarrow> None | Some s \<Rightarrow> pow_loop mul sq s (mpn_shr n 1))"
  by auto
termination
  by (relation "measure (\<lambda>(_, _, _, n). nat (mpn_val n) + length n)") (auto dest: mpn_shr_decreases)

declare pow_loop.simps [simp del]

definition mpz_pow_inpl :: "mpz \<Rightarrow> mpz \<Rightarrow> mpz \<Rightarrow> mpz option" where
  "mpz_pow_inpl dest lhs rhs =
     (if dig lhs = [] \<or> neg rhs then mpz_set_from_int dest 0
      else if dig rhs = [] then mpz_set_from_int dest 1
      else do {
        x \<leftarrow> mpz_clone lhs;
        n \<leftarrow> mpz_clone rhs;
        dest \<leftarrow> mpz_set_from_int dest 1;
        (dest, x) \<leftarrow> pow_loop
          (\<lambda>(dest, x). do { dest \<leftarrow> mpz_mul_inpl True False dest dest x; Some (dest, x) })
          (\<lambda>(dest, x). do { x \<leftarrow> mpz_mul_inpl True True x x x; Some (dest, x) })
          (dest, x) (dig n);
        Some dest})"

definition mpz_pow3_inpl :: "mpz \<Rightarrow> mpz \<Rightarrow> mpz \<Rightarrow> mpz \<Rightarrow> mpz option" where
  "mpz_pow3_inpl dest lhs rhs modulus =
     (if dig lhs = [] \<or> neg rhs \<or> dig modulus = [1] then mpz_set_from_int dest 0
      else do {
        dest \<leftarrow> mpz_set_from_int dest 1;
        if dig rhs = [] then Some dest
        else do {
          x \<leftarrow> mpz_clone lhs;
          n \<leftarrow> mpz_clone rhs;
          (dest, x, quo) \<leftarrow> pow_loop
            (\<lambda>(dest, x, quo). do {
               dest \<leftarrow> mpz_mul_inpl True False dest dest x;
               (quo, dest) \<leftarrow> mpz_divmod_inpl True quo dest dest modulus;
               Some (dest, x, quo) })
            (\<lambda>(dest, x, quo). do {
               x \<leftarrow> mpz_mul_inpl True True x x x;
               (quo, x) \<leftarrow> mpz_divmod_inpl True quo x x modulus;
               Some (dest, x, quo) })
            (dest, x, mpz_init_zero) (dig n);
          Some dest}})"

text \<open>
  What the loop needs of its two operations: the values of the destination and of the base, modulo
  \<open>M\<close> (0 for the exact power), an invariant, and what holds of a destination just multiplied.
\<close>

locale square_multiply =
  fixes M :: int and D X :: "'s \<Rightarrow> int" and ok red :: "'s \<Rightarrow> bool"
    and mul sq :: "'s \<Rightarrow> 's option"
  assumes mul_law: "ok s \<Longrightarrow> \<exists>s'. mul s = Some s' \<and> ok s' \<and> red s' \<and> X s' = X s \<and> D s' mod M = (D s * X s) mod M"
    and sq_law: "ok s \<Longrightarrow> \<exists>s'. sq s = Some s' \<and> ok s' \<and> D s' = D s \<and> X s' mod M = (X s * X s) mod M"
begin

lemma pow_step:
  fixes v d x :: int
  assumes "0 \<le> v"
  shows "d * x ^ nat v = d * (if odd v then x else 1) * (x * x) ^ nat (v div 2)"
proof -
  have "nat v = nat (v mod 2) + 2 * nat (v div 2)" using assms by (simp add: nat_mod_distrib nat_div_distrib)
  then have "x ^ nat v = x ^ nat (v mod 2) * (x * x) ^ nat (v div 2)"
    by (simp only: power_add power_mult power2_eq_square)
  also have "x ^ nat (v mod 2) = (if odd v then x else 1)"
  proof (cases "even v")
    case True
    then have "v mod 2 = 0" by presburger
    with True show ?thesis by simp
  next
    case False
    then have "v mod 2 = 1" by presburger
    with False show ?thesis by simp
  qed
  finally show ?thesis by (simp add: mult.assoc)
qed

lemma mult_mod_cong: "(a::int) mod M = b mod M \<Longrightarrow> c mod M = d mod M \<Longrightarrow> (a * c) mod M = (b * d) mod M"
  by (rule mod_mult_cong)

lemma pow_loop_power:
  assumes "ok s" "normalised n"
  shows "\<exists>s'. pow_loop mul sq s n = Some s' \<and> ok s' \<and> (n \<noteq> [] \<longrightarrow> red s')
           \<and> D s' mod M = D s * X s ^ nat (mpn_val n) mod M"
  using assms
proof (induction "nat (mpn_val n) + length n" arbitrary: s n rule: less_induct)
  case less
  show ?case
  proof (cases "n = []")
    case True
    then show ?thesis using less(2) by (auto simp: pow_loop.simps [of mul sq s "[]"])
  next
    case False
    let ?v = "mpn_val n" and ?m = "mpn_shr n 1"
    have odd: "hd n AND 1 \<noteq> 0 \<longleftrightarrow> odd ?v"
    proof -
      have "?v mod 2 = uint (hd n) mod 2" 
        using False mod_mult_self2 [of "uint (hd n)" 2 "32768 * mpn_val (tl n)"] by (cases n) simp_all
      then show ?thesis using dig_and_mask [of "hd n" 1] by (simp add: even_iff_mod_2_eq_zero)
    qed
    have mv: "mpn_val ?m = ?v div 2" "normalised ?m" using less(3) by (simp_all add: mpn_shr_val mpn_shr_normalised)
    obtain s1 where s1: "(if hd n AND 1 \<noteq> 0 then mul s else Some s) = Some s1" "ok s1" "odd ?v \<longrightarrow> red s1"
        "X s1 = X s" "D s1 mod M = (D s * (if odd ?v then X s else 1)) mod M"
      using mul_law [OF less(2)] less(2) odd by (cases "odd ?v") auto
    show ?thesis
    proof (cases "?m = []")
      case True
      then have "?v = 1" using mv(1) mpn_val_pos [OF less(3) False] by simp
      then show ?thesis using s1 True False by (simp add: pow_loop.simps [of mul sq s n])
    next
      case m: False
      obtain s2 where s2: "sq s1 = Some s2" "ok s2" "D s2 = D s1" "X s2 mod M = (X s * X s) mod M"
        using sq_law [OF s1(2)] s1(4) by auto
      obtain s3 where s3: "pow_loop mul sq s2 ?m = Some s3" "ok s3" "red s3"
          "D s3 mod M = D s2 * X s2 ^ nat (mpn_val ?m) mod M"
        using less(1) [OF mpn_shr_decreases [OF False] s2(2) mv(2)] m by auto
      have "X s2 ^ k mod M = (X s * X s) ^ k mod M" for k using s2(4) by (metis power_mod)
      then have "D s3 mod M = (D s * (if odd ?v then X s else 1)) * (X s * X s) ^ nat (?v div 2) mod M"
        unfolding s3(4) s2(3) mv(1) using s1(5) by (intro mult_mod_cong) auto
      then have "D s3 mod M = D s * X s ^ nat ?v mod M" by (simp only: pow_step [OF mpn_val_nonneg])
      moreover have "pow_loop mul sq s n = Some s3"
        using False m s1(1) s2(1) s3(1) by (simp add: pow_loop.simps [of mul sq s n])
      ultimately show ?thesis using s3 by auto
    qed
  qed
qed

end

definition pow_state :: "mpz \<times> mpz \<Rightarrow> bool" where
  "pow_state = (\<lambda>(d, x). mpz_wf d \<and> \<not> fixed_dig d \<and> mpz_wf x \<and> \<not> fixed_dig x)"

interpretation exact: square_multiply 0 "\<lambda>(d, x). mpz_val d" "\<lambda>(d, x). mpz_val x" pow_state "\<lambda>_. True"
  "\<lambda>(dest, x). do { dest \<leftarrow> mpz_mul_inpl True False dest dest x; Some (dest, x) }"
  "\<lambda>(dest, x). do { x \<leftarrow> mpz_mul_inpl True True x x x; Some (dest, x) }"
proof
  fix s :: "mpz \<times> mpz"
  assume "pow_state s"
  then obtain d x where s: "s = (d, x)" "mpz_wf d" "\<not> fixed_dig d" "mpz_wf x" "\<not> fixed_dig x"
    by (auto simp: pow_state_def)
  note m = mpz_mul_inpl_computes [OF s(2,4,3), of True False] mpz_mul_inpl_computes [OF s(4,4,5), of True True]
  show "\<exists>s'. (case s of (dest, x) \<Rightarrow> do { dest \<leftarrow> mpz_mul_inpl True False dest dest x; Some (dest, x) }) = Some s'
      \<and> pow_state s' \<and> True \<and> (case s' of (d, x) \<Rightarrow> mpz_val x) = (case s of (d, x) \<Rightarrow> mpz_val x)
      \<and> (case s' of (d, x) \<Rightarrow> mpz_val d) mod 0 = (case s of (d, x) \<Rightarrow> mpz_val d) * (case s of (d, x) \<Rightarrow> mpz_val x) mod 0"
    using m(1) s by (auto simp: pow_state_def computes_def)
  show "\<exists>s'. (case s of (dest, x) \<Rightarrow> do { x \<leftarrow> mpz_mul_inpl True True x x x; Some (dest, x) }) = Some s'
      \<and> pow_state s' \<and> (case s' of (d, x) \<Rightarrow> mpz_val d) = (case s of (d, x) \<Rightarrow> mpz_val d)
      \<and> (case s' of (d, x) \<Rightarrow> mpz_val x) mod 0 = (case s of (d, x) \<Rightarrow> mpz_val x) * (case s of (d, x) \<Rightarrow> mpz_val x) mod 0"
    using m(2) s by (auto simp: pow_state_def computes_def)
qed

lemma mpz_clone_spec:
  "mpz_wf z \<Longrightarrow> dig z \<noteq> [] \<Longrightarrow> mpz_clone z = Some (z\<lparr>fixed_dig := False\<rparr>)"
  by (cases "dig z") (auto simp: mpz_clone_def mpz_wf_def)

lemma mpz_wf_fixed [simp]: "mpz_wf (z\<lparr>fixed_dig := b\<rparr>) = mpz_wf z" "mpz_val (z\<lparr>fixed_dig := b\<rparr>) = mpz_val z"
  by (simp_all add: mpz_wf_def mpz_val_def)

lemma mpz_pow_inpl_computes:
  assumes "mpz_wf lhs" "mpz_wf rhs" "\<not> fixed_dig dest" "0 \<le> mpz_val rhs" "mpz_val lhs \<noteq> 0 \<or> mpz_val rhs \<noteq> 0"
  shows "computes (mpz_pow_inpl dest lhs rhs) (mpz_val lhs ^ nat (mpz_val rhs))"
proof -
  have nr: "\<not> neg rhs" using mpz_val_neg_iff [OF assms(2)] assms(4) by simp
  note z = mpz_val_0_iff [OF assms(1)] mpz_val_0_iff [OF assms(2)]
  consider "dig lhs = []" | "dig lhs \<noteq> []" "dig rhs = []" | "dig lhs \<noteq> []" "dig rhs \<noteq> []" by blast
  then show ?thesis
  proof cases
    case 1
    then have p: "mpz_val lhs ^ nat (mpz_val rhs) = 0" using z assms(4,5) by simp
    show ?thesis unfolding p using 1 mpz_set_from_int_computes [OF assms(3), of 0] by (simp add: mpz_pow_inpl_def)
  next
    case 2
    then show ?thesis using mpz_set_from_int_computes [OF assms(3), of 1] nr z by (simp add: mpz_pow_inpl_def)
  next
    case 3
    obtain d where d: "mpz_set_from_int dest 1 = Some d" "mpz_wf d" "\<not> fixed_dig d" "mpz_val d = 1"
      using mpz_set_from_int_computes [OF assms(3), of 1] by (auto simp: computes_def)
    have "pow_state (d, lhs\<lparr>fixed_dig := False\<rparr>)" using d assms(1) by (simp add: pow_state_def)
    then show ?thesis
      using exact.pow_loop_power [of "(d, lhs\<lparr>fixed_dig := False\<rparr>)" "dig rhs"] mpz_wfD(1) [OF assms(2)] 3 nr d
        mpz_clone_spec [OF assms(1)] mpz_clone_spec [OF assms(2)]
      by (auto simp: mpz_pow_inpl_def computes_def pow_state_def mpz_val_nonneg)
  qed
qed

text \<open>One turn of the modular loop: a product, then the remainder over it.\<close>

definition mod_state :: "mpz \<Rightarrow> mpz \<times> mpz \<times> mpz \<Rightarrow> bool" where
  "mod_state modulus = (\<lambda>(d, x, q). mpz_wf d \<and> \<not> fixed_dig d \<and> mpz_wf x \<and> \<not> fixed_dig x
     \<and> \<not> fixed_dig q \<and> mpz_wf modulus \<and> mpz_val modulus \<noteq> 0)"

lemma mul_mod_step:
  assumes "mpz_wf a" "\<not> fixed_dig a" "mpz_wf b" "\<not> fixed_dig q" "mpz_wf modulus" "mpz_val modulus \<noteq> 0"
    and "rd \<Longrightarrow> a = b"
  shows "\<exists>q' r. do { a \<leftarrow> mpz_mul_inpl True rd a a b; (quo, a) \<leftarrow> mpz_divmod_inpl True q a a modulus; f quo a }
                  = f q' r
           \<and> mpz_wf r \<and> \<not> fixed_dig r \<and> \<not> fixed_dig q'
           \<and> mpz_val r = (mpz_val a * mpz_val b) mod mpz_val modulus"
proof -
  obtain p where p: "mpz_mul_inpl True rd a a b = Some p" "mpz_wf p" "\<not> fixed_dig p" "mpz_val p = mpz_val a * mpz_val b"
    using mpz_mul_inpl_computes [OF assms(1,3,2) assms(7)] by (auto simp: computes_def)
  obtain q' r where d: "mpz_divmod_inpl True q p p modulus = Some (q', r)" "\<not> fixed_dig q'" "mpz_wf r" "\<not> fixed_dig r"
      "mpz_val r = mpz_val p mod mpz_val modulus"
    using mpz_divmod_inpl_spec [OF p(2) assms(5,4) p(3) assms(6), of True] by blast
  show ?thesis using p d by (intro exI [of _ q'] exI [of _ r]) simp
qed

interpretation modular: square_multiply "mpz_val modulus" "\<lambda>(d, x, q). mpz_val d" "\<lambda>(d, x, q). mpz_val x"
  "mod_state modulus" "\<lambda>(d, x, q). mpz_val d = mpz_val d mod mpz_val modulus"
  "\<lambda>(dest, x, quo). do {
     dest \<leftarrow> mpz_mul_inpl True False dest dest x;
     (quo, dest) \<leftarrow> mpz_divmod_inpl True quo dest dest modulus;
     Some (dest, x, quo) }"
  "\<lambda>(dest, x, quo). do {
     x \<leftarrow> mpz_mul_inpl True True x x x;
     (quo, x) \<leftarrow> mpz_divmod_inpl True quo x x modulus;
     Some (dest, x, quo) }" for modulus
proof (unfold_locales, goal_cases)
  case (1 s)
  then obtain d x q where s: "s = (d, x, q)" "mpz_wf d" "\<not> fixed_dig d" "mpz_wf x" "\<not> fixed_dig x"
    "\<not> fixed_dig q" "mpz_wf modulus" "mpz_val modulus \<noteq> 0"
    by (auto simp: mod_state_def)
  show ?case
    using mul_mod_step [OF s(2,3,4,6,7,8), of False "\<lambda>quo dest. Some (dest, x, quo)"] s by (auto simp: mod_state_def)
next
  case (2 s)
  then obtain d x q where s: "s = (d, x, q)" "mpz_wf d" "\<not> fixed_dig d" "mpz_wf x" "\<not> fixed_dig x"
    "\<not> fixed_dig q" "mpz_wf modulus" "mpz_val modulus \<noteq> 0"
    by (auto simp: mod_state_def)
  show ?case
    using mul_mod_step [OF s(4,5,4,6,7,8), of True "\<lambda>quo x. Some (d, x, quo)"] s by (auto simp: mod_state_def)
qed

lemma mpz_pow3_inpl_computes:
  assumes "mpz_wf lhs" "mpz_wf rhs" "mpz_wf modulus" "\<not> fixed_dig dest"
    and "0 < mpz_val rhs" "mpz_val modulus \<noteq> 0"
  shows "computes (mpz_pow3_inpl dest lhs rhs modulus) (mpz_val lhs ^ nat (mpz_val rhs) mod mpz_val modulus)"
proof -
  have nr: "\<not> neg rhs" using mpz_val_neg_iff [OF assms(2)] assms(5) by simp
  have ne: "dig rhs \<noteq> []" using mpz_val_0_iff [OF assms(2)] assms(5) by auto
  show ?thesis
  proof (cases "dig lhs = [] \<or> dig modulus = [1]")
    case True
    have "mpz_val modulus = 1 \<or> mpz_val modulus = - 1" if "dig modulus = [1]"
      using that by (simp add: mpz_val_def sgv_def)
    then have v: "mpz_val lhs ^ nat (mpz_val rhs) mod mpz_val modulus = 0"
      using True mpz_val_0_iff [OF assms(1)] assms(5) by (auto simp: zero_power)
    show ?thesis unfolding v
      using True mpz_set_from_int_computes [OF assms(4), of 0] by (auto simp: mpz_pow3_inpl_def)
  next
    case False
    obtain d where d: "mpz_set_from_int dest 1 = Some d" "mpz_wf d" "\<not> fixed_dig d" "mpz_val d = 1"
      using mpz_set_from_int_computes [OF assms(4), of 1] by (auto simp: computes_def)
    let ?s = "(d, lhs\<lparr>fixed_dig := False\<rparr>, mpz_init_zero)"
    have st: "mod_state modulus ?s" using d assms by (simp add: mod_state_def mpz_init_zero_def)
    show ?thesis
      using modular.pow_loop_power [OF st mpz_wfD(1) [OF assms(2)]] False nr ne d
        mpz_clone_spec [OF assms(1)] mpz_clone_spec [OF assms(2)]
      by (auto simp: mpz_pow3_inpl_def computes_def mod_state_def mpz_val_nonneg)
  qed
qed

section \<open>Properties\<close>

lemmas mpz_eval = mpz_wf_def normalised_def mpz_val_def sgv_def mpz_init_zero_def

text \<open>
  C6. Addition and subtraction: for well-formed operands (no leading zero digits, no negative zero, the
  digits inside the buffer), fixed or growable, \<^verbatim>\<open>mpz_add_inpl\<close> and \<^verbatim>\<open>mpz_sub_inpl\<close> return a
  well-formed structure that holds the sum and the difference, whatever the signs and sizes.
\<close>

theorem mpz_add_sub_correct:
  assumes "mpz_wf lhs" "mpz_wf rhs" "\<not> fixed_dig dest"
  shows "computes (mpz_add_inpl dest lhs rhs) (mpz_val lhs + mpz_val rhs)
       \<and> computes (mpz_sub_inpl dest lhs rhs) (mpz_val lhs - mpz_val rhs)"
  using mpz_add_inpl_computes [OF assms] mpz_sub_inpl_computes [OF assms] by blast

theorem mpz_add_sub_correct_witness:
  "computes (mpz_add_inpl mpz_init_zero (\<lparr>neg = True, fixed_dig = True, alloc = 2, dig = [5, 1]\<rparr>) (\<lparr>neg = False, fixed_dig = False, alloc = 3, dig = [7]\<rparr>)) (- 65534)
   \<and> computes (mpz_sub_inpl mpz_init_zero (\<lparr>neg = True, fixed_dig = True, alloc = 2, dig = [5, 1]\<rparr>) (\<lparr>neg = False, fixed_dig = False, alloc = 3, dig = [7]\<rparr>)) (- 65548)"
  using mpz_add_sub_correct [of "\<lparr>neg = True, fixed_dig = True, alloc = 2, dig = [5, 1]\<rparr>" "\<lparr>neg = False, fixed_dig = False, alloc = 3, dig = [7]\<rparr>" mpz_init_zero] by (simp add: mpz_eval)

text \<open>
  C7. Multiplication: \<^verbatim>\<open>mpz_mul_inpl\<close> computes the product, also when the destination is one of the
  operands or both (it then works on a copy).
\<close>

theorem mpz_mul_correct:
  assumes "mpz_wf lhs" "mpz_wf rhs" "\<not> fixed_dig dest"
    and "lhs_is_dest \<Longrightarrow> lhs = dest" "rhs_is_dest \<Longrightarrow> rhs = dest"
  shows "computes (mpz_mul_inpl lhs_is_dest rhs_is_dest dest lhs rhs) (mpz_val lhs * mpz_val rhs)"
  using mpz_mul_inpl_computes [OF assms(1-3)] assms(4,5) by blast

theorem mpz_mul_correct_witness:
  "computes (mpz_mul_inpl False True (\<lparr>neg = False, fixed_dig = False, alloc = 3, dig = [7]\<rparr>) (\<lparr>neg = True, fixed_dig = True, alloc = 2, dig = [5, 1]\<rparr>) (\<lparr>neg = False, fixed_dig = False, alloc = 3, dig = [7]\<rparr>)) (- 458787)"
  using mpz_mul_correct [of "\<lparr>neg = True, fixed_dig = True, alloc = 2, dig = [5, 1]\<rparr>" "\<lparr>neg = False, fixed_dig = False, alloc = 3, dig = [7]\<rparr>" "\<lparr>neg = False, fixed_dig = False, alloc = 3, dig = [7]\<rparr>" False True] by (simp add: mpz_eval)

text \<open>
  C2. Division: for a divisor that is not zero, \<^verbatim>\<open>mpz_divmod_inpl\<close> returns (its loops end and no assertion
  fails) and computes floor division and the remainder with the sign of the divisor, as Python does.  The
  remainder is right even when it is stored over the dividend, as \<^verbatim>\<open>mpz_pow3_inpl\<close> does.
\<close>

theorem mpz_divmod_correct:
  assumes "mpz_wf lhs" "mpz_wf rhs" "\<not> fixed_dig dest_quo" "\<not> fixed_dig dest_rem" "mpz_val rhs \<noteq> 0"
  shows "\<exists>q r. mpz_divmod_inpl rem_is_lhs dest_quo dest_rem lhs rhs = Some (q, r)
           \<and> mpz_wf q \<and> mpz_wf r \<and> (\<not> rem_is_lhs \<longrightarrow> mpz_val q = mpz_val lhs div mpz_val rhs)
           \<and> mpz_val r = mpz_val lhs mod mpz_val rhs"
  using mpz_divmod_inpl_spec [OF assms, of rem_is_lhs] by blast

theorem mpz_divmod_correct_witness:
  "\<exists>q r. mpz_divmod_inpl False mpz_init_zero mpz_init_zero (\<lparr>neg = True, fixed_dig = True, alloc = 2, dig = [5, 1]\<rparr>) (\<lparr>neg = False, fixed_dig = False, alloc = 2, dig = [10]\<rparr>) = Some (q, r)
     \<and> mpz_val q = - 6555 \<and> mpz_val r = 9"
proof -
  have v: "mpz_val (\<lparr>neg = True, fixed_dig = True, alloc = 2, dig = [5, 1]\<rparr>) = - 65541" "mpz_val (\<lparr>neg = False, fixed_dig = False, alloc = 2, dig = [10]\<rparr>) = 10" by (simp_all add: mpz_eval)
  have "\<exists>q r. mpz_divmod_inpl False mpz_init_zero mpz_init_zero (\<lparr>neg = True, fixed_dig = True, alloc = 2, dig = [5, 1]\<rparr>) (\<lparr>neg = False, fixed_dig = False, alloc = 2, dig = [10]\<rparr>) = Some (q, r)
     \<and> mpz_wf q \<and> mpz_wf r \<and> (\<not> False \<longrightarrow> mpz_val q = mpz_val (\<lparr>neg = True, fixed_dig = True, alloc = 2, dig = [5, 1]\<rparr>) div mpz_val (\<lparr>neg = False, fixed_dig = False, alloc = 2, dig = [10]\<rparr>))
     \<and> mpz_val r = mpz_val (\<lparr>neg = True, fixed_dig = True, alloc = 2, dig = [5, 1]\<rparr>) mod mpz_val (\<lparr>neg = False, fixed_dig = False, alloc = 2, dig = [10]\<rparr>)"
    by (rule mpz_divmod_correct) (simp_all add: mpz_eval)
  then show ?thesis by (auto simp: v)
qed

text \<open>
  C9. Shifts and comparison: \<^verbatim>\<open>mpz_shl_inpl\<close> multiplies by the power of two, \<^verbatim>\<open>mpz_shr_inpl\<close> into another
  structure rounds towards minus infinity, and \<^verbatim>\<open>mpz_cmp\<close> is the sign of the difference.
\<close>

theorem mpz_shift_cmp_correct:
  assumes "mpz_wf lhs" "mpz_wf rhs" "\<not> fixed_dig dest" "n + 15 < 2 ^ 32"
  shows "computes (mpz_shl_inpl dest lhs n) (mpz_val lhs * 2 ^ n)
       \<and> computes (mpz_shr_inpl False dest lhs n) (mpz_val lhs div 2 ^ n)
       \<and> mpz_cmp lhs rhs = sgn (mpz_val lhs - mpz_val rhs)"
  using mpz_shl_inpl_computes [OF assms(1,3,4)] mpz_shr_inpl_computes [OF assms(1,3), of n] mpz_cmp_sgn [OF assms(1,2)]
  unfolding push_bit_eq_mult drop_bit_eq_div by blast

theorem mpz_shift_cmp_correct_witness:
  "computes (mpz_shl_inpl mpz_init_zero (\<lparr>neg = True, fixed_dig = True, alloc = 2, dig = [5, 1]\<rparr>) 20) (- 68724719616)
   \<and> computes (mpz_shr_inpl False mpz_init_zero (\<lparr>neg = True, fixed_dig = True, alloc = 2, dig = [5, 1]\<rparr>) 2) (- 16386)
   \<and> mpz_cmp (\<lparr>neg = True, fixed_dig = True, alloc = 2, dig = [5, 1]\<rparr>) (\<lparr>neg = False, fixed_dig = False, alloc = 3, dig = [7]\<rparr>) = - 1"
  using mpz_shift_cmp_correct [of "\<lparr>neg = True, fixed_dig = True, alloc = 2, dig = [5, 1]\<rparr>" "\<lparr>neg = False, fixed_dig = False, alloc = 3, dig = [7]\<rparr>" mpz_init_zero 20] mpz_shift_cmp_correct [of "\<lparr>neg = True, fixed_dig = True, alloc = 2, dig = [5, 1]\<rparr>" "\<lparr>neg = False, fixed_dig = False, alloc = 3, dig = [7]\<rparr>" mpz_init_zero 2]
  by (simp add: mpz_eval)

text \<open>
  C8. Bitwise operations: on sign-magnitude numbers the code computes the operations of infinite two's
  complement integers, for every combination of signs; no assertion of \<^verbatim>\<open>mpn_or_neg\<close> fails.
\<close>

theorem mpz_bitwise_correct:
  assumes "mpz_wf lhs" "mpz_wf rhs" "\<not> fixed_dig dest"
  shows "computes (mpz_and_inpl dest lhs rhs) (mpz_val lhs AND mpz_val rhs)
       \<and> computes (mpz_or_inpl dest lhs rhs) (mpz_val lhs OR mpz_val rhs)
       \<and> computes (mpz_xor_inpl dest lhs rhs) (mpz_val lhs XOR mpz_val rhs)
       \<and> computes (mpz_not_inpl False dest lhs) (NOT (mpz_val lhs))"
  using mpz_and_inpl_computes [OF assms] mpz_or_inpl_computes [OF assms] mpz_xor_inpl_computes [OF assms]
    mpz_not_inpl_computes [OF assms(1), of False dest] assms(3) by simp

theorem mpz_bitwise_correct_witness:
  "computes (mpz_and_inpl mpz_init_zero (\<lparr>neg = True, fixed_dig = True, alloc = 2, dig = [5, 1]\<rparr>) (\<lparr>neg = False, fixed_dig = False, alloc = 3, dig = [7]\<rparr>)) 3
   \<and> computes (mpz_or_inpl mpz_init_zero (\<lparr>neg = True, fixed_dig = True, alloc = 2, dig = [5, 1]\<rparr>) (\<lparr>neg = False, fixed_dig = False, alloc = 3, dig = [7]\<rparr>)) (- 65537)
   \<and> computes (mpz_xor_inpl mpz_init_zero (\<lparr>neg = True, fixed_dig = True, alloc = 2, dig = [5, 1]\<rparr>) (\<lparr>neg = False, fixed_dig = False, alloc = 3, dig = [7]\<rparr>)) (- 65540)
   \<and> computes (mpz_not_inpl False mpz_init_zero (\<lparr>neg = True, fixed_dig = True, alloc = 2, dig = [5, 1]\<rparr>)) 65540"
  using mpz_bitwise_correct [of "\<lparr>neg = True, fixed_dig = True, alloc = 2, dig = [5, 1]\<rparr>" "\<lparr>neg = False, fixed_dig = False, alloc = 3, dig = [7]\<rparr>" mpz_init_zero] by (simp add: mpz_eval)



text \<open>
  Zero to the power zero: \<^verbatim>\<open>mpz_pow_inpl\<close> tests for a zero base first and returns 0, where Python's
  result is 1.  A zero held in an \<^verbatim>\<open>mpz_t\<close> arises as the difference of two equal big integers.
\<close>

theorem mpz_pow_zero_zero:
  "computes (mpz_pow_inpl mpz_init_zero mpz_init_zero mpz_init_zero) 0"
  by (simp add: mpz_pow_inpl_def mpz_set_from_int_def computes_def mpz_eval)

text \<open>
  Exponent zero with a modulus: the early return of \<^verbatim>\<open>mpz_pow3_inpl\<close> leaves 1 without reducing it, so for
  every modulus other than 1, -1 the result is 1, which for a negative modulus is not a remainder (Python's
  \<^verbatim>\<open>pow(2, 0, -5)\<close> is -4).
\<close>

theorem mpz_pow3_exponent_zero:
  assumes "mpz_wf lhs" "mpz_val lhs \<noteq> 0" "dig rhs = []" "\<not> neg rhs" "\<not> fixed_dig dest" "dig modulus \<noteq> [1]"
  shows "computes (mpz_pow3_inpl dest lhs rhs modulus) 1"
  using assms mpz_val_0_iff [OF assms(1)] mpz_set_from_int_computes [OF assms(5), of 1]
  by (auto simp: mpz_pow3_inpl_def computes_def)

theorem mpz_pow3_exponent_zero_witness:
  "computes (mpz_pow3_inpl mpz_init_zero (\<lparr>neg = False, fixed_dig = False, alloc = 3, dig = [7]\<rparr>) mpz_init_zero \<lparr>neg = True, fixed_dig = False, alloc = 2, dig = [5]\<rparr>) 1
   \<and> (7::int) ^ 0 mod (- 5) = - 4"
  using mpz_pow3_exponent_zero [of "\<lparr>neg = False, fixed_dig = False, alloc = 3, dig = [7]\<rparr>" mpz_init_zero mpz_init_zero
      "\<lparr>neg = True, fixed_dig = False, alloc = 2, dig = [5]\<rparr>"] by (simp add: mpz_eval)

text \<open>
  The comment of \<^verbatim>\<open>mpz_shr_inpl\<close> allows \<^verbatim>\<open>dest\<close> and \<^verbatim>\<open>lhs\<close> to be the same, but the rounding test reads
  \<^verbatim>\<open>lhs\<close> after \<^verbatim>\<open>mpn_shr\<close> has overwritten it: -65536 shifted right in place by 16 gives -2, and into
  another structure -1.
\<close>

theorem mpz_shr_in_place_wrong:
  "map_option mpz_val (mpz_shr_inpl True \<lparr>neg = True, fixed_dig = False, alloc = 2, dig = [0, 1]\<rparr>
     \<lparr>neg = True, fixed_dig = False, alloc = 2, dig = [0, 1]\<rparr> 16) = Some (- 2)
   \<and> map_option mpz_val (mpz_shr_inpl False mpz_init_zero
     \<lparr>neg = True, fixed_dig = False, alloc = 2, dig = [0, 1]\<rparr> 16) = Some (- 1)
   \<and> - 65536 div 2 ^ 16 = (- 1 :: int)"
  by code_simp

end
