(* ===== verification/Mpz_Conv.thy ===== *)
theory Mpz_Conv
  imports Mpz_Arith
begin

text \<open>
  Conversions of \<^verbatim>\<open>py/mpz.c\<close> between big integers and machine words or byte strings (\<^verbatim>\<open>mpz_hash\<close>,
  \<^verbatim>\<open>mpz_as_int_checked\<close>, \<^verbatim>\<open>mpz_as_uint_checked\<close>, \<^verbatim>\<open>mpz_as_bytes\<close>, \<^verbatim>\<open>mpz_set_from_bytes\<close>).
\<close>

section \<open>Machine words\<close>

fun mpz_hash_loop :: "32 word \<Rightarrow> dig list \<Rightarrow> 32 word" where
  "mpz_hash_loop val [] = val"
| "mpz_hash_loop val (d # ds) = mpz_hash_loop (push_bit DIG_SIZE val OR ucast d) ds"

definition mpz_hash :: "mpz \<Rightarrow> 32 word" where
  "mpz_hash z =
     (let val = mpz_hash_loop 0 (rev (dig z))
      in if neg z then - val else val)"

fun mpz_as_checked_loop :: "32 word \<Rightarrow> 32 word \<Rightarrow> dig list \<Rightarrow> 32 word option" where
  "mpz_as_checked_loop limit val [] = Some val"
| "mpz_as_checked_loop limit val (d # ds) =
     (if val > limit then None
      else mpz_as_checked_loop limit (push_bit DIG_SIZE val OR ucast d) ds)"

definition mpz_as_int_checked :: "mpz \<Rightarrow> 32 word option" where
  "mpz_as_int_checked i =
     map_option (\<lambda>val. if neg i then - val else val)
       (mpz_as_checked_loop (drop_bit DIG_SIZE (NOT 0x80000000)) 0 (rev (dig i)))"

definition mpz_as_uint_checked :: "mpz \<Rightarrow> 32 word option" where
  "mpz_as_uint_checked i =
     (if neg i then None
      else mpz_as_checked_loop (drop_bit (DIG_SIZE - 1) (NOT 0x80000000)) 0 (rev (dig i)))"

section \<open>Bytes\<close>

text \<open>
  The two nested loops of \<^verbatim>\<open>mpz_set_from_bytes\<close>, on the bytes in the order they are read.  When bytes
  remain after a digit, \<^verbatim>\<open>num_bits\<close> is 16, so the subtraction of \<^verbatim>\<open>DIG_SIZE\<close> sets it to 0 again.
\<close>

fun from_bytes_digit :: "dig \<Rightarrow> nat \<Rightarrow> byte list \<Rightarrow> dig \<times> byte list" where
  "from_bytes_digit d num_bits [] = (d, [])"
| "from_bytes_digit d num_bits (b # bs) =
     (if num_bits < DIG_SIZE then from_bytes_digit (d OR push_bit num_bits (ucast b)) (num_bits + 8) bs
      else (d, b # bs))"

lemma length_from_bytes_digit: "length (snd (from_bytes_digit d num_bits bs)) \<le> length bs"
  by (induction d num_bits bs rule: from_bytes_digit.induct) auto

function from_bytes_loop :: "byte list \<Rightarrow> dig list" where
  "from_bytes_loop bs =
     (if bs = [] then []
      else fst (from_bytes_digit 0 0 bs) # from_bytes_loop (snd (from_bytes_digit 0 0 bs)))"
  by auto
termination
proof (relation "measure length", simp)
  fix bs :: "byte list"
  assume "bs \<noteq> []"
  then obtain b cs where bs: "bs = b # cs" by (cases bs) auto
  have "length (snd (from_bytes_digit 0 0 bs)) \<le> length cs"
    using length_from_bytes_digit [of "0 OR push_bit 0 (ucast b)" "0 + 8" cs] by (simp add: bs)
  then show "(snd (from_bytes_digit 0 0 bs), bs) \<in> measure length" by (simp add: bs)
qed

declare from_bytes_loop.simps [simp del]

definition mpz_set_from_bytes :: "mpz \<Rightarrow> bool \<Rightarrow> byte list \<Rightarrow> mpz option" where
  "mpz_set_from_bytes z big_endian buf = do {
     z \<leftarrow> mpz_need_dig z ((length buf * 8 + DIG_SIZE - 1) div DIG_SIZE);
     let ds = from_bytes_loop (if big_endian then rev buf else buf);
     Some (z\<lparr>neg := False, dig := mpn_remove_trailing_zeros ds\<rparr>)}"

text \<open>
  \<^verbatim>\<open>mpz_as_bytes\<close>: \<open>out\<close> holds the bytes stored so far in the order they are stored (least significant
  first), \<open>olen\<close> the room left.  The inner loop emits the bytes of \<open>d\<close> while eight bits are left.
\<close>

record as_bytes_state =
  carry :: dbl
  olen :: nat
  okay :: bool
  out :: "byte list"

definition as_bytes_emit :: "bool \<Rightarrow> dbl \<Rightarrow> as_bytes_state \<Rightarrow> as_bytes_state" where
  "as_bytes_emit zneg d s =
     (let val = ucast d :: dig;
          (val, c) = (if zneg then let v = (NOT val AND 0xff) + ucast (carry s) in (v, ucast (drop_bit 8 v)) else (val, carry s));
          s = s\<lparr>carry := c\<rparr>
      in if olen s = 0 then s\<lparr>okay := okay s \<and> (ucast val :: byte) = 0\<rparr>
         else s\<lparr>out := out s @ [ucast val], olen := olen s - 1\<rparr>)"

fun as_bytes_bits :: "bool \<Rightarrow> nat \<Rightarrow> dbl \<Rightarrow> as_bytes_state \<Rightarrow> nat \<times> dbl \<times> as_bytes_state" where
  "as_bytes_bits zneg bits d s =
     (if bits \<ge> 8 then as_bytes_bits zneg (bits - 8) (drop_bit 8 d) (as_bytes_emit zneg d s)
      else (bits, d, s))"

fun as_bytes_loop :: "bool \<Rightarrow> nat \<Rightarrow> dbl \<Rightarrow> as_bytes_state \<Rightarrow> dig list \<Rightarrow> as_bytes_state" where
  "as_bytes_loop zneg bits d s [] = s"
| "as_bytes_loop zneg bits d s (zdig # zs) =
     (let (bits, d, s) = as_bytes_bits zneg (bits + DIG_SIZE) (push_bit DIG_SIZE d OR ucast zdig) s
      in as_bytes_loop zneg bits d s zs)"

definition mpz_as_bytes :: "mpz \<Rightarrow> bool \<Rightarrow> bool \<Rightarrow> nat \<Rightarrow> bool \<times> byte list" where
  "mpz_as_bytes z big_endian as_signed len =
     (let s = as_bytes_loop (neg z) 0 0 \<lparr>carry = 1, olen = len, okay = True, out = []\<rparr> (dig z);
          okay = (if as_signed \<and> olen s = 0 \<and> len > 0
                  then okay s \<and> ((last (out s) AND 0x80 \<noteq> 0) = neg z) else okay s);
          fill = replicate (olen s) (if neg z then 0xff else 0)
      in (okay, if big_endian then fill @ rev (out s) else out s @ fill))"

declare as_bytes_bits.simps [simp del]

section \<open>Machine words: lemmas\<close>

lemma uint_shift_in:
  fixes val :: dbl and d :: dig
  shows "uint (push_bit DIG_SIZE val OR ucast d) = (uint val * 65536 + uint d) mod 4294967296"
proof -
  have "push_bit DIG_SIZE val OR ucast d = push_bit DIG_SIZE val + ucast d"
    by (rule disjunctive_add_eq_or [symmetric]) (auto intro!: bit_word_eqI simp: bit_simps)
  also have "uint \<dots> = (uint val * 65536 + uint d) mod 4294967296"
    by (simp add: uint_word_ariths push_bit_eq_mult dig_simps mod_simps)
  finally show ?thesis .
qed

lemma mpz_hash_loop_val:
  "uint (mpz_hash_loop val ds) = (uint val * 65536 ^ length ds + mpn_val (rev ds)) mod 4294967296"
proof (induction val ds rule: mpz_hash_loop.induct)
  case (1 val)
  then show ?case using uint_lt2p [of val] by simp
next
  case (2 val d ds)
  have "uint (mpz_hash_loop val (d # ds))
      = ((uint val * 65536 + uint d) mod 4294967296 * 65536 ^ length ds + mpn_val (rev ds)) mod 4294967296"
    using 2 by (simp add: uint_shift_in)
  also have "\<dots> = ((uint val * 65536 + uint d) * 65536 ^ length ds + mpn_val (rev ds)) mod 4294967296"
    by (rule mod_add_cong) (simp_all only: mod_mult_left_eq)
  finally show ?case by (simp add: mpn_val_append algebra_simps)
qed

lemma uint_neg_mod: "uint (- w :: dbl) = (- uint w) mod 4294967296"
  by (simp add: uint_word_ariths)

lemma mpz_as_checked_loop_val:
  fixes limit val :: dbl
  assumes "uint limit < 65536" "ds \<noteq> []"
  shows "mpz_as_checked_loop limit val ds =
    (if uint val * 65536 ^ length ds + mpn_val (rev ds) < (uint limit + 1) * 65536
     then Some (word_of_int (uint val * 65536 ^ length ds + mpn_val (rev ds))) else None)"
  using assms(2)
proof (induction ds arbitrary: val)
  case (Cons d ds)
  let ?V = "uint val * 65536 ^ length (d # ds) + mpn_val (rev (d # ds))"
  show ?case
  proof (cases "val > limit")
    case True
    have "(uint limit + 1) * 65536 \<le> uint val * 65536 ^ length (d # ds)"
      using True self_le_power [of "65536::int" "length (d # ds)"] by (intro mult_mono) (auto simp: word_less_def)
    then have "(uint limit + 1) * 65536 \<le> ?V" using mpn_val_nonneg [of "rev (d # ds)"] by linarith
    then show ?thesis using True by simp
  next
    case False
    let ?v = "push_bit DIG_SIZE val OR ucast d"
    have "uint val \<le> uint limit" using False by (simp add: word_less_def not_less)
    then have lv: "uint val * 65536 + uint d < (uint limit + 1) * 65536" "uint val * 65536 + uint d < 4294967296"
      using assms(1) dig_bound [of d] by auto
    then have v: "uint ?v = uint val * 65536 + uint d" by (simp add: uint_shift_in)
    have e: "uint ?v * 65536 ^ length ds + mpn_val (rev ds) = ?V" by (simp add: v mpn_val_append algebra_simps)
    show ?thesis
    proof (cases "ds = []")
      case True
      then have "?V = uint ?v" using v by simp
      then have "mpz_as_checked_loop limit val (d # ds) = Some (word_of_int ?V)" using False True by simp
      moreover have "?V < (uint limit + 1) * 65536" using \<open>?V = uint ?v\<close> v lv(1) by linarith
      ultimately show ?thesis by (simp only: if_True)
    next
      case ne: False
      then show ?thesis using False Cons.IH [OF ne, of ?v] unfolding e by simp
    qed
  qed
qed simp

lemma checked_limits:
  "uint (drop_bit DIG_SIZE (NOT 0x80000000 :: dbl)) = 0x7fff" "uint (drop_bit (DIG_SIZE - 1) (NOT 0x80000000 :: dbl)) = 0xffff"
  by (simp_all add: dig_simps unsigned_not_eq take_bit_eq_mod not_int_def)

lemma checked_loop_digits:
  fixes limit :: dbl
  assumes "uint limit < 65536"
  shows "mpz_as_checked_loop limit 0 (rev ds) =
    (if mpn_val ds < (uint limit + 1) * 65536 then Some (word_of_int (mpn_val ds)) else None)"
proof (cases "ds = []")
  case True
  have "0 < (uint limit + 1) * 65536" by (rule mult_pos_pos) (rule add_nonneg_pos, simp_all)
  with True show ?thesis by (simp only: rev.simps mpz_as_checked_loop.simps mpn_val.simps if_True of_int_0)
qed (use mpz_as_checked_loop_val [OF assms, of "rev ds" 0] in simp)

text \<open>
  C14. Machine words: the checked conversions succeed exactly on the integers whose magnitude fits (31 bits with a
  sign, 32 bits without) and then return the value; \<^verbatim>\<open>mpz_hash\<close> is the value modulo two to the 32, so it is
  the value itself whenever it fits a signed word.
\<close>

theorem mpz_word_conversions:
  assumes "mpz_wf z"
  shows "mpz_as_int_checked z = (if \<bar>mpz_val z\<bar> < 2 ^ 31 then Some (word_of_int (mpz_val z)) else None)
       \<and> mpz_as_uint_checked z = (if 0 \<le> mpz_val z \<and> mpz_val z < 2 ^ 32 then Some (word_of_int (mpz_val z)) else None)
       \<and> mpz_hash z = word_of_int (mpz_val z)"
proof -
  have n: "neg z \<longleftrightarrow> mpz_val z < 0" by (rule mpz_val_neg_iff [OF assms])
  have a: "mpn_val (dig z) = \<bar>mpz_val z\<bar>" by (simp add: mpz_val_def sgv_def)
  have "mpz_hash_loop 0 (rev (dig z)) = word_of_int \<bar>mpz_val z\<bar>"
    by (rule word_uint_eqI) (simp add: mpz_hash_loop_val a take_bit_eq_mod uint_word_of_int_eq)
  then have "mpz_hash z = word_of_int (mpz_val z)" by (simp add: mpz_hash_def n Let_def)
  then show ?thesis
    using checked_loop_digits [of "drop_bit DIG_SIZE (NOT 0x80000000)" "dig z"]
      checked_loop_digits [of "drop_bit (DIG_SIZE - 1) (NOT 0x80000000)" "dig z"]
    unfolding checked_limits a mpz_as_int_checked_def mpz_as_uint_checked_def n by auto
qed

theorem mpz_word_conversions_witness:
  "mpz_as_int_checked \<lparr>neg = True, fixed_dig = False, alloc = 2, dig = [1, 2]\<rparr> = Some (- 131073)
   \<and> mpz_as_int_checked \<lparr>neg = True, fixed_dig = False, alloc = 2, dig = [0, 0x8000]\<rparr> = None"
  using mpz_word_conversions [of "\<lparr>neg = True, fixed_dig = False, alloc = 2, dig = [1, 2]\<rparr>"]
    mpz_word_conversions [of "\<lparr>neg = True, fixed_dig = False, alloc = 2, dig = [0, 0x8000]\<rparr>"]
  by (simp add: mpz_eval)

section \<open>Bytes: lemmas\<close>

fun bytes_val :: "byte list \<Rightarrow> int" where
  "bytes_val [] = 0"
| "bytes_val (b # bs) = uint b + 256 * bytes_val bs"

lemma byte_bound: "0 \<le> uint (b :: byte)" "uint (b :: byte) < 256"
  using uint_lt2p [of b] by simp_all

lemma bytes_val_nonneg [simp]: "0 \<le> bytes_val bs"
  by (induction bs) simp_all

lemma bytes_val_append: "bytes_val (xs @ ys) = bytes_val xs + 256 ^ length xs * bytes_val ys"
  by (induction xs) (simp_all add: algebra_simps)

lemma bytes_val_less: "bytes_val bs < 256 ^ length bs"
proof (induction bs)
  case (Cons b bs)
  then show ?case using byte_bound [of b] by simp
qed simp

lemma bytes_val_take: "bytes_val (take n bs) = bytes_val bs mod 256 ^ n"
proof (cases "n \<le> length bs")
  case True
  have "bytes_val bs = bytes_val (take n bs) + 256 ^ n * bytes_val (drop n bs)"
    using bytes_val_append [of "take n bs" "drop n bs"] True by simp
  moreover have "bytes_val (take n bs) < 256 ^ n" using bytes_val_less [of "take n bs"] True by simp
  ultimately show ?thesis using bytes_val_nonneg [of "take n bs"] by (metis mod_mult_self2 mod_pos_pos_trivial)
next
  case False
  have "(256::int) ^ length bs \<le> 256 ^ n" using False by (intro power_increasing) auto
  then have "bytes_val bs < 256 ^ n" using bytes_val_less [of bs] by linarith
  then show ?thesis using False by simp
qed

lemma bytes_val_eq_0: "bytes_val bs = 0 \<longleftrightarrow> (\<forall>b \<in> set bs. b = 0)"
proof (induction bs)
  case (Cons b bs)
  have "uint b + 256 * bytes_val bs = 0 \<longleftrightarrow> uint b = 0 \<and> bytes_val bs = 0"
    using uint_ge_0 [of b] bytes_val_nonneg [of bs] by linarith
  with Cons show ?case by (simp add: uint_0_iff)
qed simp

lemma bytes_val_drop_0:
  "(\<forall>b \<in> set (drop n bs). b = 0) \<longleftrightarrow> bytes_val bs < 256 ^ n"
proof (cases "n \<le> length bs")
  case True
  have e: "bytes_val bs = bytes_val (take n bs) + 256 ^ n * bytes_val (drop n bs)"
    using bytes_val_append [of "take n bs" "drop n bs"] True by simp
  have t: "bytes_val (take n bs) < 256 ^ n" using bytes_val_less [of "take n bs"] True by simp
  show ?thesis
  proof (cases "bytes_val (drop n bs) = 0")
    case True
    then show ?thesis using e t bytes_val_eq_0 [of "drop n bs"] by simp
  next
    case False
    then have "256 ^ n * 1 \<le> 256 ^ n * bytes_val (drop n bs)" using bytes_val_nonneg [of "drop n bs"] by (intro mult_left_mono) (linarith, simp)
    then have "256 ^ n \<le> bytes_val bs" using e bytes_val_nonneg [of "take n bs"] by linarith
    then show ?thesis using False bytes_val_eq_0 [of "drop n bs"] by auto
  qed
next
  case False
  have "(256::int) ^ length bs \<le> 256 ^ n" using False by (intro power_increasing) auto
  then show ?thesis using False bytes_val_less [of bs] by (auto intro: less_le_trans)
qed

subsection \<open>Reading bytes\<close>

lemma uint_ucast_byte [simp]: "uint (ucast (b :: byte) :: dig) = uint b" "uint (ucast (b :: byte) :: dbl) = uint b"
  using uint_lt2p [of b] by (simp_all add: unsigned_ucast_eq take_bit_int_eq_self)

lemma bit_byte_beyond [simp]: "8 \<le> n \<Longrightarrow> \<not> bit (b :: byte) n"
  by (auto dest: bit_imp_le_length)

lemma uint_two_bytes: "uint (ucast (b :: byte) OR push_bit 8 (ucast (c :: byte)) :: dig) = uint b + 256 * uint c"
proof -
  have "ucast b OR push_bit 8 (ucast c) = (ucast b + push_bit 8 (ucast c) :: dig)"
    by (rule disjunctive_add_eq_or [symmetric]) (auto intro!: bit_word_eqI simp: bit_simps)
  also have "uint \<dots> = uint b + 256 * uint c"
    using byte_bound [of b] byte_bound [of c]
    by (simp add: uint_word_ariths push_bit_eq_mult mod_simps)
  finally show ?thesis .
qed

lemma from_bytes_digit_full [simp]: "from_bytes_digit d 16 bs = (d, bs)"
  by (cases bs) simp_all

lemma from_bytes_loop_val: "mpn_val (from_bytes_loop bs) = bytes_val bs"
proof (induction bs rule: induct_list012)
  case 1
  then show ?case by (simp add: from_bytes_loop.simps)
next
  case (2 b)
  then show ?case by (simp add: from_bytes_loop.simps)
next
  case (3 b c bs)
  then show ?case by (subst from_bytes_loop.simps) (simp add: uint_two_bytes)
qed

lemma length_from_bytes_loop: "length (from_bytes_loop bs) = (length bs * 8 + 15) div 16"
proof (induction bs rule: induct_list012)
  case (3 b c bs)
  then show ?case by (subst from_bytes_loop.simps) simp
qed (simp_all add: from_bytes_loop.simps)

lemma mpz_set_from_bytes_computes:
  assumes "\<not> fixed_dig z"
  shows "computes (mpz_set_from_bytes z big_endian buf) (bytes_val (if big_endian then rev buf else buf))"
proof -
  let ?bs = "if big_endian then rev buf else buf"
  let ?ds = "mpn_remove_trailing_zeros (from_bytes_loop ?bs)"
  have "mpn_val ?ds = \<bar>bytes_val ?bs\<bar>" "\<not> bytes_val ?bs < 0" "normalised ?ds"
    by (simp_all only: mpn_val_strip from_bytes_loop_val strip_normalised abs_of_nonneg bytes_val_nonneg not_less)
  moreover have "length ?ds \<le> (length buf * 8 + 15) div 16"
    using length_strip_le [of "from_bytes_loop ?bs"] by (simp add: length_from_bytes_loop split: if_splits)
  ultimately show ?thesis
    using assms unfolding mpz_set_from_bytes_def Let_def by (auto simp: mpz_need_dig_eq le_max_iff_disj intro!: computesI)
qed

subsection \<open>Writing bytes\<close>

text \<open>The stream of bytes that is stored: the magnitude, or its two's complement.\<close>

fun tc_bytes :: "bool \<Rightarrow> int \<Rightarrow> byte list \<Rightarrow> byte list" where
  "tc_bytes n c [] = []"
| "tc_bytes n c (b # bs) =
     (let v = (if n then 255 - uint b + c else uint b)
      in word_of_int v # tc_bytes n (if n then v div 256 else c) bs)"

definition dig_bytes :: "dig \<Rightarrow> byte list" where
  "dig_bytes d = [ucast d, ucast (drop_bit 8 d)]"

definition digs_bytes :: "dig list \<Rightarrow> byte list" where
  "digs_bytes ds = concat (map dig_bytes ds)"

lemma uint_dig_drop: "uint (drop_bit n (d :: dig)) = uint d div 2 ^ n"
  using uint_lt2p [of d]
  by (subst unsigned_drop_bit_eq) (simp add: drop_bit_eq_div take_bit_int_eq_self)

lemma dig_bytes_val: "bytes_val (dig_bytes d) = uint d"
proof -
  have "uint (ucast (drop_bit 8 d) :: byte) = uint (drop_bit 8 d) mod 256" "uint (ucast d :: byte) = uint d mod 256"
    by (simp_all only: unsigned_ucast_eq take_bit_eq_mod) simp_all
  then show ?thesis using dig_bound [of d] by (simp add: dig_bytes_def uint_dig_drop)
qed

lemma digs_bytes_val: "bytes_val (digs_bytes ds) = mpn_val ds"
  by (induction ds) (simp_all add: digs_bytes_def bytes_val_append dig_bytes_val, simp add: dig_bytes_def)

lemma length_digs_bytes: "length (digs_bytes ds) = 2 * length ds"
  by (induction ds) (simp_all add: digs_bytes_def dig_bytes_def)

lemma length_tc_bytes [simp]: "length (tc_bytes n c bs) = length bs"
  by (induction n c bs rule: tc_bytes.induct) (simp_all add: Let_def)

lemma tc_bytes_pos: "tc_bytes False c bs = bs"
  by (induction bs arbitrary: c) simp_all

lemma uint_byte_of_int: "uint (word_of_int v :: byte) = v mod 256"
  by (simp only: uint_word_of_int_eq take_bit_eq_mod) simp

lemma zmod_shift:
  fixes r x p :: int
  assumes "0 \<le> r" "r < 256" "0 \<le> p"
  shows "r + 256 * (x mod p) = (256 * x + r) mod (256 * p)"
  using assms by (simp add: zmod_zmult2_eq)

lemma tc_bytes_neg:
  assumes "0 \<le> c" "c \<le> 1"
  shows "bytes_val (tc_bytes True c bs) = (c - 1 - bytes_val bs) mod 256 ^ length bs"
  using assms
proof (induction bs arbitrary: c)
  case (Cons b bs)
  let ?v = "255 - uint b + c"
  have v: "0 \<le> ?v" "?v \<le> 256" using Cons(2,3) byte_bound [of b] by linarith+
  have "0 \<le> ?v div 256" "?v div 256 \<le> 1" using v by linarith+
  from Cons.IH [OF this]
  have "bytes_val (tc_bytes True c (b # bs)) = ?v mod 256 + 256 * ((?v div 256 - 1 - bytes_val bs) mod 256 ^ length bs)"
    using uint_byte_of_int [of ?v] by (simp only: tc_bytes.simps Let_def bytes_val.simps if_True)
  also have "\<dots> = (256 * (?v div 256 - 1 - bytes_val bs) + ?v mod 256) mod (256 * 256 ^ length bs)"
    by (rule zmod_shift) simp_all
  also have "256 * (?v div 256 - 1 - bytes_val bs) + ?v mod 256 = c - 1 - bytes_val (b # bs)"
    by (simp add: algebra_simps)
  finally show ?case by simp
qed simp

definition tc_byte :: "bool \<Rightarrow> int \<Rightarrow> byte \<Rightarrow> int" where
  "tc_byte n c b = (if n then 255 - uint b + c else uint b)"

lemma minus_one_mod: "(- x - 1) mod 256 = 255 - x mod (256 :: int)"
proof -
  have "- x - 1 = (255 - x mod 256) + 256 * (- (x div 256) - 1)" by (simp add: algebra_simps)
  moreover have "0 \<le> 255 - x mod 256" "255 - x mod 256 < 256" by simp_all
  ultimately show ?thesis by (metis mod_mult_self2 mod_pos_pos_trivial)
qed

lemma uint_not_byte: "uint (NOT (x :: dig) AND 0xff) = 255 - uint x mod 256"
proof -
  have "NOT x AND 0xff = take_bit 8 (NOT x)" by (simp add: take_bit_eq_mask mask_eq_exp_minus_1)
  then have "uint (NOT x AND 0xff) = take_bit 8 (uint (NOT x))" by (simp only: unsigned_take_bit_eq)
  also have "\<dots> = take_bit 8 (NOT (uint x))" by (simp only: unsigned_not_eq take_bit_take_bit) simp
  also have "\<dots> = (- uint x - 1) mod 256" by (simp add: take_bit_eq_mod not_int_def)
  also have "\<dots> = 255 - uint x mod 256" by (rule minus_one_mod)
  finally show ?thesis .
qed

lemma as_bytes_emit_eq:
  fixes d :: dbl
  assumes c: "uint (carry s) \<le> 1"
  shows "as_bytes_emit n d s =
    (let v = tc_byte n (uint (carry s)) (ucast d);
         s' = s\<lparr>carry := word_of_int (if n then v div 256 else uint (carry s))\<rparr>
     in if olen s = 0 then s'\<lparr>okay := okay s \<and> (word_of_int v :: byte) = 0\<rparr>
        else s'\<lparr>out := out s @ [word_of_int v], olen := olen s - 1\<rparr>)"
proof -
  let ?val = "ucast d :: dig" and ?b = "ucast d :: byte"
  let ?w = "(NOT ?val AND 0xff) + ucast (carry s) :: dig"
  have b: "uint ?b = uint ?val mod 256" by (simp add: unsigned_ucast_eq take_bit_eq_mod mod_mod_cancel)
  have "uint (ucast (carry s) :: dig) = uint (carry s)" using c by (intro uint_ucast_small) simp
  then have "uint ?w = (255 - uint ?b + uint (carry s)) mod 65536" by (simp add: uint_word_ariths uint_not_byte b)
  also have "\<dots> = 255 - uint ?b + uint (carry s)" using c byte_bound [of ?b] uint_ge_0 [of "carry s"] by (intro mod_pos_pos_trivial) linarith+
  finally have w: "uint ?w = tc_byte True (uint (carry s)) ?b" by (simp add: tc_byte_def)
  have uw: "(ucast ?w :: byte) = word_of_int (tc_byte True (uint (carry s)) ?b)" by (simp only: ucast_eq [of ?w] w)
  have ud: "(ucast (drop_bit 8 ?w) :: dbl) = word_of_int (tc_byte True (uint (carry s)) ?b div 256)"
    unfolding w [symmetric] ucast_eq [of "drop_bit 8 ?w"] uint_dig_drop by simp
  have up: "(ucast ?val :: byte) = word_of_int (tc_byte False (uint (carry s)) ?b)"
    by (simp add: tc_byte_def) (auto intro!: bit_word_eqI simp: bit_simps)
  show ?thesis
    by (cases n) (simp_all only: as_bytes_emit_def Let_def uw ud up if_True if_False split_conv of_int_uint ucast_id, simp_all)
qed

lemma tc_carry:
  assumes "uint (c :: dbl) \<le> 1"
  shows "uint (word_of_int (if n then tc_byte n (uint c) b div 256 else uint c) :: dbl)
           = (if n then tc_byte n (uint c) b div 256 else uint c)"
    and "(if n then tc_byte n (uint c) b div 256 else uint c) \<le> 1"
proof -
  have "0 \<le> tc_byte n (uint c) b \<and> tc_byte n (uint c) b \<le> 256"
  proof (cases n)
    case True
    then show ?thesis using assms byte_bound [of b] uint_ge_0 [of c] 
      by (simp only: tc_byte_def if_True) (intro conjI; linarith)
  next
    case False
    then show ?thesis using byte_bound [of b] by (simp add: tc_byte_def)
  qed
  then have "0 \<le> tc_byte n (uint c) b div 256" "tc_byte n (uint c) b div 256 \<le> 1" by linarith+
  then show "uint (word_of_int (if n then tc_byte n (uint c) b div 256 else uint c) :: dbl)
           = (if n then tc_byte n (uint c) b div 256 else uint c)"
    and "(if n then tc_byte n (uint c) b div 256 else uint c) \<le> 1"
    using assms by (auto simp: uint_word_of_int_eq take_bit_int_eq_self)
qed

lemma emit_carry:
  assumes "uint (carry s) \<le> 1"
  shows "uint (carry (as_bytes_emit n d s))
           = (if n then tc_byte n (uint (carry s)) (ucast d) div 256 else uint (carry s))"
    and "uint (carry (as_bytes_emit n d s)) \<le> 1"
  using tc_carry [OF assms, of n "ucast d"] unfolding as_bytes_emit_eq [OF assms] Let_def
  by (cases "olen s = 0"; simp)+

lemma emit_fields:
  fixes d :: dbl and n :: bool and s :: as_bytes_state
  assumes "uint (carry s) \<le> 1"
  defines "w \<equiv> word_of_int (tc_byte n (uint (carry s)) (ucast d)) :: byte"
  shows "out (as_bytes_emit n d s) = out s @ take (olen s) [w]"
    "olen (as_bytes_emit n d s) = olen s - 1"
    "okay (as_bytes_emit n d s) \<longleftrightarrow> okay s \<and> (olen s = 0 \<longrightarrow> w = 0)"
  unfolding as_bytes_emit_eq [OF assms(1)] Let_def w_def by (cases "olen s"; simp)+

text \<open>Emitting a list of bytes: what fits is stored, the rest must be zero.\<close>

definition emit_bytes :: "bool \<Rightarrow> byte list \<Rightarrow> as_bytes_state \<Rightarrow> as_bytes_state" where
  "emit_bytes n bs s = fold (\<lambda>b. as_bytes_emit n (ucast b)) bs s"

lemma ucast_byte_dbl: "(ucast (ucast b :: dbl) :: byte) = b"
  by (auto intro!: bit_word_eqI simp: bit_simps)

lemma emit_bytes_fields:
  assumes "uint (carry s) \<le> 1"
  shows "out (emit_bytes n bs s) = out s @ take (olen s) (tc_bytes n (uint (carry s)) bs)
    \<and> olen (emit_bytes n bs s) = olen s - length bs
    \<and> (okay (emit_bytes n bs s)
         \<longleftrightarrow> okay s \<and> (\<forall>b \<in> set (drop (olen s) (tc_bytes n (uint (carry s)) bs)). b = 0))"
  using assms
proof (induction bs arbitrary: s)
  case (Cons b bs)
  let ?s1 = "as_bytes_emit n (ucast b) s" and ?v = "tc_byte n (uint (carry s)) b"
  note f = emit_fields [OF Cons(2), of n "ucast b", unfolded ucast_byte_dbl]
  have t: "tc_bytes n (uint (carry s)) (b # bs) = word_of_int ?v # tc_bytes n (uint (carry ?s1)) bs"
    unfolding emit_carry(1) [OF Cons(2)] ucast_byte_dbl by (simp add: tc_byte_def Let_def)
  have s: "emit_bytes n (b # bs) s = emit_bytes n bs ?s1" by (simp add: emit_bytes_def)
  show ?case using Cons.IH [OF emit_carry(2) [OF Cons(2)], of n "ucast b"] f unfolding t s
    by (cases "olen s") auto
qed (simp add: emit_bytes_def)

lemma as_bytes_emit_cong:
  "uint (carry s) \<le> 1 \<Longrightarrow> (ucast d :: byte) = ucast d' \<Longrightarrow> as_bytes_emit n d s = as_bytes_emit n d' s"
  by (simp add: as_bytes_emit_eq)

lemma as_bytes_bits_digit:
  assumes "uint (carry s) \<le> 1"
  shows "as_bytes_bits n DIG_SIZE (ucast (zdig :: dig)) s = (0, 0, emit_bytes n (dig_bytes zdig) s)"
    and "uint (carry (emit_bytes n (dig_bytes zdig) s)) \<le> 1"
proof -
  let ?d = "ucast zdig :: dbl"
  let ?s1 = "as_bytes_emit n ?d s"
  have z: "drop_bit 8 (drop_bit 8 ?d) = 0" by (rule bit_word_eqI) (simp add: bit_simps)
  have b: "(ucast ?d :: byte) = ucast (ucast (ucast zdig :: byte) :: dbl)"
    "(ucast (drop_bit 8 ?d) :: byte) = ucast (ucast (ucast (drop_bit 8 zdig) :: byte) :: dbl)"
    by (auto intro!: bit_word_eqI simp: bit_simps)
  have e: "as_bytes_emit n (drop_bit 8 ?d) ?s1 = emit_bytes n (dig_bytes zdig) s"
    using as_bytes_emit_cong [OF assms b(1), of n] as_bytes_emit_cong [OF emit_carry(2) [OF assms] b(2)]
    by (simp add: emit_bytes_def dig_bytes_def)
  show "uint (carry (emit_bytes n (dig_bytes zdig) s)) \<le> 1"
    unfolding e [symmetric] by (intro emit_carry(2) assms)
  show "as_bytes_bits n DIG_SIZE ?d s = (0, 0, emit_bytes n (dig_bytes zdig) s)"
    using e z by (simp add: as_bytes_bits.simps del: drop_bit_drop_bit)
qed

lemma as_bytes_loop_eq:
  assumes "uint (carry s) \<le> 1"
  shows "as_bytes_loop n 0 0 s ds = emit_bytes n (digs_bytes ds) s"
  using assms
proof (induction ds arbitrary: s)
  case (Cons d ds)
  note b = as_bytes_bits_digit [OF Cons(2), of n d]
  have "emit_bytes n (digs_bytes (d # ds)) s = emit_bytes n (digs_bytes ds) (emit_bytes n (dig_bytes d) s)"
    by (simp add: emit_bytes_def digs_bytes_def)
  then show ?case using Cons.IH [OF b(2)] b(1) by simp
qed (simp add: emit_bytes_def digs_bytes_def)

text \<open>The bytes stored, least significant first, and the flag before the sign test.\<close>

lemma as_bytes_stored:
  fixes z :: mpz and len :: nat
  assumes "mpz_wf z"
  defines "bs \<equiv> tc_bytes (neg z) 1 (digs_bytes (dig z))"
  defines "s \<equiv> as_bytes_loop (neg z) 0 0 \<lparr>carry = 1, olen = len, okay = True, out = []\<rparr> (dig z)"
  shows "out s = take len bs" "olen s = len - 2 * length (dig z)"
    "okay s \<longleftrightarrow> bytes_val bs < 256 ^ len" "length bs = 2 * length (dig z)"
    "bytes_val bs = mpz_val z mod 256 ^ (2 * length (dig z))"
proof -
  note e = emit_bytes_fields [of "\<lparr>carry = 1, olen = len, okay = True, out = []\<rparr>" "neg z" "digs_bytes (dig z)"]
  have s: "s = emit_bytes (neg z) (digs_bytes (dig z)) \<lparr>carry = 1, olen = len, okay = True, out = []\<rparr>"
    unfolding s_def by (rule as_bytes_loop_eq) simp
  show "out s = take len bs" "olen s = len - 2 * length (dig z)" "okay s \<longleftrightarrow> bytes_val bs < 256 ^ len"
    "length bs = 2 * length (dig z)"
    using e unfolding s bs_def by (simp_all add: length_digs_bytes bytes_val_drop_0)
  have "mpn_val (dig z) < 256 ^ (2 * length (dig z))" using mpn_val_less [of "dig z"] by (simp add: power_mult)
  then show "bytes_val bs = mpz_val z mod 256 ^ (2 * length (dig z))"
    unfolding bs_def by (cases "neg z")
      (simp_all add: tc_bytes_neg tc_bytes_pos digs_bytes_val length_digs_bytes mpz_val_def sgv_def)
qed

lemma mod_power_mono: "m \<le> n \<Longrightarrow> (x::int) mod 256 ^ n mod 256 ^ m = x mod 256 ^ m"
  by (rule mod_mod_cancel) (simp add: le_imp_power_dvd)

lemma bytes_val_fill: "bytes_val (replicate k 0) = 0" "bytes_val (replicate k 0xff) = 256 ^ k - 1"
  by (induction k) simp_all

lemma neg_mod_less: "0 < (m::int) \<Longrightarrow> m < p \<Longrightarrow> (- m) mod p = p - m"
  by (simp add: zmod_zminus1_eq_if)

lemma mpz_as_bytes_val:
  assumes "mpz_wf z"
  shows "length (snd (mpz_as_bytes z big_endian as_signed len)) = len
    \<and> bytes_val (if big_endian then rev (snd (mpz_as_bytes z big_endian as_signed len))
                 else snd (mpz_as_bytes z big_endian as_signed len)) = mpz_val z mod 256 ^ len"
proof -
  let ?n = "2 * length (dig z)"
  define bs where "bs = tc_bytes (neg z) 1 (digs_bytes (dig z))"
  note st = as_bytes_stored(1-3) [OF assms, where len = len, folded bs_def] as_bytes_stored(4,5) [OF assms, folded bs_def]
  let ?fill = "replicate (len - ?n) (if neg z then 0xff else 0) :: byte list"
  have buf: "snd (mpz_as_bytes z big_endian as_signed len)
      = (if big_endian then ?fill @ rev (take len bs) else take len bs @ ?fill)"
    unfolding mpz_as_bytes_def Let_def st(1,2) by simp
  have "bytes_val (take len bs @ ?fill) = mpz_val z mod 256 ^ len"
  proof (cases "len \<le> ?n")
    case True
    then show ?thesis by (simp add: bytes_val_take st(5) mod_power_mono)
  next
    case False
    let ?m = "mpn_val (dig z)"
    have e: "(256::int) ^ len = 256 ^ ?n * 256 ^ (len - ?n)" using False by (simp flip: power_add)
    have m: "?m < 256 ^ ?n" using mpn_val_less [of "dig z"] by (simp add: power_mult)
    also have "\<dots> \<le> 256 ^ len" using False by (intro power_increasing) auto
    finally have ml: "?m < 256 ^ len" .
    have t: "take len bs = bs" using False st(4) by simp
    show ?thesis
    proof (cases "neg z")
      case True
      have "bytes_val (take len bs @ ?fill) = 256 ^ ?n - ?m + 256 ^ ?n * (256 ^ (len - ?n) - 1)"
        unfolding t bytes_val_append st(4,5) using True m mpz_wf_neg [OF assms True]
        by (simp add: bytes_val_fill mpz_val_def sgv_def neg_mod_less)
      also have "\<dots> = 256 ^ len - ?m" unfolding e by (simp add: algebra_simps)
      also have "\<dots> = mpz_val z mod 256 ^ len"
        using True ml mpz_wf_neg [OF assms True] by (simp add: mpz_val_def sgv_def neg_mod_less)
      finally show ?thesis .
    next
      case n: False
      then show ?thesis unfolding t bytes_val_append st(4,5) using m ml by (simp add: bytes_val_fill mpz_val_def sgv_def)
    qed
  qed
  then show ?thesis unfolding buf using st(4) by (simp add: min_def)
qed

lemma byte_top_bit: "((b :: byte) AND 0x80 \<noteq> 0) = (128 \<le> uint b)"
proof -
  have "(b AND 2 ^ 7 = 0) = (\<not> bit b 7)" by (rule and_exp_eq_0_iff_not_bit)
  moreover have "bit b 7 = bit (uint b) 7" by (simp add: bit_uint_iff)
  moreover have "\<dots> = odd (uint b div 2 ^ 7)" by (rule bit_iff_odd)
  moreover have "uint b div 128 = (if uint b < 128 then 0 else 1)" using byte_bound [of b] by auto
  ultimately show ?thesis by (auto split: if_splits)
qed

lemma bytes_top_bit:
  assumes "bs \<noteq> []"
  shows "(last bs AND 0x80 \<noteq> 0) = (256 ^ length bs \<le> 2 * bytes_val bs)"
proof -
  obtain cs b where bs: "bs = cs @ [b]" using assms by (cases bs rule: rev_cases) auto
  let ?p = "256 ^ length cs :: int"
  have v: "2 * bytes_val bs = 2 * bytes_val cs + ?p * (2 * uint b)" by (simp add: bs bytes_val_append algebra_simps)
  have c: "0 \<le> bytes_val cs" "bytes_val cs < ?p" using bytes_val_less by auto
  show ?thesis
  proof (cases "128 \<le> uint b")
    case True
    then have "?p * 256 \<le> ?p * (2 * uint b)" by (intro mult_left_mono) auto
    then have "256 ^ length bs \<le> 2 * bytes_val bs" using c(1) v by (simp only: bs length_append_singleton power_Suc)
    then show ?thesis using True by (simp only: bs byte_top_bit last_snoc simp_thms)
  next
    case False
    then have "?p * (2 * uint b) \<le> ?p * 254" by (intro mult_left_mono) auto
    then have "2 * bytes_val bs < ?p * 256" using c(2) v by linarith
    then show ?thesis using False by (simp add: bs byte_top_bit)
  qed
qed

text \<open>The flag as a condition on the stored number.\<close>

lemma mpz_as_bytes_flag:
  assumes "mpz_wf z"
  shows "fst (mpz_as_bytes z big_endian as_signed len) \<longleftrightarrow>
    mpz_val z mod 256 ^ (2 * length (dig z)) < 256 ^ len
    \<and> (as_signed \<and> len \<le> 2 * length (dig z) \<and> 0 < len
         \<longrightarrow> (256 ^ len \<le> 2 * (mpz_val z mod 256 ^ len)) = neg z)"
proof -
  define bs where "bs = tc_bytes (neg z) 1 (digs_bytes (dig z))"
  note st = as_bytes_stored(1-3) [OF assms, where len = len, folded bs_def] as_bytes_stored(4,5) [OF assms, folded bs_def]
  have "(last (take len bs) AND 0x80 \<noteq> 0) = (256 ^ len \<le> 2 * (mpz_val z mod 256 ^ len))"
    if "len \<le> 2 * length (dig z)" "0 < len"
  proof -
    have "take len bs \<noteq> []" "length (take len bs) = len" using that st(4) by auto
    then show ?thesis
      using bytes_top_bit [of "take len bs"] that by (simp add: bytes_val_take st(5) mod_power_mono)
  qed
  then show ?thesis unfolding mpz_as_bytes_def Let_def st(1-3) st(5) by auto
qed

lemma magnitude_bound: "mpn_val (dig z) < 256 ^ (2 * length (dig z))"
  using mpn_val_less [of "dig z"] by (simp add: power_mult)

text \<open>
  C12. Bytes, values: \<^verbatim>\<open>mpz_as_bytes\<close> always stores the two's complement of the integer modulo 256 to the
  buffer's length, in either byte order and for either sign, and \<^verbatim>\<open>mpz_set_from_bytes\<close> reads the stored
  number back.
\<close>

theorem mpz_bytes_round_trip:
  assumes "mpz_wf z" "\<not> fixed_dig dest"
  shows "length (snd (mpz_as_bytes z big_endian as_signed len)) = len
    \<and> computes (mpz_set_from_bytes dest big_endian (snd (mpz_as_bytes z big_endian as_signed len)))
        (mpz_val z mod 256 ^ len)"
  using mpz_set_from_bytes_computes [OF assms(2), of big_endian "snd (mpz_as_bytes z big_endian as_signed len)"]
    mpz_as_bytes_val [OF assms(1), of big_endian as_signed len] by simp

theorem mpz_bytes_round_trip_witness:
  "computes (mpz_set_from_bytes mpz_init_zero True
      (snd (mpz_as_bytes \<lparr>neg = True, fixed_dig = False, alloc = 2, dig = [2]\<rparr> True True 3))) 16777214"
  using mpz_bytes_round_trip [of "\<lparr>neg = True, fixed_dig = False, alloc = 2, dig = [2]\<rparr>" mpz_init_zero True True 3]
  by (simp add: mpz_eval)

text \<open>
  C13. Bytes, overflow: for an integer that is not negative the flag is true exactly when the integer fits
  the buffer (with a sign bit where one is asked for); for a negative one this holds when the buffer has
  room for all its digits.
\<close>

theorem mpz_as_bytes_flag_correct:
  assumes "mpz_wf z" "0 < len"
  shows "(\<not> neg z \<longrightarrow> fst (mpz_as_bytes z big_endian False len) = (mpz_val z < 256 ^ len))
    \<and> (\<not> neg z \<or> 2 * length (dig z) \<le> len
        \<longrightarrow> fst (mpz_as_bytes z big_endian True len) = (- (256 ^ len) \<le> 2 * mpz_val z \<and> 2 * mpz_val z < 256 ^ len))"
proof -
  let ?n = "2 * length (dig z)" and ?m = "mpn_val (dig z)"
  note fl = mpz_as_bytes_flag [OF assms(1)] and m = magnitude_bound [of z]
  have bigger: "2 * (256::int) ^ ?n \<le> 256 ^ len" if "?n < len"
  proof -
    have "256 * (256::int) ^ ?n \<le> 256 ^ len" using power_increasing [of "Suc ?n" len "256::int"] that by simp
    moreover have "(0::int) < 256 ^ ?n" by simp
    ultimately show ?thesis by linarith
  qed
  show ?thesis
  proof (cases "neg z")
    case True
    have v: "mpz_val z = - ?m" "0 < ?m" using True mpz_wf_neg [OF assms(1)] by (simp_all add: mpz_val_def sgv_def)
    show ?thesis
    proof (cases "?n < len")
      case lt: True
      then show ?thesis using True v m bigger [OF lt] by (simp add: fl neg_mod_less)
    next
      case False
      then show ?thesis using True v m by (auto simp: fl neg_mod_less)
    qed
  next
    case False
    then have v: "mpz_val z = ?m" "mpz_val z mod 256 ^ ?n = ?m" using m by (simp_all add: mpz_val_def sgv_def)
    have "2 * ?m < 256 ^ len" if "?n < len" using bigger [OF that] m by linarith
    moreover have "- (256 ^ len) \<le> 2 * ?m" using mpn_val_nonneg [of "dig z"] zero_less_power [of "256::int" len] by linarith
    ultimately show ?thesis using False v assms(2) by (cases "?n < len") (auto simp: fl)
  qed
qed

theorem mpz_as_bytes_flag_correct_witness:
  "fst (mpz_as_bytes \<lparr>neg = True, fixed_dig = False, alloc = 2, dig = [0x8000]\<rparr> False True 2)
   \<and> \<not> fst (mpz_as_bytes \<lparr>neg = False, fixed_dig = False, alloc = 2, dig = [0x8000]\<rparr> False True 2)"
  using mpz_as_bytes_flag_correct [of "\<lparr>neg = True, fixed_dig = False, alloc = 2, dig = [0x8000]\<rparr>" 2 False]
    mpz_as_bytes_flag_correct [of "\<lparr>neg = False, fixed_dig = False, alloc = 2, dig = [0x8000]\<rparr>" 2 False]
  by (simp add: mpz_eval)

text \<open>
  Bytes, overflow of negative integers: when the buffer is smaller than the digits of a negative integer, the
  test of the remaining bytes compares the complemented bytes with zero, where they are 255 for an integer
  that fits.  So the flag is false for every integer that fits, and where it is true the integer does not
  fit and the buffer holds another one.
\<close>

theorem mpz_as_bytes_negative_flag:
  assumes "mpz_wf z" "neg z" "0 < len" "len < 2 * length (dig z)"
  shows "fst (mpz_as_bytes z big_endian True len) \<longrightarrow> \<not> (- (256 ^ len) \<le> 2 * mpz_val z \<and> 2 * mpz_val z < 256 ^ len)"
proof -
  let ?n = "2 * length (dig z)" and ?m = "mpn_val (dig z)"
  have v: "mpz_val z = - ?m" "0 < ?m" using assms(2) mpz_wf_neg [OF assms(1)] by (simp_all add: mpz_val_def sgv_def)
  have p: "2 * (256::int) ^ len \<le> 256 ^ ?n"
  proof -
    have "256 * (256::int) ^ len \<le> 256 ^ ?n" using power_increasing [of "Suc len" ?n "256::int"] assms(4) by simp
    moreover have "(0::int) < 256 ^ len" by simp
    ultimately show ?thesis by linarith
  qed
  have "256 ^ ?n - ?m < 256 ^ len" if "fst (mpz_as_bytes z big_endian True len)"
    using that mpz_as_bytes_flag [OF assms(1)] v magnitude_bound [of z] by (simp add: neg_mod_less)
  then show ?thesis using p v by force
qed

theorem mpz_as_bytes_negative_flag_witness:
  "\<not> fst (mpz_as_bytes \<lparr>neg = True, fixed_dig = False, alloc = 3, dig = [0, 0, 0x80]\<rparr> False True 5)
   \<and> mpz_as_bytes \<lparr>neg = True, fixed_dig = False, alloc = 3, dig = [1, 0, 0xff00]\<rparr> False True 5
       = (True, [0xff, 0xff, 0xff, 0xff, 0xff])"
proof -
  have "mpz_wf \<lparr>neg = True, fixed_dig = False, alloc = 3, dig = [0, 0, 0x80]\<rparr>" by (simp add: mpz_eval)
  from mpz_as_bytes_negative_flag [OF this, of 5 False]
  have "\<not> fst (mpz_as_bytes \<lparr>neg = True, fixed_dig = False, alloc = 3, dig = [0, 0, 0x80]\<rparr> False True 5)"
    by (simp add: mpz_eval)
  moreover have "mpz_as_bytes \<lparr>neg = True, fixed_dig = False, alloc = 3, dig = [1, 0, 0xff00]\<rparr> False True 5
       = (True, [0xff, 0xff, 0xff, 0xff, 0xff])" by code_simp
  ultimately show ?thesis by blast
qed

end
