(* ===== verification/Mpz_Str.thy ===== *)
theory Mpz_Str
  imports Mpz_Arith
begin

text \<open>
  Conversion of big integers to and from digit strings: \<^verbatim>\<open>mpz_set_from_str\<close> and \<^verbatim>\<open>mpz_as_str_inpl\<close> of
  \<^verbatim>\<open>py/mpz.c\<close>.  The printing loop carries fuel, one step per bit of the number, and the round trip shows
  that this is enough.
\<close>

section \<open>Definitions\<close>

definition digit_value :: "char \<Rightarrow> nat option" where
  "digit_value c =
     (let v = of_char c :: nat
      in if of_char CHR ''0'' \<le> v \<and> v \<le> of_char CHR ''9'' then Some (v - of_char CHR ''0'')
         else if of_char CHR ''A'' \<le> v \<and> v \<le> of_char CHR ''Z'' then Some (v - (of_char CHR ''A'' - 10))
         else if of_char CHR ''a'' \<le> v \<and> v \<le> of_char CHR ''z'' then Some (v - (of_char CHR ''a'' - 10))
         else None)"

fun from_str_loop :: "nat \<Rightarrow> dig list \<Rightarrow> string \<Rightarrow> dig list \<times> nat" where
  "from_str_loop base ds [] = (ds, 0)"
| "from_str_loop base ds (c # cs) =
     (case digit_value c of
        None \<Rightarrow> (ds, 0)
      | Some v \<Rightarrow>
          if v \<ge> base then (ds, 0)
          else apsnd Suc (from_str_loop base (mpn_mul_dig_add_dig ds (of_nat base) (of_nat v)) cs))"

definition mpz_set_from_str :: "mpz \<Rightarrow> string \<Rightarrow> bool \<Rightarrow> nat \<Rightarrow> (mpz \<times> nat) option" where
  "mpz_set_from_str z str n base =
     (if base \<le> 36 then do {
        z \<leftarrow> mpz_need_dig z (length str * 8 div DIG_SIZE + 1);
        let (ds, count) = from_str_loop base [] str;
        Some (z\<lparr>neg := n, dig := ds\<rparr>, count)}
      else None)"

text \<open>
  \<^verbatim>\<open>mpz_as_str_inpl\<close>.  \<open>as_str_div\<close> is one pass of the division by the base, on the digits highest first;
  the result is the quotient and the remainder.  The \<^verbatim>\<open>do ... while (!done)\<close> loop appends to \<open>s\<close>, which is
  reversed at the end; \<open>last_comma\<close> is the offset of that pointer.  \<open>comma\<close> and \<open>prefix\<close> are \<open>None\<close> for the null
  character and the null pointer.
\<close>

fun as_str_div :: "dbl \<Rightarrow> dbl \<Rightarrow> dig list \<Rightarrow> dig list \<times> dbl" where
  "as_str_div base a [] = ([], a)"
| "as_str_div base a (d # ds) =
     (let a = push_bit DIG_SIZE a OR ucast d;
          (q, r) = as_str_div base (a mod base) ds
      in (ucast (a div base) # q, r))"

definition digit_char :: "char \<Rightarrow> dbl \<Rightarrow> char" where
  "digit_char base_char a =
     (let a = a + of_char CHR ''0'';
          a = (if a > of_char CHR ''9'' then a + (of_char base_char - of_char CHR ''9'' - 1) else a)
      in char_of (unat a mod 256))"

fun as_str_loop :: "nat \<Rightarrow> dbl \<Rightarrow> char \<Rightarrow> char option \<Rightarrow> nat \<Rightarrow> dig list \<Rightarrow> string \<Rightarrow> nat \<Rightarrow> string option" where
  "as_str_loop 0 base base_char comma n_comma digs s last_comma = None"
| "as_str_loop (Suc fuel) base base_char comma n_comma digs s last_comma =
     (let (q, a) = as_str_div base 0 digs;
          s = s @ [digit_char base_char a];
          finished = list_all (\<lambda>d. d = 0) q
      in if finished then Some s
         else case comma of
           Some c \<Rightarrow> if length s - last_comma = n_comma
                     then as_str_loop fuel base base_char comma n_comma q (s @ [c]) (length s + 1)
                     else as_str_loop fuel base base_char comma n_comma q s last_comma
         | None \<Rightarrow> as_str_loop fuel base base_char comma n_comma q s last_comma)"

definition mpz_as_str_inpl :: "mpz \<Rightarrow> nat \<Rightarrow> string option \<Rightarrow> char \<Rightarrow> char option \<Rightarrow> string option" where
  "mpz_as_str_inpl i base prefix base_char comma =
     (if \<not> (2 \<le> base \<and> base \<le> 32) then None
      else if dig i = [] then Some ((case prefix of None \<Rightarrow> [] | Some p \<Rightarrow> p) @ ''0'')
      else map_option (\<lambda>s. rev (s @ rev ((case prefix of None \<Rightarrow> [] | Some p \<Rightarrow> p)) @ (if neg i then ''-'' else [])))
             (as_str_loop (16 * length (dig i) + 1) (of_nat base) base_char comma
                (if base = 10 then 3 else 4) (rev (dig i)) [] 0))"


section \<open>One division pass\<close>

lemma uint_shift_in_dig:
  fixes a :: dbl and d :: dig
  assumes "uint a < 65536"
  shows "uint (push_bit DIG_SIZE a OR ucast d) = uint a * 65536 + uint d"
proof -
  have "push_bit DIG_SIZE a OR ucast d = push_bit DIG_SIZE a + ucast d"
    by (rule disjunctive_add_eq_or [symmetric]) (auto intro!: bit_word_eqI simp: bit_simps)
  also have "uint \<dots> = (uint a * 65536 + uint d) mod 4294967296"
    by (simp add: uint_word_ariths push_bit_eq_mult dig_simps mod_simps)
  also have "\<dots> = uint a * 65536 + uint d" using assms dig_bound [of d] by (intro mod_pos_pos_trivial) auto
  finally show ?thesis .
qed

lemma as_str_div_val:
  fixes base a :: dbl
  assumes "2 \<le> uint base" "uint base \<le> 32" "uint a < uint base"
  shows "mpn_val (rev (fst (as_str_div base a hs))) * uint base + uint (snd (as_str_div base a hs))
           = uint a * 65536 ^ length hs + mpn_val (rev hs)
         \<and> uint (snd (as_str_div base a hs)) < uint base \<and> length (fst (as_str_div base a hs)) = length hs"
  using assms(3)
proof (induction hs arbitrary: a)
  case (Cons d hs)
  let ?a = "push_bit DIG_SIZE a OR ucast d" and ?b = "uint base"
  have a: "uint ?a = uint a * 65536 + uint d" using Cons(2) assms(2) by (intro uint_shift_in_dig) simp
  have m: "uint (?a mod base) = (uint a * 65536 + uint d) mod ?b" "uint (?a div base) = (uint a * 65536 + uint d) div ?b"
    by (simp_all only: uint_mod uint_div a)
  have bpos: "0 < ?b" using assms(1) by simp
  have "(uint a * 65536 + uint d) div ?b < 65536"
  proof (rule int_div_lessI [OF bpos])
    have "(uint a + 1) * 65536 \<le> ?b * 65536" using Cons(2) by (intro mult_right_mono) auto
    then show "uint a * 65536 + uint d < 65536 * ?b" using dig_bound [of d] by (simp add: algebra_simps)
  qed
  then have q: "uint (ucast (?a div base) :: dig) = (uint a * 65536 + uint d) div ?b"
    using m(2) by (subst uint_ucast_small) simp_all
  have "uint (?a mod base) < ?b" using m(1) bpos by simp
  from Cons.IH [OF this] obtain q' r' where ih: "as_str_div base (?a mod base) hs = (q', r')"
      "mpn_val (rev q') * ?b + uint r' = uint (?a mod base) * 65536 ^ length hs + mpn_val (rev hs)"
      "uint r' < ?b" "length q' = length hs" by (cases "as_str_div base (?a mod base) hs") auto
  define Q R where "Q = (uint a * 65536 + uint d) div ?b" and "R = (uint a * 65536 + uint d) mod ?b"
  have QR: "uint a * 65536 + uint d = Q * ?b + R" unfolding Q_def R_def by simp
  have "(mpn_val (rev q') + 65536 ^ length hs * Q) * ?b + uint r' = (Q * ?b + R) * 65536 ^ length hs + mpn_val (rev hs)"
    using ih(2) unfolding m(1) R_def [symmetric] by (simp add: algebra_simps)
  also have "\<dots> = uint a * 65536 ^ length (d # hs) + mpn_val (rev (d # hs))"
    unfolding QR [symmetric] by (simp add: mpn_val_append algebra_simps)
  finally show ?case using ih q by (simp add: Let_def mpn_val_append Q_def)
qed simp

section \<open>Printing\<close>

text \<open>The digits of a number, least significant first, at least one.\<close>

function digits_of :: "nat \<Rightarrow> nat \<Rightarrow> nat list" where
  "digits_of base v = (if base < 2 \<or> v < base then [v] else (v mod base) # digits_of base (v div base))"
  by auto
termination by (relation "measure snd") auto

declare digits_of.simps [simp del]

lemma list_all_0_val: "list_all (\<lambda>d. d = 0) q = (mpn_val (rev q) = 0)"
  by (simp add: mpn_val_eq_0 list_all_iff)

lemma as_str_loop_digits:
  fixes b :: nat
  assumes "2 \<le> b" "b \<le> 32" "nat (mpn_val (rev digs)) < 2 ^ k" "k < fuel"
  shows "as_str_loop fuel (of_nat b) base_char None n_comma digs s last_comma
     = Some (s @ map (\<lambda>a. digit_char base_char (of_nat a)) (digits_of b (nat (mpn_val (rev digs)))))"
  using assms(3,4)
proof (induction fuel arbitrary: digs s k)
  case (Suc fuel)
  let ?V = "nat (mpn_val (rev digs))" and ?base = "of_nat b :: dbl"
  have ub: "uint ?base = int b" using assms(2) by (simp add: unsigned_of_nat take_bit_nat_eq_self)
  obtain q a where qa: "as_str_div ?base 0 digs = (q, a)" by fastforce
  have d: "mpn_val (rev q) * int b + uint a = mpn_val (rev digs)" "uint a < int b"
    using as_str_div_val [of ?base 0 digs] assms(1,2) qa ub by simp_all
  have vq: "nat (mpn_val (rev q)) = ?V div b" and va: "unat a = ?V mod b"
  proof -
    have "mpn_val (rev digs) div int b = mpn_val (rev q)" "mpn_val (rev digs) mod int b = uint a"
      using d assms(1) by (auto simp: d(1) [symmetric] div_pos_pos_trivial)
    then show "nat (mpn_val (rev q)) = ?V div b" "unat a = ?V mod b"
      using nat_div_distrib [OF mpn_val_nonneg, of "rev digs" "int b"] nat_mod_distrib [of "mpn_val (rev digs)" "int b"]
      by (simp_all only: unat_eq_nat_uint nat_int mpn_val_nonneg of_nat_0_le_iff simp_thms)
  qed
  have a: "a = of_nat (?V mod b)" unfolding va [symmetric] by simp
  have fin: "list_all (\<lambda>d. d = 0) q \<longleftrightarrow> ?V < b"
  proof -
    have "list_all (\<lambda>d. d = 0) q \<longleftrightarrow> ?V div b = 0"
      using vq mpn_val_nonneg [of "rev q"] unfolding list_all_0_val by linarith
    then show ?thesis using assms(1) by (simp add: div_eq_0_iff)
  qed
  show ?case
  proof (cases "?V < b")
    case True
    then show ?thesis using qa fin a by (simp add: digits_of.simps [of b ?V])
  next
    case False
    then have "0 < ?V" using assms(1) by simp
    have "?V div b < 2 ^ (k - 1)"
    proof -
      have "k \<noteq> 0" using Suc(2) \<open>0 < ?V\<close> by (cases k) auto
      then have "?V < 2 * 2 ^ (k - 1)" using Suc(2) by (cases k) auto
      moreover have "?V div b \<le> ?V div 2" using assms(1) by (intro div_le_mono2) auto
      ultimately show ?thesis by linarith
    qed
    moreover have "k - 1 < fuel" using Suc(2,3) False assms(1) by (cases k) auto
    ultimately have "as_str_loop fuel ?base base_char None n_comma q (s @ [digit_char base_char a]) last_comma
      = Some ((s @ [digit_char base_char a]) @ map (\<lambda>a. digit_char base_char (of_nat a)) (digits_of b (?V div b)))"
      using Suc.IH [of q "k - 1"] vq by simp
    then show ?thesis using qa fin a False assms(1) by (simp add: digits_of.simps [of b ?V])
  qed
qed simp

lemma mpz_as_str_plain:
  assumes "mpz_wf i" "2 \<le> base" "base \<le> 32"
  shows "mpz_as_str_inpl i base None base_char None = Some ((if neg i then ''-'' else [])
    @ rev (map (\<lambda>a. digit_char base_char (of_nat a)) (digits_of base (nat \<bar>mpz_val i\<bar>))))"
proof -
  have v: "nat \<bar>mpz_val i\<bar> = nat (mpn_val (dig i))" by (simp add: mpz_val_def sgv_def)
  show ?thesis
  proof (cases "dig i = []")
    case True
    moreover have "char_of (48 :: nat) = CHR ''0''" by code_simp
    then have "digit_char base_char 0 = CHR ''0''" by (simp add: digit_char_def)
    ultimately show ?thesis using assms v by (auto simp: mpz_as_str_inpl_def mpz_wf_def digits_of.simps [of base 0])
  next
    case False
    have "mpn_val (dig i) < 2 ^ (16 * length (dig i))" using mpn_val_less [of "dig i"] by (simp add: power_mult)
    then have "nat (mpn_val (rev (rev (dig i)))) < 2 ^ (16 * length (dig i))" by (simp add: nat_less_iff)
    from as_str_loop_digits [OF assms(2,3) this, of "16 * length (dig i) + 1"]
    show ?thesis using False assms v by (simp add: mpz_as_str_inpl_def del: as_str_loop.simps)
  qed
qed

section \<open>Parsing\<close>

lemma mpn_mul_dig_loop_normalised:
  "normalised is \<Longrightarrow> dmul \<noteq> 0 \<Longrightarrow> uint carry < 65536 \<Longrightarrow> normalised (mpn_mul_dig_loop carry is dmul)"
proof (induction carry "is" dmul rule: mpn_mul_dig_loop.induct)
  case (1 carry i "is" dmul)
  let ?c = "carry + ucast i * ucast dmul"
  let ?rest = "mpn_mul_dig_loop (drop_bit DIG_SIZE ?c) is dmul"
  note c = mul_carry [OF 1(4), of i dmul]
  have n: "normalised ?rest" using 1 c(2) by (auto simp: normalised_def split: if_splits)
  show ?case
  proof (cases "?rest = []")
    case True
    then have "is = []" by (cases "is") (auto simp: Let_def)
    then have "i \<noteq> 0" using 1(2) by (simp add: normalised_def)
    then have "0 < uint i * uint dmul" using 1(3) uint_0_iff [of i] uint_0_iff [of dmul] uint_ge_0 [of i] uint_ge_0 [of dmul]
      by (intro mult_pos_pos) linarith+
    then have "0 < uint ?c" using c(1) uint_ge_0 [of carry] by linarith
    moreover have "drop_bit DIG_SIZE ?c = 0" using True \<open>is = []\<close> by (simp split: if_splits)
    then have "uint ?c = uint (lo_dig ?c)" using carry_split [of ?c] by simp
    ultimately have "lo_dig ?c \<noteq> 0" by (metis less_irrefl unsigned_0)
    then show ?thesis using True by (simp add: Let_def normalised_def)
  next
    case False
    then show ?thesis using n by (simp add: Let_def normalised_def)
  qed
next
  case (2 carry dmul)
  then have "carry \<noteq> 0 \<Longrightarrow> ucast carry \<noteq> (0 :: dig)" using uint_ucast_small [of carry] by (metis uint_0_iff unsigned_0)
  then show ?case by (simp add: normalised_def)
qed

lemma digit_value_bound: "digit_value c = Some v \<Longrightarrow> v < 36"
  by (auto simp: digit_value_def Let_def split: if_splits)

definition horner :: "nat \<Rightarrow> int \<Rightarrow> nat list \<Rightarrow> int" where
  "horner base acc vs = foldl (\<lambda>acc v. acc * int base + int v) acc vs"

text \<open>
  Parsing reads the longest prefix of digits of the base and evaluates it by Horner's rule.
\<close>

definition valid_digits :: "nat \<Rightarrow> string \<Rightarrow> nat list" where
  "valid_digits base str =
     map (\<lambda>c. the (digit_value c)) (takeWhile (\<lambda>c. case digit_value c of None \<Rightarrow> False | Some v \<Rightarrow> v < base) str)"

lemma from_str_loop_spec:
  assumes "normalised ds" "2 \<le> base" "base \<le> 36"
  shows "\<exists>ds'. from_str_loop base ds str = (ds', length (valid_digits base str)) \<and> normalised ds'
           \<and> mpn_val ds' = horner base (mpn_val ds) (valid_digits base str)"
  using assms(1)
proof (induction str arbitrary: ds)
  case (Cons c str)
  show ?case
  proof (cases "\<exists>v. digit_value c = Some v \<and> v < base")
    case True
    then obtain v where v: "digit_value c = Some v" "v < base" by blast
    let ?ds = "mpn_mul_dig_add_dig ds (of_nat base) (of_nat v)"
    have w: "uint (of_nat base :: dig) = int base" "uint (of_nat v :: dig) = int v"
      using assms(3) v(2) by (simp_all add: unsigned_of_nat take_bit_nat_eq_self)
    have "of_nat base \<noteq> (0 :: dig)"
    proof
      assume "of_nat base = (0 :: dig)"
      then have "uint (of_nat base :: dig) = 0" by simp
      then show False using w(1) assms(2) by simp
    qed
    then have n: "normalised ?ds"
      unfolding mpn_mul_dig_add_dig_def using Cons(2) dig_bound(2) [of "of_nat v"]
      by (intro mpn_mul_dig_loop_normalised) (simp_all only: dig_simps not_False_eq_True)
    from Cons.IH [OF n] show ?thesis
      using v w by (auto simp: valid_digits_def horner_def mpn_mul_dig_add_dig_val)
  next
    case False
    then show ?thesis using Cons(2) by (auto simp: valid_digits_def horner_def split: option.splits)
  qed
qed (simp add: valid_digits_def horner_def)

lemma horner_bound:
  assumes "0 \<le> acc" "acc < int base ^ k" "\<forall>v \<in> set vs. v < base"
  shows "0 \<le> horner base acc vs \<and> horner base acc vs < int base ^ (k + length vs)"
  using assms
proof (induction vs arbitrary: acc k)
  case (Cons v vs)
  have "(acc + 1) * int base \<le> int base ^ k * int base" using Cons(3) by (intro mult_right_mono) auto
  then have "acc * int base + int v < int base ^ Suc k" using Cons(4) by (simp add: algebra_simps)
  then show ?case using Cons.IH [of "acc * int base + int v" "Suc k"] Cons(2,4) by (simp add: horner_def)
qed (simp add: horner_def)

lemma mpz_set_from_str_spec:
  assumes "\<not> fixed_dig z" "2 \<le> base" "base \<le> 36"
    and "n \<Longrightarrow> horner base 0 (valid_digits base str) \<noteq> 0"
  shows "\<exists>z'. mpz_set_from_str z str n base = Some (z', length (valid_digits base str)) \<and> mpz_wf z'
           \<and> mpz_val z' = (if n then - horner base 0 (valid_digits base str) else horner base 0 (valid_digits base str))"
proof -
  let ?vs = "valid_digits base str"
  obtain ds where ds: "from_str_loop base [] str = (ds, length ?vs)" "normalised ds" "mpn_val ds = horner base 0 ?vs"
    using from_str_loop_spec [of "[]" base str] assms(2,3) by (auto simp: normalised_def)
  have vs: "\<forall>v \<in> set ?vs. v < base" "length ?vs \<le> length str"
    by (auto simp: valid_digits_def length_takeWhile_le dest!: set_takeWhileD split: option.splits)
  have "mpn_val ds < int base ^ length ?vs" using horner_bound [of 0 base 0 ?vs] vs(1) assms(2) ds(3) by simp
  also have "\<dots> \<le> 256 ^ length ?vs" using assms(3) by (intro power_mono) auto
  also have "\<dots> \<le> 256 ^ length str" using vs(2) by (intro power_increasing) auto
  also have "(256::int) ^ length str = 2 ^ (8 * length str)" by (simp add: power_mult)
  also have "\<dots> \<le> 2 ^ (16 * (length str * 8 div 16 + 1))" by (intro power_increasing) auto
  also have "\<dots> = 65536 ^ (length str * 8 div 16 + 1)" by (simp only: power_mult) simp
  finally have "length ds \<le> length str * 8 div 16 + 1" by (rule normalised_length_le [OF ds(2)])
  moreover have "n \<Longrightarrow> ds \<noteq> []" using assms(4) ds(3) by auto
  ultimately show ?thesis
    using assms(1,3) ds by (auto simp: mpz_set_from_str_def mpz_need_dig_eq mpz_wf_def mpz_val_def sgv_def)
qed

section \<open>Properties\<close>

lemma digit_char_value:
  assumes "a < 32" "base_char \<in> {CHR ''a'', CHR ''A''}"
  shows "digit_value (digit_char base_char (of_nat a)) = Some a"
proof -
  have a: "unat (of_nat a :: dbl) = a" using assms(1) by (simp add: unsigned_of_nat take_bit_nat_eq_self)
  have s: "unat (of_nat a + 48 :: dbl) = a + 48" using assms(1) by (simp add: unat_word_ariths a)
  have g: "(57 < (of_nat a + 48 :: dbl)) = (9 < a)" using s by (simp add: word_less_nat_alt)
  show ?thesis
  proof (cases "9 < a")
    case True
    have "unat (of_nat a + 48 + 39 :: dbl) = a + 87" "unat (of_nat a + 48 + 7 :: dbl) = a + 55"
      using assms(1) by (simp_all only: unat_word_ariths(1) [of "of_nat a + 48"] s) simp_all
    then show ?thesis using True assms g by (auto simp: digit_char_def digit_value_def Let_def)
  next
    case False
    then show ?thesis using assms g s by (simp add: digit_char_def digit_value_def Let_def)
  qed
qed

lemma digits_of_bound: "2 \<le> base \<Longrightarrow> \<forall>a \<in> set (digits_of base v). a < base"
proof (induction base v rule: digits_of.induct)
  case (1 base v)
  show ?case
  proof (cases "v < base")
    case True
    then have "digits_of base v = [v]" by (simp add: digits_of.simps [of base v])
    with True show ?thesis by simp
  next
    case False
    then have "digits_of base v = (v mod base) # digits_of base (v div base)" using 1(2) by (simp add: digits_of.simps [of base v])
    with False show ?thesis using 1 by simp
  qed
qed

lemma horner_digits_of: "2 \<le> base \<Longrightarrow> horner base 0 (rev (digits_of base v)) = int v"
proof (induction base v rule: digits_of.induct)
  case (1 base v)
  show ?case
  proof (cases "v < base")
    case True
    then show ?thesis by (simp add: digits_of.simps [of base v] horner_def)
  next
    case False
    have "int (v div base) * int base + int (v mod base) = int v" by (metis div_mult_mod_eq of_nat_add of_nat_mult)
    moreover have "digits_of base v = (v mod base) # digits_of base (v div base)"
      using False 1(2) by (simp add: digits_of.simps [of base v])
    ultimately show ?thesis using 1 False by (simp add: horner_def)
  qed
qed

lemma valid_digits_printed:
  assumes "2 \<le> base" "base \<le> 32" "base_char \<in> {CHR ''a'', CHR ''A''}" "\<forall>a \<in> set ds. a < base"
  shows "valid_digits base (map (\<lambda>a. digit_char base_char (of_nat a)) ds) = ds"
  using assms(4)
proof (induction ds)
  case (Cons a ds)
  moreover have "digit_value (digit_char base_char (of_nat a)) = Some a"
    using Cons(2) assms(2,3) by (intro digit_char_value) auto
  ultimately show ?case by (simp add: valid_digits_def)
qed (simp add: valid_digits_def)

text \<open>
  C11. Printing and parsing: for every base from 2 to 32 \<^verbatim>\<open>mpz_as_str_inpl\<close> returns the sign followed by a
  string that \<^verbatim>\<open>mpz_set_from_str\<close> reads to its end, in the same base and with the sign passed separately
  as its callers do, giving back the integer; the buffer it reserves (eight bits a character) is
  enough.
\<close>

theorem mpz_str_round_trip:
  assumes "mpz_wf z" "2 \<le> base" "base \<le> 32" "base_char \<in> {CHR ''a'', CHR ''A''}" "\<not> fixed_dig dest"
  shows "\<exists>str z'. mpz_as_str_inpl z base None base_char None = Some ((if neg z then ''-'' else []) @ str)
           \<and> mpz_set_from_str dest str (neg z) base = Some (z', length str)
           \<and> mpz_wf z' \<and> mpz_val z' = mpz_val z"
proof -
  let ?ds = "digits_of base (nat \<bar>mpz_val z\<bar>)"
  let ?str = "rev (map (\<lambda>a. digit_char base_char (of_nat a)) ?ds)"
  have v: "valid_digits base ?str = rev ?ds"
    using valid_digits_printed [OF assms(2-4), of "rev ?ds"] digits_of_bound [OF assms(2)] by (simp add: rev_map)
  have h: "horner base 0 (rev ?ds) = \<bar>mpz_val z\<bar>" using horner_digits_of [OF assms(2)] by simp
  have nz: "neg z \<Longrightarrow> horner base 0 (valid_digits base ?str) \<noteq> 0"
    using mpz_wf_neg [OF assms(1)] unfolding v h by (simp add: mpz_val_def sgv_def)
  have "base \<le> 36" using assms(3) by simp
  from mpz_set_from_str_spec [OF assms(5,2) this nz]
  obtain z' where "mpz_set_from_str dest ?str (neg z) base = Some (z', length ?str)" "mpz_wf z'"
    "mpz_val z' = (if neg z then - \<bar>mpz_val z\<bar> else \<bar>mpz_val z\<bar>)" unfolding v h by auto
  then show ?thesis
    using mpz_as_str_plain [OF assms(1-3), of base_char] mpz_val_neg_iff [OF assms(1)]
    by (intro exI [of _ ?str] exI [of _ z']) simp
qed

theorem mpz_str_round_trip_witness:
  "\<exists>str z'. mpz_as_str_inpl \<lparr>neg = True, fixed_dig = False, alloc = 2, dig = [1, 1]\<rparr> 16 None CHR ''a'' None = Some (''-'' @ str)
     \<and> mpz_set_from_str mpz_init_zero str True 16 = Some (z', length str) \<and> mpz_val z' = - 65537"
  using mpz_str_round_trip [of "\<lparr>neg = True, fixed_dig = False, alloc = 2, dig = [1, 1]\<rparr>" 16 "CHR ''a''" mpz_init_zero]
  by (auto simp: mpz_wf_def normalised_def mpz_init_zero_def mpz_val_def [of "\<lparr>neg = True, fixed_dig = False, alloc = 2, dig = [1, 1]\<rparr>"] sgv_def)

text \<open>
  Parsing: \<^verbatim>\<open>mpz_set_from_str\<close> consumes exactly the longest prefix of digits below the base (bases up to 36)
  and returns its value by Horner's rule, for every input string.
\<close>

theorem mpz_set_from_str_correct:
  assumes "\<not> fixed_dig z" "2 \<le> base" "base \<le> 36"
  shows "\<exists>z'. mpz_set_from_str z str False base = Some (z', length (valid_digits base str)) \<and> mpz_wf z'
           \<and> mpz_val z' = horner base 0 (valid_digits base str)"
  using mpz_set_from_str_spec [OF assms, of False str] by simp

theorem mpz_set_from_str_correct_witness:
  "\<exists>z'. mpz_set_from_str mpz_init_zero ''12g4'' False 16 = Some (z', 2) \<and> mpz_val z' = 18"
proof -
  have "valid_digits 16 ''12g4'' = [1, 2]" by code_simp
  then show ?thesis using mpz_set_from_str_correct [of mpz_init_zero 16 "''12g4''"]
    by (auto simp: mpz_init_zero_def horner_def)
qed

end
