(* ===== verification/Display.thy ===== *)
theory Display
  imports Prelude
begin

text \<open>
  The LCD driver of the calculator: \<^verbatim>\<open>c_modules/display/st7565.c\<close> and its MicroPython module
  \<^verbatim>\<open>modst7565.c\<close>.  A driver function is the sequence of actions it performs on the GPIO pins and on the
  SPI bus, in order; \<open>None\<close> is a read outside the caller's buffer.  What the controller chip does with the
  bytes is an interface (the locale \<open>st7565_controller\<close>), with the behaviour of its data sheet as laws.
\<close>

section \<open>The driver\<close>

record st7565 =
  cs :: int
  rs :: int
  rst :: int

datatype bus_action =
    Gpio_set_direction_output int
  | Gpio_set_level int bool
  | Spi_bus_initialize nat int int
  | Spi_bus_add_device
  | Spi_device_transmit byte
  | V_task_delay_ms nat

type_synonym bus_trace = "bus_action list"

abbreviation (input) ST7565_WIDTH :: nat where
  "ST7565_WIDTH \<equiv> 128"

abbreviation (input) ST7565_PAGES :: nat where
  "ST7565_PAGES \<equiv> 8"

definition xfer :: "st7565 \<Rightarrow> byte \<Rightarrow> bool \<Rightarrow> bus_trace" where
  "xfer d v data =
     [Gpio_set_level (rs d) data, Gpio_set_level (cs d) False, Spi_device_transmit v, Gpio_set_level (cs d) True]"

definition CMD :: "st7565 \<Rightarrow> byte \<Rightarrow> bus_trace" where
  "CMD d v = xfer d v False"

definition DAT :: "st7565 \<Rightarrow> byte \<Rightarrow> bus_trace" where
  "DAT d v = xfer d v True"

definition st7565_write_instruction :: "st7565 \<Rightarrow> byte \<Rightarrow> bus_trace" where
  "st7565_write_instruction d c = CMD d c"

definition st7565_write_data :: "st7565 \<Rightarrow> byte \<Rightarrow> bus_trace" where
  "st7565_write_data d dta = DAT d dta"

definition st7565_set_page_address :: "st7565 \<Rightarrow> byte \<Rightarrow> bus_trace" where
  "st7565_set_page_address d p = CMD d (0xB0 OR (p AND 0x0F))"

definition st7565_set_column_address :: "st7565 \<Rightarrow> byte \<Rightarrow> bus_trace" where
  "st7565_set_column_address d c = CMD d (0x10 OR drop_bit 4 c) @ CMD d (0x00 OR (c AND 0x0F))"

definition st7565_clear_display :: "st7565 \<Rightarrow> bus_trace" where
  "st7565_clear_display d =
     concat (map (\<lambda>p. st7565_set_page_address d (of_nat p) @ st7565_set_column_address d 0
                      @ concat (map (\<lambda>i. DAT d 0) [0..<ST7565_WIDTH]))
              [0..<ST7565_PAGES])"

definition read_byte :: "byte list \<Rightarrow> nat \<Rightarrow> byte option" where
  "read_byte buf i = (if i < length buf then Some (buf ! i) else None)"

fun sequence_trace :: "bus_trace option list \<Rightarrow> bus_trace option" where
  "sequence_trace [] = Some []"
| "sequence_trace (t # ts) =
     (case t of None \<Rightarrow> None | Some t \<Rightarrow> map_option ((@) t) (sequence_trace ts))"

definition st7565_draw_buffer_ex ::
    "st7565 \<Rightarrow> byte list \<Rightarrow> byte \<Rightarrow> byte \<Rightarrow> byte \<Rightarrow> byte \<Rightarrow> bus_trace option" where
  "st7565_draw_buffer_ex d buf page col width pages =
     sequence_trace (map (\<lambda>p.
         map_option (\<lambda>row. st7565_set_page_address d (page + of_nat p) @ st7565_set_column_address d col @ row)
           (sequence_trace (map (\<lambda>i. map_option (DAT d) (read_byte buf (p * unat width + i))) [0..<unat width])))
       [0..<unat pages])"

definition st7565_draw_buffer :: "st7565 \<Rightarrow> byte list \<Rightarrow> bus_trace option" where
  "st7565_draw_buffer d buf = st7565_draw_buffer_ex d buf 0 0 128 8"

definition st7565_contrast :: "st7565 \<Rightarrow> byte \<Rightarrow> bus_trace" where
  "st7565_contrast d lvl = CMD d 0x81 @ CMD d (lvl AND 0x3F)"

definition st7565_invert :: "st7565 \<Rightarrow> bool \<Rightarrow> bus_trace" where
  "st7565_invert d invert = CMD d (if invert then 0xA7 else 0xA6)"

definition st7565_power_off :: "st7565 \<Rightarrow> bus_trace" where
  "st7565_power_off d = CMD d 0xAE"

definition st7565_power_on :: "st7565 \<Rightarrow> bus_trace" where
  "st7565_power_on d = CMD d 0xAF"

definition st7565_init :: "nat \<Rightarrow> int \<Rightarrow> int \<Rightarrow> int \<Rightarrow> int \<Rightarrow> int \<Rightarrow> st7565 \<times> bus_trace" where
  "st7565_init host cs_pin rs_pin rst_pin sda sck =
     (let d = \<lparr>cs = cs_pin, rs = rs_pin, rst = rst_pin\<rparr>
      in (d,
          [Gpio_set_direction_output cs_pin, Gpio_set_direction_output rs_pin, Gpio_set_direction_output rst_pin,
           Spi_bus_initialize host sda sck, Spi_bus_add_device,
           Gpio_set_level rst_pin False, V_task_delay_ms 50,
           Gpio_set_level rst_pin True, V_task_delay_ms 50]
          @ concat (map (CMD d) [0xAE, 0xA2, 0xA0, 0xC8, 0xA6, 0x2F, 0x27, 0x81, 0x02, 0xAF])))"

section \<open>The MicroPython module\<close>

text \<open>
  The functions the interpreter calls, on the integers that \<^verbatim>\<open>mp_obj_get_int\<close> and \<^verbatim>\<open>mp_arg_parse_all\<close>
  deliver (signed 32-bit).  C converts them to the driver's \<^verbatim>\<open>uint8_t\<close> parameters, which keeps the low
  eight bits.
\<close>

definition mp_st7565_init :: "int list \<Rightarrow> (st7565 \<times> bus_trace) result" where
  "mp_st7565_init a =
     (if length a \<noteq> 5 then Inl (TypeError ''init(cs,rs,rst,sda,sck)'')
      else Inr (st7565_init 1 (a ! 0) (a ! 1) (a ! 2) (a ! 3) (a ! 4)))"

definition mp_st7565_draw :: "st7565 \<Rightarrow> byte list \<Rightarrow> int \<Rightarrow> int \<Rightarrow> int \<Rightarrow> int \<Rightarrow> bus_trace option result" where
  "mp_st7565_draw disp buf page column width pages =
     (let expected_size = s32 (width * pages)
      in if int (length buf) \<noteq> expected_size mod 2 ^ 32 then Inl (ValueError ''buffer size mismatch'')
         else Inr (st7565_draw_buffer_ex disp buf (word_of_int page) (word_of_int column)
                     (word_of_int width) (word_of_int pages)))"

definition mp_st7565_clear :: "st7565 \<Rightarrow> bus_trace" where
  "mp_st7565_clear disp = st7565_clear_display disp"

definition mp_st7565_contrast :: "st7565 \<Rightarrow> int \<Rightarrow> bus_trace" where
  "mp_st7565_contrast disp a0 = st7565_contrast disp (word_of_int a0)"

definition mp_st7565_invert :: "st7565 \<Rightarrow> bool \<Rightarrow> bus_trace" where
  "mp_st7565_invert disp a0 = st7565_invert disp a0"

definition mp_st7565_on :: "st7565 \<Rightarrow> bus_trace" where
  "mp_st7565_on disp = st7565_power_on disp"

definition mp_st7565_off :: "st7565 \<Rightarrow> bus_trace" where
  "mp_st7565_off disp = st7565_power_off disp"

definition mp_st7565_set_page :: "st7565 \<Rightarrow> int \<Rightarrow> bus_trace" where
  "mp_st7565_set_page disp a0 = st7565_set_page_address disp (word_of_int a0)"

definition mp_st7565_set_col :: "st7565 \<Rightarrow> int \<Rightarrow> bus_trace" where
  "mp_st7565_set_col disp a0 = st7565_set_column_address disp (word_of_int a0)"

definition mp_st7565_cmd :: "st7565 \<Rightarrow> int \<Rightarrow> bus_trace" where
  "mp_st7565_cmd disp a0 = st7565_write_instruction disp (word_of_int a0)"

definition mp_st7565_data :: "st7565 \<Rightarrow> int \<Rightarrow> bus_trace" where
  "mp_st7565_data disp a0 = st7565_write_data disp (word_of_int a0)"

section \<open>What reaches the controller\<close>

text \<open>
  The bytes the chip latches: those transmitted while its chip select is low, each with the level of the
  register-select pin (true for display data).
\<close>

fun latched :: "st7565 \<Rightarrow> bool \<Rightarrow> bool \<Rightarrow> bus_trace \<Rightarrow> (bool \<times> byte) list" where
  "latched d csl rsl [] = []"
| "latched d csl rsl (Gpio_set_level p l # t) =
     latched d (if p = cs d then l else csl) (if p = rs d then l else rsl) t"
| "latched d csl rsl (Spi_device_transmit v # t) = (if csl then [] else [(rsl, v)]) @ latched d csl rsl t"
| "latched d csl rsl (Gpio_set_direction_output p # t) = latched d csl rsl t"
| "latched d csl rsl (Spi_bus_initialize h m k # t) = latched d csl rsl t"
| "latched d csl rsl (Spi_bus_add_device # t) = latched d csl rsl t"
| "latched d csl rsl (V_task_delay_ms n # t) = latched d csl rsl t"

text \<open>
  A trace that starts and ends with the chip deselected and delivers exactly the bytes \<open>bs\<close>.
\<close>

definition sends :: "st7565 \<Rightarrow> bus_trace \<Rightarrow> (bool \<times> byte) list \<Rightarrow> bool" where
  "sends d t bs \<longleftrightarrow> (\<forall>rsl. \<exists>rsl'. \<forall>u. latched d True rsl (t @ u) = bs @ latched d True rsl' u)"

named_theorems sends_intros \<open>bytes delivered by driver traces\<close>

lemma sends_latched: "sends d t bs \<Longrightarrow> latched d True rsl t = bs"
  unfolding sends_def by (metis append.right_neutral latched.simps(1))

lemma sends_Nil [sends_intros]: "sends d [] []"
  by (auto simp: sends_def)

lemma sends_append [sends_intros]: "sends d t bs \<Longrightarrow> sends d u bs' \<Longrightarrow> sends d (t @ u) (bs @ bs')"
  unfolding sends_def by (metis append.assoc)

lemma sends_concat:
  assumes "\<And>x. x \<in> set xs \<Longrightarrow> sends d (f x) (g x)"
  shows "sends d (concat (map f xs)) (concat (map g xs))"
  using assms by (induction xs) (auto intro: sends_intros)

lemma sends_xfer: "cs d \<noteq> rs d \<Longrightarrow> sends d (xfer d v data) [(data, v)]"
  by (auto simp: sends_def xfer_def)

lemma sends_CMD [sends_intros]: "cs d \<noteq> rs d \<Longrightarrow> sends d (CMD d v) [(False, v)]"
  by (simp add: CMD_def sends_xfer)

lemma sends_DAT [sends_intros]: "cs d \<noteq> rs d \<Longrightarrow> sends d (DAT d v) [(True, v)]"
  by (simp add: DAT_def sends_xfer)

definition page_bytes :: "byte \<Rightarrow> byte \<Rightarrow> (bool \<times> byte) list" where
  "page_bytes p c = [(False, 0xB0 OR (p AND 0x0F)), (False, 0x10 OR drop_bit 4 c), (False, c AND 0x0F)]"

lemma sends_address:
  "cs d \<noteq> rs d \<Longrightarrow> sends d (st7565_set_page_address d p @ st7565_set_column_address d c) (page_bytes p c)"
proof -
  assume d: "cs d \<noteq> rs d"
  show ?thesis
    using sends_append [OF sends_CMD [OF d] sends_append [OF sends_CMD [OF d] sends_CMD [OF d]]]
    by (simp add: st7565_set_page_address_def st7565_set_column_address_def page_bytes_def)
qed

text \<open>The bytes of a rectangle, row by row.\<close>

definition rectangle_bytes :: "byte list \<Rightarrow> byte \<Rightarrow> byte \<Rightarrow> nat \<Rightarrow> nat \<Rightarrow> (bool \<times> byte) list" where
  "rectangle_bytes buf page col w n =
     concat (map (\<lambda>p. page_bytes (page + of_nat p) col @ map (Pair True) (take w (drop (p * w) buf))) [0..<n])"

lemma sequence_trace_Some:
  "(\<And>x. x \<in> set xs \<Longrightarrow> f x = Some (g x)) \<Longrightarrow> sequence_trace (map f xs) = Some (concat (map g xs))"
  by (induction xs) auto

lemma sequence_trace_None: "x \<in> set xs \<Longrightarrow> f x = None \<Longrightarrow> sequence_trace (map f xs) = None"
  by (induction xs) (auto split: option.splits)

lemma rectangle_in_buffer: "p < n \<Longrightarrow> i < w \<Longrightarrow> n * w \<le> len \<Longrightarrow> p * w + i < (len :: nat)"
proof -
  assume "p < n" "i < w" "n * w \<le> len"
  then have "Suc p * w \<le> n * w" by (intro mult_right_mono) auto
  then show "p * w + i < len" using \<open>i < w\<close> \<open>n * w \<le> len\<close> by simp
qed

lemma draw_buffer_ex_sends:
  assumes "cs d \<noteq> rs d" "unat pages * unat width \<le> length buf"
  shows "\<exists>t. st7565_draw_buffer_ex d buf page col width pages = Some t
           \<and> sends d t (rectangle_bytes buf page col (unat width) (unat pages))"
proof -
  let ?w = "unat width" and ?n = "unat pages"
  let ?row = "\<lambda>p. st7565_set_page_address d (page + of_nat p) @ st7565_set_column_address d col
                 @ concat (map (\<lambda>i. DAT d (buf ! (p * ?w + i))) [0..<?w])"
  have in_buf: "p * ?w + i < length buf" if "p < ?n" "i < ?w" for p i
    using that assms(2) by (rule rectangle_in_buffer)
  have "st7565_draw_buffer_ex d buf page col width pages = Some (concat (map ?row [0..<?n]))"
    unfolding st7565_draw_buffer_ex_def
  proof (rule sequence_trace_Some)
    fix p assume "p \<in> set [0..<?n]"
    then have "sequence_trace (map (\<lambda>i. map_option (DAT d) (read_byte buf (p * ?w + i))) [0..<?w])
        = Some (concat (map (\<lambda>i. DAT d (buf ! (p * ?w + i))) [0..<?w]))"
      using in_buf by (intro sequence_trace_Some) (auto simp: read_byte_def)
    then show "map_option (\<lambda>row. st7565_set_page_address d (page + of_nat p) @ st7565_set_column_address d col @ row)
           (sequence_trace (map (\<lambda>i. map_option (DAT d) (read_byte buf (p * ?w + i))) [0..<?w])) = Some (?row p)"
      by simp
  qed
  moreover have "sends d (concat (map ?row [0..<?n])) (rectangle_bytes buf page col ?w ?n)"
    unfolding rectangle_bytes_def
  proof (rule sends_concat)
    fix p assume p: "p \<in> set [0..<?n]"
    have "sends d (concat (map (\<lambda>i. DAT d (buf ! (p * ?w + i))) [0..<?w])) (concat (map (\<lambda>i. [(True, buf ! (p * ?w + i))]) [0..<?w]))"
      by (rule sends_concat) (rule sends_DAT [OF assms(1)])
    also have "concat (map (\<lambda>i. [(True, buf ! (p * ?w + i))]) [0..<?w]) = map (Pair True) (take ?w (drop (p * ?w) buf))"
    proof -
      have "Suc p * ?w \<le> unat pages * ?w" using p by (intro mult_right_mono) auto
      then have "p * ?w + ?w \<le> length buf" using assms(2) by simp
      then show ?thesis by (intro nth_equalityI) (auto simp: concat_map_singleton)
    qed
    finally show "sends d (?row p) (page_bytes (page + of_nat p) col @ map (Pair True) (take ?w (drop (p * ?w) buf)))"
      using sends_append [OF sends_address [OF assms(1)]] by simp
  qed
  ultimately show ?thesis by blast
qed

section \<open>The controller\<close>

text \<open>
  The ST7565 as its data sheet describes it, for the commands the driver uses to address the display
  memory: a page register, a column register set in two halves, and a memory that a data byte is stored
  into, after which the column advances.
\<close>

locale st7565_controller =
  fixes step :: "'d \<Rightarrow> bool \<times> byte \<Rightarrow> 'd"
    and page col :: "'d \<Rightarrow> nat"
    and ram :: "'d \<Rightarrow> nat \<Rightarrow> nat \<Rightarrow> byte"
  assumes page_cmd: "p < 16 \<Longrightarrow> page (step s (False, 0xB0 OR of_nat p)) = p"
      "p < 16 \<Longrightarrow> ram (step s (False, 0xB0 OR of_nat p)) = ram s"
    and col_high_cmd: "h < 16 \<Longrightarrow> col (step s (False, 0x10 OR of_nat h)) = h * 16 + col s mod 16"
      "h < 16 \<Longrightarrow> page (step s (False, 0x10 OR of_nat h)) = page s"
      "h < 16 \<Longrightarrow> ram (step s (False, 0x10 OR of_nat h)) = ram s"
    and col_low_cmd: "l < 16 \<Longrightarrow> col (step s (False, of_nat l)) = col s div 16 * 16 + l"
      "l < 16 \<Longrightarrow> page (step s (False, of_nat l)) = page s"
      "l < 16 \<Longrightarrow> ram (step s (False, of_nat l)) = ram s"
    and data_write: "page s < 8 \<Longrightarrow> col s < 128 \<Longrightarrow> ram (step s (True, v)) = (ram s)(page s := (ram s (page s))(col s := v))"
      "page s < 8 \<Longrightarrow> col s < 128 \<Longrightarrow> page (step s (True, v)) = page s"
      "page s < 8 \<Longrightarrow> col s < 128 \<Longrightarrow> col (step s (True, v)) = Suc (col s)"
begin

definition exec :: "'d \<Rightarrow> (bool \<times> byte) list \<Rightarrow> 'd" where
  "exec s bs = foldl step s bs"

lemma exec_append: "exec s (xs @ ys) = exec (exec s xs) ys"
  by (simp add: exec_def)

lemma exec_address:
  assumes "p < 16" "c < 256"
  shows "page (exec s (page_bytes (of_nat p) (of_nat c))) = p"
    "col (exec s (page_bytes (of_nat p) (of_nat c))) = c"
    "ram (exec s (page_bytes (of_nat p) (of_nat c))) = ram s"
proof -
  have "of_nat p AND 0x0F = (of_nat p :: byte)"
  proof -
    have "(of_nat p :: byte) AND 0x0F = take_bit 4 (of_nat p)" by (simp add: take_bit_eq_mask mask_eq_exp_minus_1)
    also have "\<dots> = of_nat (take_bit 4 p)" by (simp add: take_bit_of_nat)
    finally show ?thesis using assms(1) by (simp add: take_bit_nat_eq_self)
  qed
  moreover have "drop_bit 4 (of_nat c :: byte) = of_nat (c div 16)"
  proof -
    have c: "unat (of_nat c :: byte) = c" using assms(2) by (simp add: unsigned_of_nat take_bit_nat_eq_self)
    have "unat (drop_bit 4 (of_nat c :: byte)) = drop_bit 4 (unat (of_nat c :: byte))"
      by (simp only: unsigned_drop_bit_eq c) (simp add: take_bit_nat_eq_self assms(2))
    then have "unat (drop_bit 4 (of_nat c :: byte)) = unat (of_nat (c div 16) :: byte)"
      using assms(2) by (simp add: unsigned_of_nat take_bit_nat_eq_self drop_bit_eq_div)
    then show ?thesis by (simp only: word_unat_eq_iff)
  qed
  moreover have "(of_nat c :: byte) AND 0x0F = of_nat (c mod 16)"
  proof -
    have "(of_nat c :: byte) AND 0x0F = take_bit 4 (of_nat c)" by (simp add: take_bit_eq_mask mask_eq_exp_minus_1)
    also have "\<dots> = of_nat (take_bit 4 c)" by (simp add: take_bit_of_nat)
    finally show ?thesis by (simp add: take_bit_eq_mod)
  qed
  moreover have "c div 16 < 16" using assms(2) by simp
  ultimately show "page (exec s (page_bytes (of_nat p) (of_nat c))) = p"
    "col (exec s (page_bytes (of_nat p) (of_nat c))) = c"
    "ram (exec s (page_bytes (of_nat p) (of_nat c))) = ram s"
    using assms(1) by (simp_all add: page_bytes_def exec_def page_cmd col_high_cmd col_low_cmd)
qed

lemma exec_data:
  assumes "page s < 8" "col s + length vs \<le> 128"
  shows "page (exec s (map (Pair True) vs)) = page s
    \<and> ram (exec s (map (Pair True) vs)) = (\<lambda>q x. if q = page s \<and> col s \<le> x \<and> x < col s + length vs
                                              then vs ! (x - col s) else ram s q x)"
  using assms
proof (induction vs arbitrary: s)
  case (Cons v vs)
  let ?s = "step s (True, v)"
  have s: "page ?s = page s" "col ?s = Suc (col s)" "ram ?s = (ram s)(page s := (ram s (page s))(col s := v))"
    using Cons(2,3) by (simp_all add: data_write)
  have "page (exec ?s (map (Pair True) vs)) = page ?s
    \<and> ram (exec ?s (map (Pair True) vs)) = (\<lambda>q x. if q = page ?s \<and> col ?s \<le> x \<and> x < col ?s + length vs
                                              then vs ! (x - col ?s) else ram ?s q x)"
    using Cons s by (intro Cons.IH) auto
  moreover have "exec s (map (Pair True) (v # vs)) = exec ?s (map (Pair True) vs)" by (simp add: exec_def)
  ultimately show ?case unfolding s by (auto simp: fun_eq_iff nth_Cons' Suc_le_eq not_less_eq_eq)
qed (auto simp: exec_def fun_eq_iff)

lemma exec_rectangle:
  assumes "p0 + n \<le> 8" "c0 + w \<le> 128" "n * w \<le> length buf"
  shows "ram (exec s (rectangle_bytes buf (of_nat p0) (of_nat c0) w n))
    = (\<lambda>q x. if p0 \<le> q \<and> q < p0 + n \<and> c0 \<le> x \<and> x < c0 + w then buf ! ((q - p0) * w + (x - c0)) else ram s q x)"
  using assms(1,3)
proof (induction n)
  case 0
  then show ?case by (auto simp: rectangle_bytes_def exec_def fun_eq_iff)
next
  case (Suc n)
  let ?R = "rectangle_bytes buf (of_nat p0) (of_nat c0) w n"
  define t where "t = exec (exec s ?R) (page_bytes (of_nat (p0 + n)) (of_nat c0))"
  let ?vs = "take w (drop (n * w) buf)"
  have split: "rectangle_bytes buf (of_nat p0) (of_nat c0) w (Suc n)
      = ?R @ page_bytes (of_nat (p0 + n)) (of_nat c0) @ map (Pair True) ?vs"
    by (simp add: rectangle_bytes_def)
  have ih: "ram (exec s ?R) = (\<lambda>q x. if p0 \<le> q \<and> q < p0 + n \<and> c0 \<le> x \<and> x < c0 + w
      then buf ! ((q - p0) * w + (x - c0)) else ram s q x)"
    using Suc by (intro Suc.IH) auto
  have a: "page t = p0 + n" "col t = c0" "ram t = ram (exec s ?R)"
    unfolding t_def using Suc(2) assms(2) by (intro exec_address; simp)+
  have len: "length ?vs = w" using Suc(3) by simp
  have "ram (exec t (map (Pair True) ?vs)) = (\<lambda>q x. if q = p0 + n \<and> c0 \<le> x \<and> x < c0 + w
      then ?vs ! (x - c0) else ram (exec s ?R) q x)"
    using exec_data [of t ?vs] Suc(2) assms(2) unfolding a len by simp
  then show ?case unfolding split exec_append t_def [symmetric] ih
    using Suc(3) by (auto simp: fun_eq_iff nth_drop)
qed

end

text \<open>A controller that obeys the laws, with the registers and the memory spelt out.\<close>

record lcd =
  lcd_page :: nat
  lcd_col :: nat
  lcd_ram :: "nat \<Rightarrow> nat \<Rightarrow> byte"

definition lcd_step :: "lcd \<Rightarrow> bool \<times> byte \<Rightarrow> lcd" where
  "lcd_step s b =
     (case b of
        (True, v) \<Rightarrow> s\<lparr>lcd_ram := (lcd_ram s)(lcd_page s := (lcd_ram s (lcd_page s))(lcd_col s := v)),
                       lcd_col := Suc (lcd_col s)\<rparr>
      | (False, v) \<Rightarrow>
          if unat v div 16 = 0xB then s\<lparr>lcd_page := unat v mod 16\<rparr>
          else if unat v div 16 = 1 then s\<lparr>lcd_col := unat v mod 16 * 16 + lcd_col s mod 16\<rparr>
          else if unat v div 16 = 0 then s\<lparr>lcd_col := lcd_col s div 16 * 16 + unat v mod 16\<rparr>
          else s)"

lemma unat_nibbles:
  assumes "n < 16"
  shows "unat (0xB0 OR of_nat n :: byte) = 0xB0 + n" "unat (0x10 OR of_nat n :: byte) = 0x10 + n"
    "unat (of_nat n :: byte) = n"
proof -
  show n: "unat (of_nat n :: byte) = n" using assms by (simp add: unsigned_of_nat take_bit_nat_eq_self)
  have "n = 0 \<or> n = 1 \<or> n = 2 \<or> n = 3 \<or> n = 4 \<or> n = 5 \<or> n = 6 \<or> n = 7 \<or> n = 8 \<or> n = 9 \<or> n = 10
      \<or> n = 11 \<or> n = 12 \<or> n = 13 \<or> n = 14 \<or> n = 15" using assms by presburger
  then show "unat (0xB0 OR of_nat n :: byte) = 0xB0 + n" "unat (0x10 OR of_nat n :: byte) = 0x10 + n"
    by auto
qed

lemma nibble_div:
  assumes "n < (16 :: nat)"
  shows "(176 + n) div 16 = 11" "(176 + n) mod 16 = n" "(16 + n) div 16 = 1" "(16 + n) mod 16 = n"
proof -
  have "(n + 16 * 11) div 16 = 11 + n div 16" "(n + 16 * 1) div 16 = 1 + n div 16"
    by (rule div_mult_self2, simp)+
  moreover have "(n + 16 * 11) mod 16 = n mod 16" "(n + 16 * 1) mod 16 = n mod 16" by (rule mod_mult_self2)+
  ultimately show "(176 + n) div 16 = 11" "(176 + n) mod 16 = n" "(16 + n) div 16 = 1" "(16 + n) mod 16 = n"
    using assms by (simp_all add: add.commute)
qed

interpretation lcd: st7565_controller lcd_step lcd_page lcd_col lcd_ram
  by unfold_locales (simp_all add: lcd_step_def unat_nibbles nibble_div)

lemma draw_rectangle:
  assumes "st7565_controller step page col ram" "cs disp \<noteq> rs disp"
    and "0 \<le> p0" "0 \<le> c0" "0 \<le> w" "0 \<le> n" "p0 + n \<le> 8" "c0 + w \<le> 128" "int (length buf) = w * n"
  shows "\<exists>t. mp_st7565_draw disp buf p0 c0 w n = Inr (Some t)
    \<and> ram (foldl step s (latched disp True rsl t))
      = (\<lambda>q x. if nat p0 \<le> q \<and> q < nat p0 + nat n \<and> nat c0 \<le> x \<and> x < nat c0 + nat w
               then buf ! ((q - nat p0) * nat w + (x - nat c0)) else ram s q x)"
proof -
  have small: "w * n \<le> 128 * 8" using assms by (intro mult_mono) auto
  moreover have "0 \<le> w * n" using assms(5,6) by simp
  ultimately have "s32 (w * n) = w * n" by (intro s32_id) linarith+
  then have "int (length buf) = s32 (w * n) mod 2 ^ 32" using small assms(5,6,9) by simp
  moreover have u: "unat (word_of_int n :: byte) = nat n" "unat (word_of_int w :: byte) = nat w"
    using assms by (simp_all add: unat_eq_nat_uint uint_word_of_int_eq take_bit_int_eq_self)
  moreover have "nat n * nat w \<le> length buf" using assms(5,6,9) by (metis mult.commute nat_int nat_mult_distrib order_refl)
  ultimately obtain t where t: "mp_st7565_draw disp buf p0 c0 w n = Inr (Some t)"
      "sends disp t (rectangle_bytes buf (word_of_int p0) (word_of_int c0) (nat w) (nat n))"
    using draw_buffer_ex_sends [OF assms(2), of "word_of_int n" "word_of_int w" buf "word_of_int p0" "word_of_int c0"]
    by (auto simp: mp_st7565_draw_def Let_def)
  have "(word_of_int p0 :: byte) = of_nat (nat p0)" "(word_of_int c0 :: byte) = of_nat (nat c0)"
    using assms(3,4) by simp_all
  then show ?thesis
    using t sends_latched [OF t(2), of rsl] \<open>nat n * nat w \<le> length buf\<close> assms
      st7565_controller.exec_rectangle [OF assms(1), of "nat p0" "nat n" "nat c0" "nat w" buf s]
    by (auto simp: st7565_controller.exec_def [OF assms(1)] nat_le_iff nat_add_distrib)
qed

section \<open>Properties\<close>

text \<open>
  C19. Drawing: for any controller that obeys the data sheet, \<^verbatim>\<open>graphics(buf, page=, column=, width=, pages=)\<close>
  with a rectangle inside the screen and a buffer of its size sends a trace after which the rectangle of
  display memory holds the buffer, row by row, and every other cell is unchanged.  The chip is deselected
  between bytes and no byte outside the buffer is read.
\<close>

theorem st7565_draw_rectangle:
  assumes "st7565_controller step page col ram" "cs disp \<noteq> rs disp"
    and "0 \<le> p0" "0 \<le> c0" "0 \<le> w" "0 \<le> n" "p0 + n \<le> 8" "c0 + w \<le> 128" "int (length buf) = w * n"
  shows "\<exists>t. mp_st7565_draw disp buf p0 c0 w n = Inr (Some t)
    \<and> ram (foldl step s (latched disp True rsl t))
      = (\<lambda>q x. if nat p0 \<le> q \<and> q < nat p0 + nat n \<and> nat c0 \<le> x \<and> x < nat c0 + nat w
               then buf ! ((q - nat p0) * nat w + (x - nat c0)) else ram s q x)"
  using assms by (rule draw_rectangle)

theorem st7565_draw_rectangle_witness:
  "\<exists>t. mp_st7565_draw \<lparr>cs = 9, rs = 10, rst = 11\<rparr> [1, 2] 3 120 2 1 = Inr (Some t)
    \<and> lcd_ram (foldl lcd_step \<lparr>lcd_page = 0, lcd_col = 0, lcd_ram = \<lambda>_ _. 0\<rparr> (latched \<lparr>cs = 9, rs = 10, rst = 11\<rparr> True False t)) 3 121 = 2"
  using st7565_draw_rectangle [OF lcd.st7565_controller_axioms, of "\<lparr>cs = 9, rs = 10, rst = 11\<rparr>" 3 120 2 1 "[1, 2]"
      "\<lparr>lcd_page = 0, lcd_col = 0, lcd_ram = \<lambda>_ _. 0\<rparr>" False] by fastforce



text \<open>
  The size check of \<^verbatim>\<open>graphics\<close> compares the buffer with \<^verbatim>\<open>width * pages\<close> on the full integers, while the
  driver receives their low eight bits.  With both arguments -1 a one-byte buffer passes the check and the driver reads
  255 rows of 255 bytes from it, outside the buffer; with width 256 a full-screen buffer passes and nothing is
  drawn.
\<close>

theorem st7565_draw_unsafe_truncation:
  "mp_st7565_draw disp [b] page column (- 1) (- 1) = Inr None
   \<and> (length buf = 1024 \<longrightarrow> mp_st7565_draw disp buf page column 256 4
        = Inr (Some (concat (map (\<lambda>p. st7565_set_page_address disp (word_of_int page + of_nat p)
            @ st7565_set_column_address disp (word_of_int column)) [0..<4]))))"
proof -
  have w: "unat (- 1 :: byte) = 255" by (simp only: unsigned_minus_1_eq_mask) (simp add: mask_eq_exp_minus_1)
  let ?f = "\<lambda>i. map_option (DAT disp) (read_byte [b] (0 * 255 + i))"
  have "sequence_trace (map ?f [0..<255]) = None" by (rule sequence_trace_None [of 1]) (simp_all add: read_byte_def)
  then have "st7565_draw_buffer_ex disp [b] p c (- 1) (- 1) = None" for p c
    unfolding st7565_draw_buffer_ex_def w by (intro sequence_trace_None [of 0]) simp_all
  moreover have "st7565_draw_buffer_ex disp buf (word_of_int page) (word_of_int column) 256 4
      = Some (concat (map (\<lambda>p. st7565_set_page_address disp (word_of_int page + of_nat p)
            @ st7565_set_column_address disp (word_of_int column)) [0..<4]))"
  proof -
    have "unat (4 :: byte) = 4" "unat (256 :: byte) = 0" by simp_all
    then show ?thesis unfolding st7565_draw_buffer_ex_def by (simp only:) (rule sequence_trace_Some, simp)
  qed
  ultimately show ?thesis by (simp add: mp_st7565_draw_def s32_def)
qed

theorem st7565_draw_unsafe_truncation_witness:
  "mp_st7565_draw \<lparr>cs = 9, rs = 10, rst = 11\<rparr> [0] 0 0 (- 1) (- 1) = Inr None
   \<and> length (replicate 1024 (0 :: byte)) = 1024"
  using st7565_draw_unsafe_truncation [of "\<lparr>cs = 9, rs = 10, rst = 11\<rparr>" 0 0 0 "replicate 1024 0"] by simp

end
