(* ===== verification/Probe.thy ===== *)
theory Probe
  imports Prelude "HOL-Library.Multiset"
begin

text \<open>
  The open-addressing tables of \<^verbatim>\<open>py/map.c\<close>: object pointers, the growth policy, the
  linear-probing search that maps and sets share, and the invariant of a table of keys.
  The operations on Python objects that the tables call (equality, hash, the tests for
  interned and plain strings) are the record \<open>obj_ops\<close>; the locale \<open>key_ops\<close> states the
  laws they must obey, and is interpreted on integers and strings as the firmware
  compares and hashes them.
\<close>

named_theorems probe_simps \<open>arithmetic of positions along a probe sequence\<close>

section \<open>Objects\<close>

text \<open>An object pointer: the two marker values, or a Python object.\<close>

datatype 'o obj = MP_OBJ_NULL | MP_OBJ_SENTINEL | Obj 'o

record 'o obj_ops =
  obj_equal :: "'o \<Rightarrow> 'o \<Rightarrow> bool"
  obj_hash :: "'o \<Rightarrow> nat"
  obj_is_qstr :: "'o \<Rightarrow> bool"
  obj_is_str :: "'o \<Rightarrow> bool"
  obj_address :: "'o \<Rightarrow> nat"

datatype lookup_kind =
    MP_MAP_LOOKUP
  | MP_MAP_LOOKUP_ADD_IF_NOT_FOUND
  | MP_MAP_LOOKUP_REMOVE_IF_FOUND
  | MP_MAP_LOOKUP_ADD_IF_NOT_FOUND_OR_REMOVE_IF_FOUND

fun is_filled :: "'o obj \<Rightarrow> bool" where
  "is_filled MP_OBJ_NULL = False"
| "is_filled MP_OBJ_SENTINEL = False"
| "is_filled (Obj k) = True"

section \<open>Growth policy\<close>

definition hash_allocation_sizes :: "nat list" where
  "hash_allocation_sizes =
    [0, 2, 4, 6, 8, 10, 12,
     17, 23, 29, 37, 47, 59, 73,
     97, 127, 167, 223, 293, 389, 521, 691, 919, 1223, 1627, 2161,
     3229, 4831, 7243, 10861, 16273, 24407, 36607, 54907]"

definition get_hash_alloc_greater_or_equal_to :: "nat \<Rightarrow> nat" where
  "get_hash_alloc_greater_or_equal_to x =
    (case find (\<lambda>s. x \<le> s) hash_allocation_sizes of
       Some s \<Rightarrow> s
     | None \<Rightarrow> (x + x div 2) OR 1)"

lemma get_hash_alloc_ge: "x \<le> get_hash_alloc_greater_or_equal_to x"
proof (cases "find (\<lambda>s. x \<le> s) hash_allocation_sizes")
  case None
  have "x \<le> (x + x div 2) OR 1"
    by (simp only: or_one_eq trans_le_add1)
  then show ?thesis using None by (simp add: get_hash_alloc_greater_or_equal_to_def)
next
  case (Some s)
  then have "x \<le> s" by (auto simp: find_Some_iff)
  then show ?thesis using Some by (simp add: get_hash_alloc_greater_or_equal_to_def)
qed

section \<open>Linear probing\<close>

text \<open>
  One pass of the search loop.  It ends at the slot that matches, at an empty slot, or when
  it is back at the starting position; on the way it remembers the first deleted slot.  The
  first argument bounds the number of iterations; \<open>None\<close> says it was not enough.
\<close>

datatype probe_end =
    Found nat
  | Empty_Slot nat "nat option"
  | Wrapped "nat option"

fun probe_loop ::
  "nat \<Rightarrow> ('o \<Rightarrow> bool) \<Rightarrow> 'o obj list \<Rightarrow> nat \<Rightarrow> nat \<Rightarrow> nat option \<Rightarrow> probe_end option" where
  "probe_loop 0 hit keys start_pos pos avail_slot = None"
| "probe_loop (Suc n) hit keys start_pos pos avail_slot =
    (let continue = (\<lambda>avail.
           let pos' = (pos + 1) mod length keys
           in if pos' = start_pos then Some (Wrapped avail)
              else probe_loop n hit keys start_pos pos' avail)
     in case keys ! pos of
          MP_OBJ_NULL \<Rightarrow> Some (Empty_Slot pos avail_slot)
        | MP_OBJ_SENTINEL \<Rightarrow>
            continue (if avail_slot = None then Some pos else avail_slot)
        | Obj k \<Rightarrow> if hit k then Some (Found pos) else continue avail_slot)"

definition probe :: "('o \<Rightarrow> bool) \<Rightarrow> 'o obj list \<Rightarrow> nat \<Rightarrow> probe_end option" where
  "probe hit keys hash =
    (let pos = hash mod length keys in probe_loop (length keys) hit keys pos pos None)"

text \<open>What a deleted slot becomes.\<close>

definition deleted_key :: "'o obj list \<Rightarrow> nat \<Rightarrow> 'o obj" where
  "deleted_key keys pos =
    (if keys ! ((pos + 1) mod length keys) = MP_OBJ_NULL
     then MP_OBJ_NULL else MP_OBJ_SENTINEL)"

subsection \<open>Positions along a probe sequence\<close>

definition slot_at :: "nat \<Rightarrow> nat \<Rightarrow> nat \<Rightarrow> nat" where
  "slot_at n s d = (s + d) mod n"

definition dist :: "nat \<Rightarrow> nat \<Rightarrow> nat \<Rightarrow> nat" where
  "dist n s j = (if s \<le> j then j - s else j + n - s)"

lemma slot_at_less [probe_simps]: "0 < n \<Longrightarrow> slot_at n s d < n"
  by (simp add: slot_at_def)

lemma slot_at_0 [probe_simps]: "s < n \<Longrightarrow> slot_at n s 0 = s"
  by (simp add: slot_at_def)

lemma slot_at_Suc [probe_simps]: "(slot_at n s d + 1) mod n = slot_at n s (Suc d)"
  by (simp add: slot_at_def mod_simps)

lemma slot_at_dist [probe_simps]: "s < n \<Longrightarrow> j < n \<Longrightarrow> slot_at n s (dist n s j) = j"
  by (simp add: slot_at_def dist_def)

lemma dist_less [probe_simps]: "s < n \<Longrightarrow> j < n \<Longrightarrow> dist n s j < n"
  by (auto simp: dist_def)

lemma dist_slot_at [probe_simps]: "s < n \<Longrightarrow> d < n \<Longrightarrow> dist n s (slot_at n s d) = d"
  by (auto simp: slot_at_def dist_def mod_if)

lemma slot_at_inj: "s < n \<Longrightarrow> d < n \<Longrightarrow> e < n \<Longrightarrow> slot_at n s d = slot_at n s e \<Longrightarrow> d = e"
  by (metis dist_slot_at)

lemma slot_at_Suc_eq_start:
  assumes "s < n" "d < n"
  shows "slot_at n s (Suc d) = s \<longleftrightarrow> Suc d = n"
proof (cases "Suc d = n")
  case False
  then have "Suc d < n" using assms by simp
  then show ?thesis using slot_at_inj [of s n "Suc d" 0] assms by (auto simp: slot_at_0)
qed (use assms in \<open>simp add: slot_at_def\<close>)

subsection \<open>What the search finds\<close>

text \<open>No slot among the first \<open>d\<close> of the sequence is empty or matches.\<close>

definition passed :: "('o \<Rightarrow> bool) \<Rightarrow> 'o obj list \<Rightarrow> nat \<Rightarrow> nat \<Rightarrow> bool" where
  "passed hit keys s d \<longleftrightarrow> (\<forall>e<d. keys ! slot_at (length keys) s e \<noteq> MP_OBJ_NULL \<and>
     (\<forall>k. keys ! slot_at (length keys) s e = Obj k \<longrightarrow> \<not> hit k))"

definition avail_ok :: "'o obj list \<Rightarrow> nat \<Rightarrow> nat \<Rightarrow> nat option \<Rightarrow> bool" where
  "avail_ok keys s d avail \<longleftrightarrow>
    (case avail of
       None \<Rightarrow> \<forall>e<d. keys ! slot_at (length keys) s e \<noteq> MP_OBJ_SENTINEL
     | Some q \<Rightarrow> \<exists>e<d. q = slot_at (length keys) s e \<and> keys ! q = MP_OBJ_SENTINEL)"

fun probe_result :: "('o \<Rightarrow> bool) \<Rightarrow> 'o obj list \<Rightarrow> nat \<Rightarrow> probe_end \<Rightarrow> bool" where
  "probe_result hit keys s (Found p) \<longleftrightarrow>
    p < length keys \<and> (\<exists>k. keys ! p = Obj k \<and> hit k)"
| "probe_result hit keys s (Empty_Slot p avail) \<longleftrightarrow>
    (\<exists>d<length keys. p = slot_at (length keys) s d \<and> keys ! p = MP_OBJ_NULL \<and>
       passed hit keys s d \<and> avail_ok keys s d avail)"
| "probe_result hit keys s (Wrapped avail) \<longleftrightarrow>
    passed hit keys s (length keys) \<and> avail_ok keys s (length keys) avail"

lemma passed_Suc:
  "passed hit keys s (Suc d) \<longleftrightarrow> passed hit keys s d \<and>
     keys ! slot_at (length keys) s d \<noteq> MP_OBJ_NULL \<and>
     (\<forall>k. keys ! slot_at (length keys) s d = Obj k \<longrightarrow> \<not> hit k)"
  by (auto simp: passed_def less_Suc_eq)

lemma passed_mono: "passed hit keys s d \<Longrightarrow> e \<le> d \<Longrightarrow> passed hit keys s e"
  unfolding passed_def by (meson less_le_trans)

lemma avail_ok_Suc:
  assumes "avail_ok keys s d avail"
  shows "keys ! slot_at (length keys) s d \<noteq> MP_OBJ_SENTINEL \<Longrightarrow> avail_ok keys s (Suc d) avail"
    and "keys ! slot_at (length keys) s d = MP_OBJ_SENTINEL \<Longrightarrow>
      avail_ok keys s (Suc d) (if avail = None then Some (slot_at (length keys) s d) else avail)"
  using assms by (auto simp: avail_ok_def less_Suc_eq split: option.splits)

lemma probe_loop_result:
  assumes "s < length keys" "d < length keys" "length keys \<le> n + d"
    and "passed hit keys s d" "avail_ok keys s d avail"
  shows "\<exists>r. probe_loop n hit keys s (slot_at (length keys) s d) avail = Some r \<and>
    probe_result hit keys s r"
  using assms
proof (induction n arbitrary: d avail)
  case 0
  then show ?case by simp
next
  case (Suc n)
  let ?p = "slot_at (length keys) s d"
  have next_ok: "\<exists>r. (if (?p + 1) mod length keys = s then Some (Wrapped a)
        else probe_loop n hit keys s ((?p + 1) mod length keys) a) = Some r \<and>
      probe_result hit keys s r"
    if "passed hit keys s (Suc d)" "avail_ok keys s (Suc d) a" for a
  proof (cases "Suc d = length keys")
    case True
    then show ?thesis
      using that Suc.prems slot_at_Suc_eq_start [of s "length keys" d]
      by (simp only: slot_at_Suc) simp
  next
    case False
    then show ?thesis
      using that Suc.prems slot_at_Suc_eq_start [of s "length keys" d] Suc.IH [of "Suc d" a]
      by (simp only: slot_at_Suc) simp
  qed
  have p: "?p < length keys" using Suc.prems by (intro slot_at_less) linarith
  show ?case
  proof (cases "keys ! ?p")
    case MP_OBJ_NULL
    then show ?thesis using Suc.prems by auto
  next
    case MP_OBJ_SENTINEL
    then have "passed hit keys s (Suc d)" using Suc.prems by (simp add: passed_Suc)
    then show ?thesis
      using next_ok [OF _ avail_ok_Suc(2) [OF Suc.prems(5)]] MP_OBJ_SENTINEL
      by (simp only: probe_loop.simps Let_def obj.case simp_thms)
  next
    case (Obj k)
    show ?thesis
    proof (cases "hit k")
      case True
      then show ?thesis using Obj p by auto
    next
      case False
      then have "passed hit keys s (Suc d)" using Suc.prems Obj by (simp add: passed_Suc)
      then show ?thesis
        using next_ok [OF _ avail_ok_Suc(1) [OF Suc.prems(5)]] Obj False
        by (simp only: probe_loop.simps Let_def obj.case simp_thms if_False obj.distinct)
    qed
  qed
qed

lemma probe_ends:
  assumes "keys \<noteq> []"
  obtains r where "probe hit keys h = Some r" "probe_result hit keys (h mod length keys) r"
proof -
  let ?s = "h mod length keys"
  have "\<exists>r. probe_loop (length keys) hit keys ?s (slot_at (length keys) ?s 0) None = Some r \<and>
      probe_result hit keys ?s r"
    by (rule probe_loop_result) (use assms in \<open>auto simp: passed_def avail_ok_def\<close>)
  then show ?thesis
    using that assms by (auto simp: probe_def Let_def slot_at_0)
qed

section \<open>The invariant of a table of keys\<close>

definition same :: "'o obj_ops \<Rightarrow> 'o \<Rightarrow> 'o \<Rightarrow> bool" where
  "same ops a b \<longleftrightarrow> a = b \<or> obj_equal ops a b"

fun holds_key :: "'o obj_ops \<Rightarrow> 'o \<Rightarrow> 'o obj \<Rightarrow> bool" where
  "holds_key ops x (Obj k) \<longleftrightarrow> same ops k x"
| "holds_key ops x _ \<longleftrightarrow> False"

definition no_duplicates :: "'o obj_ops \<Rightarrow> 'o obj list \<Rightarrow> bool" where
  "no_duplicates ops keys \<longleftrightarrow> (\<forall>i<length keys. \<forall>j<length keys.
     (case keys ! i of Obj a \<Rightarrow> holds_key ops a (keys ! j) \<longrightarrow> i = j | _ \<Rightarrow> True))"

text \<open>
  From the position its hash selects up to the slot that holds it, a key's probe sequence
  meets no empty slot.
\<close>

definition reachable_keys :: "'o obj_ops \<Rightarrow> 'o obj list \<Rightarrow> bool" where
  "reachable_keys ops keys \<longleftrightarrow> (\<forall>j<length keys. case keys ! j of
       Obj k \<Rightarrow> (let n = length keys; s = obj_hash ops k mod n
                in \<forall>d<dist n s j. keys ! slot_at n s d \<noteq> MP_OBJ_NULL)
     | _ \<Rightarrow> True)"

definition hash_inv :: "'o obj_ops \<Rightarrow> 'o obj list \<Rightarrow> bool" where
  "hash_inv ops keys \<longleftrightarrow> no_duplicates ops keys \<and> reachable_keys ops keys"

definition filled_count :: "'o obj list \<Rightarrow> nat" where
  "filled_count keys = length (filter is_filled keys)"

lemma no_duplicatesD:
  assumes "no_duplicates ops keys" "i < length keys" "j < length keys"
    and "keys ! i = Obj a" "keys ! j = Obj b" "same ops b a"
  shows "i = j"
proof -
  have "case keys ! i of Obj a \<Rightarrow> holds_key ops a (keys ! j) \<longrightarrow> i = j | _ \<Rightarrow> True"
    using assms(1-3) unfolding no_duplicates_def by blast
  then show ?thesis using assms(4-6) by simp
qed

lemma no_duplicatesI:
  assumes "\<And>i j a b. i < length keys \<Longrightarrow> j < length keys \<Longrightarrow> keys ! i = Obj a \<Longrightarrow>
    keys ! j = Obj b \<Longrightarrow> same ops b a \<Longrightarrow> i = j"
  shows "no_duplicates ops keys"
  unfolding no_duplicates_def
proof (intro allI impI)
  fix i j
  assume ij: "i < length keys" "j < length keys"
  show "case keys ! i of Obj a \<Rightarrow> holds_key ops a (keys ! j) \<longrightarrow> i = j | _ \<Rightarrow> True"
    using assms [OF ij] by (cases "keys ! i"; cases "keys ! j") auto
qed

lemma reachable_keysD:
  assumes "reachable_keys ops keys" "j < length keys" "keys ! j = Obj k"
    and "d < dist (length keys) (obj_hash ops k mod length keys) j"
  shows "keys ! slot_at (length keys) (obj_hash ops k mod length keys) d \<noteq> MP_OBJ_NULL"
proof -
  have "case keys ! j of
       Obj k \<Rightarrow> (let n = length keys; s = obj_hash ops k mod n
                in \<forall>d<dist n s j. keys ! slot_at n s d \<noteq> MP_OBJ_NULL)
     | _ \<Rightarrow> True"
    using assms(1,2) unfolding reachable_keys_def by blast
  then show ?thesis using assms(3,4) by (simp add: Let_def)
qed

lemma reachable_keysI:
  assumes "\<And>j k d. j < length keys \<Longrightarrow> keys ! j = Obj k \<Longrightarrow>
    d < dist (length keys) (obj_hash ops k mod length keys) j \<Longrightarrow>
    keys ! slot_at (length keys) (obj_hash ops k mod length keys) d \<noteq> MP_OBJ_NULL"
  shows "reachable_keys ops keys"
  unfolding reachable_keys_def
proof (intro allI impI)
  fix j
  assume j: "j < length keys"
  show "case keys ! j of
       Obj k \<Rightarrow> (let n = length keys; s = obj_hash ops k mod n
                in \<forall>d<dist n s j. keys ! slot_at n s d \<noteq> MP_OBJ_NULL)
     | _ \<Rightarrow> True"
    using assms [OF j] by (cases "keys ! j") (auto simp: Let_def)
qed

lemma hash_inv_replicate: "hash_inv ops (replicate n MP_OBJ_NULL)"
  unfolding hash_inv_def
  by (intro conjI no_duplicatesI reachable_keysI) auto

lemma filled_count_replicate [simp]: "filled_count (replicate n MP_OBJ_NULL) = 0"
  by (simp add: filled_count_def)

lemma filled_count_le: "filled_count keys \<le> length keys"
  by (simp add: filled_count_def)

lemma filled_count_update:
  assumes "p < length keys"
  shows "filled_count (keys[p := x]) + of_bool (is_filled (keys ! p)) =
    filled_count keys + of_bool (is_filled x)"
proof -
  have "filled_count keys = filled_count (take p keys @ keys ! p # drop (Suc p) keys)"
    using assms by (simp add: id_take_nth_drop [symmetric])
  then show ?thesis using assms by (simp add: filled_count_def upd_conv_take_nth_drop)
qed

lemma filled_count_all:
  assumes "\<forall>p<length keys. is_filled (keys ! p)"
  shows "filled_count keys = length keys"
  using assms by (simp add: filled_count_def all_set_conv_all_nth [symmetric] filter_id_conv)

section \<open>Laws of keys\<close>

locale key_ops =
  fixes ops :: "'o obj_ops"
  assumes equal_sym: "obj_equal ops a b \<Longrightarrow> obj_equal ops b a"
    and equal_trans: "obj_equal ops a b \<Longrightarrow> obj_equal ops b c \<Longrightarrow> a = c \<or> obj_equal ops a c"
    and hash_equal: "obj_equal ops a b \<Longrightarrow> obj_hash ops a = obj_hash ops b"
    and qstr_unique: "obj_is_qstr ops a \<Longrightarrow> obj_is_qstr ops b \<Longrightarrow> obj_equal ops a b \<Longrightarrow> a = b"
    and qstr_equal: "obj_is_qstr ops a \<Longrightarrow> obj_equal ops a b \<Longrightarrow> obj_is_qstr ops b \<or> obj_is_str ops b"
begin

lemma same_refl [simp]: "same ops a a"
  by (simp add: same_def)

lemma same_sym: "same ops a b \<Longrightarrow> same ops b a"
  by (auto simp: same_def equal_sym)

lemma same_trans: "same ops a b \<Longrightarrow> same ops b c \<Longrightarrow> same ops a c"
  by (auto simp: same_def dest: equal_trans)

lemma same_hash: "same ops a b \<Longrightarrow> obj_hash ops a = obj_hash ops b"
  by (auto simp: same_def dest: hash_equal)

text \<open>A search that found nothing proves that no slot holds the key.\<close>

lemma missing_key:
  assumes "reachable_keys ops keys" "j < length keys" "keys ! j = Obj k" "same ops k x"
    and hit: "hit k" and r: "probe_result hit keys (obj_hash ops x mod length keys) r"
    and "\<forall>p. r \<noteq> Found p"
  shows False
proof -
  let ?n = "length keys"
  let ?s = "obj_hash ops x mod ?n"
  let ?d = "dist ?n ?s j"
  have s: "?s < ?n" using assms(2) by (intro mod_less_divisor) auto
  have d: "?d < ?n" "slot_at ?n ?s ?d = j" using s assms(2) by (simp_all add: probe_simps)
  have chain: "keys ! slot_at ?n ?s e \<noteq> MP_OBJ_NULL" if "e < ?d" for e
    using reachable_keysD [OF assms(1-3)] same_hash [OF assms(4)] that by simp
  have end_before: "\<not> passed hit keys ?s e" if "?d < e" for e
    using that d(2) assms(3) hit unfolding passed_def by metis
  show False
  proof (cases r)
    case (Empty_Slot p avail)
    then obtain e where e: "e < ?n" "keys ! slot_at ?n ?s e = MP_OBJ_NULL" "passed hit keys ?s e"
      using r by auto
    then have "e \<noteq> ?d" using d(2) assms(3) by auto
    then show False using chain end_before e by (meson nat_neq_iff)
  next
    case (Wrapped avail)
    then show False using r end_before [OF d(1)] by simp
  qed (use assms in auto)
qed

text \<open>Storing a new key in a free slot of its probe sequence keeps the invariant.\<close>

lemma insert_inv:
  assumes inv: "hash_inv ops keys" and p: "p < length keys" "\<not> is_filled (keys ! p)"
    and new: "\<And>j k. j < length keys \<Longrightarrow> keys ! j = Obj k \<Longrightarrow> \<not> same ops k x"
    and chain: "\<And>d. d < dist (length keys) (obj_hash ops x mod length keys) p \<Longrightarrow>
      keys ! slot_at (length keys) (obj_hash ops x mod length keys) d \<noteq> MP_OBJ_NULL"
  shows "hash_inv ops (keys[p := Obj x])"
  unfolding hash_inv_def
proof (intro conjI no_duplicatesI reachable_keysI)
  fix i j a b
  assume "i < length (keys[p := Obj x])" "j < length (keys[p := Obj x])"
    and "keys[p := Obj x] ! i = Obj a" "keys[p := Obj x] ! j = Obj b" "same ops b a"
  then show "i = j"
    using no_duplicatesD [of ops keys i j a b] inv new [of i a] new [of j b] same_sym [of b a]
    by (cases "i = p"; cases "j = p") (auto simp: hash_inv_def)
next
  fix j k d
  assume j: "j < length (keys[p := Obj x])" "keys[p := Obj x] ! j = Obj k"
    and d: "d < dist (length (keys[p := Obj x])) (obj_hash ops k mod length (keys[p := Obj x])) j"
  let ?q = "slot_at (length keys) (obj_hash ops k mod length keys) d"
  have "keys ! ?q \<noteq> MP_OBJ_NULL"
  proof (cases "j = p")
    case True
    then show ?thesis using chain [of d] j d p by simp
  next
    case False
    then show ?thesis using reachable_keysD [of ops keys j k d] inv j d by (simp add: hash_inv_def)
  qed
  then show "keys[p := Obj x] ! slot_at (length (keys[p := Obj x]))
      (obj_hash ops k mod length (keys[p := Obj x])) d \<noteq> MP_OBJ_NULL"
    using p by (cases "?q = p") auto
qed

text \<open>Deleting a key keeps it, whichever marker the slot gets.\<close>

lemma delete_inv:
  assumes inv: "hash_inv ops keys" and p: "p < length keys"
  shows "hash_inv ops (keys[p := deleted_key keys p])"
  unfolding hash_inv_def
proof (intro conjI no_duplicatesI reachable_keysI)
  let ?ks = "keys[p := deleted_key keys p]"
  have gone: "?ks ! p \<noteq> Obj k" for k using p by (simp add: deleted_key_def)
  fix i j a b
  assume "i < length ?ks" "j < length ?ks" "?ks ! i = Obj a" "?ks ! j = Obj b" "same ops b a"
  then show "i = j"
    using no_duplicatesD [of ops keys i j a b] inv gone
    by (cases "i = p"; cases "j = p") (auto simp: hash_inv_def)
next
  let ?n = "length keys"
  let ?ks = "keys[p := deleted_key keys p]"
  fix j k d
  assume j: "j < length ?ks" "?ks ! j = Obj k"
    and d: "d < dist (length ?ks) (obj_hash ops k mod length ?ks) j"
  let ?s = "obj_hash ops k mod ?n"
  have s: "?s < ?n" using p by (intro mod_less_divisor) auto
  have jp: "j \<noteq> p" "keys ! j = Obj k" using j p by (auto simp: nth_list_update deleted_key_def split: if_splits)
  have chain: "keys ! slot_at ?n ?s e \<noteq> MP_OBJ_NULL" if "e < dist ?n ?s j" for e
    using reachable_keysD [of ops keys j k e] inv jp j that by (simp add: hash_inv_def)
  have "keys ! slot_at ?n ?s (Suc d) \<noteq> MP_OBJ_NULL"
  proof (cases "Suc d = dist ?n ?s j")
    case True
    then show ?thesis using jp s j by (simp add: probe_simps)
  qed (use d chain in auto)
  then have "deleted_key keys p \<noteq> MP_OBJ_NULL" if "slot_at ?n ?s d = p"
    using that slot_at_Suc [of ?n ?s d] by (auto simp: deleted_key_def)
  then show "?ks ! slot_at (length ?ks) (obj_hash ops k mod length ?ks) d \<noteq> MP_OBJ_NULL"
    using chain d p by (cases "slot_at ?n ?s d = p") auto
qed

text \<open>The slot where a search would insert: free, on the probe sequence, none empty before.\<close>

lemma insert_slot:
  assumes "keys \<noteq> []" "probe_result hit keys (obj_hash ops x mod length keys) r"
    and "r = Empty_Slot p0 None \<and> p = p0 \<or> r = Empty_Slot p0 (Some p) \<or> r = Wrapped (Some p)"
  shows "p < length keys" "\<not> is_filled (keys ! p)"
    and "d < dist (length keys) (obj_hash ops x mod length keys) p \<Longrightarrow>
      keys ! slot_at (length keys) (obj_hash ops x mod length keys) d \<noteq> MP_OBJ_NULL"
proof -
  let ?n = "length keys"
  let ?s = "obj_hash ops x mod ?n"
  have s: "?s < ?n" using assms(1) by (intro mod_less_divisor) auto
  obtain e where e: "e < ?n" "p = slot_at ?n ?s e" "\<not> is_filled (keys ! p)" "passed hit keys ?s e"
    using assms(3)
  proof (elim disjE conjE)
    assume "r = Empty_Slot p0 None" "p = p0"
    then show thesis using that assms(2) by auto
  next
    assume "r = Empty_Slot p0 (Some p)"
    then obtain d e where "d < ?n" "passed hit keys ?s d" "e < d" "p = slot_at ?n ?s e"
      "keys ! p = MP_OBJ_SENTINEL"
      using assms(2) by (auto simp: avail_ok_def)
    then show thesis using that [of e] passed_mono [of hit keys ?s d e] by simp
  next
    assume "r = Wrapped (Some p)"
    then obtain e where "passed hit keys ?s ?n" "e < ?n" "p = slot_at ?n ?s e"
      "keys ! p = MP_OBJ_SENTINEL"
      using assms(2) by (auto simp: avail_ok_def)
    then show thesis using that [of e] passed_mono [of hit keys ?s ?n e] by simp
  qed
  show "p < ?n" using e s by (auto intro: slot_at_less)
  show "\<not> is_filled (keys ! p)" by (rule e(3))
  show "keys ! slot_at ?n ?s d \<noteq> MP_OBJ_NULL" if "d < dist ?n ?s p"
    using that e s by (simp add: probe_simps passed_def)
qed

lemma full_when_wrapped:
  assumes "ks \<noteq> []" "probe_result hit ks (h mod length ks) (Wrapped None)"
  shows "filled_count ks = length ks"
proof (rule filled_count_all, intro allI impI)
  fix p
  assume p: "p < length ks"
  let ?s = "h mod length ks"
  have s: "?s < length ks" using assms(1) by simp
  have d: "dist (length ks) ?s p < length ks" "slot_at (length ks) ?s (dist (length ks) ?s p) = p"
    using s p by (simp_all add: probe_simps)
  then have "ks ! p \<noteq> MP_OBJ_NULL" "ks ! p \<noteq> MP_OBJ_SENTINEL"
    using assms(2) by (auto simp: passed_def avail_ok_def)
  then show "is_filled (ks ! p)" by (cases "ks ! p") auto
qed

lemma full_all_filled:
  assumes "filled_count ks = length ks" "p < length ks" shows "is_filled (ks ! p)"
proof -
  have "filter is_filled ks = ks"
    using assms(1) unfolding filled_count_def by (metis filter_id_conv length_filter_less less_irrefl)
  then show ?thesis using assms(2) by (metis filter_id_conv nth_mem)
qed

lemma no_duplicates_Cons:
  assumes "no_duplicates ops (x # xs)"
  shows "no_duplicates ops xs" and "x = Obj k \<Longrightarrow> Obj l \<in> set xs \<Longrightarrow> \<not> same ops l k"
proof -
  show "no_duplicates ops xs"
  proof (rule no_duplicatesI)
    fix i j a b
    assume "i < length xs" "j < length xs" "xs ! i = Obj a" "xs ! j = Obj b" "same ops b a"
    then show "i = j" using no_duplicatesD [OF assms, of "Suc i" "Suc j" a b] by simp
  qed
  show "\<not> same ops l k" if x: "x = Obj k" and l: "Obj l \<in> set xs"
  proof
    assume "same ops l k"
    moreover obtain j where "j < length xs" "xs ! j = Obj l" using l by (auto simp: in_set_conv_nth)
    ultimately show False using no_duplicatesD [OF assms, of 0 "Suc j" k l] x by simp
  qed
qed

text \<open>Only the slot that was searched for holds the key.\<close>

lemma unique_slot:
  assumes "no_duplicates ops keys" "i < length keys" "j < length keys"
    and "keys ! i = Obj a" "same ops a x" "holds_key ops x (keys ! j)"
  shows "j = i"
proof (cases "keys ! j")
  case (Obj b)
  then have "same ops b x" using assms(6) by simp
  then have "same ops b a" using assms(5) same_trans same_sym by blast
  then show ?thesis using no_duplicatesD [OF assms(1-4) Obj] by simp
qed (use assms in auto)

end

text \<open>Sets compare with \<^verbatim>\<open>mp_obj_equal\<close> only, which must then be reflexive.\<close>

locale hashable = key_ops +
  assumes equal_refl: "obj_equal ops a a"
begin

lemma same_equal: "same ops a b \<longleftrightarrow> obj_equal ops a b"
  using equal_refl by (auto simp: same_def)

end

end
