(* ===== verification/Objects.thy ===== *)
theory Objects
  imports Probe
begin

text \<open>
  The objects that are most used as keys: small integers, interned strings (\<^verbatim>\<open>qstr\<close>)
  and string objects, with equality (\<^verbatim>\<open>mp_obj_equal\<close>, \<^verbatim>\<open>mp_obj_str_equal\<close>) and hash
  (\<^verbatim>\<open>mp_unary_op\<close> with \<^verbatim>\<open>MP_UNARY_OP_HASH\<close>, \<^verbatim>\<open>qstr_compute_hash\<close>) as the firmware
  computes them.  They are the instance on which the contract of keys is interpreted.
\<close>

text \<open>
  An interned string is determined by its bytes.  A string object has an address, and its
  hash field is zero until the hash has been computed.
\<close>

datatype pyobj =
    Small_Int int
  | Qstr "byte list"
  | Str nat bool "byte list"

definition qstr_compute_hash :: "byte list \<Rightarrow> nat" where
  "qstr_compute_hash data =
    (let hash = foldl (\<lambda>hash b. (push_bit 5 hash + hash) XOR ucast b) (5381 :: 32 word) data;
         hash = hash AND 0xffff
     in unat (if hash = 0 then hash + 1 else hash))"

fun mp_obj_is_qstr :: "pyobj \<Rightarrow> bool" where
  "mp_obj_is_qstr (Qstr d) = True"
| "mp_obj_is_qstr x = False"

fun is_exact_str :: "pyobj \<Rightarrow> bool" where
  "is_exact_str (Str a h d) = True"
| "is_exact_str x = False"

text \<open>\<^verbatim>\<open>GET_STR_HASH\<close> and \<^verbatim>\<open>GET_STR_DATA_LEN\<close>.\<close>

fun str_hash :: "pyobj \<Rightarrow> nat" where
  "str_hash (Qstr d) = qstr_compute_hash d"
| "str_hash (Str a known d) = (if known then qstr_compute_hash d else 0)"
| "str_hash (Small_Int i) = 0"

fun str_data :: "pyobj \<Rightarrow> byte list" where
  "str_data (Qstr d) = d"
| "str_data (Str a known d) = d"
| "str_data (Small_Int i) = []"

definition mp_obj_str_equal :: "pyobj \<Rightarrow> pyobj \<Rightarrow> bool" where
  "mp_obj_str_equal s1 s2 =
    (if mp_obj_is_qstr s1 \<and> mp_obj_is_qstr s2 then s1 = s2
     else let h1 = str_hash s1; h2 = str_hash s2
          in if h1 \<noteq> 0 \<and> h2 \<noteq> 0 \<and> h1 \<noteq> h2 then False
             else if length (str_data s1) \<noteq> length (str_data s2) then False
             else str_data s1 = str_data s2)"

text \<open>
  Comparing an integer with a string ends in the comparison of pointers, which differ.
\<close>

definition mp_obj_equal :: "pyobj \<Rightarrow> pyobj \<Rightarrow> bool" where
  "mp_obj_equal o1 o2 =
    (if o1 = o2 then True
     else case o1 of
         Small_Int i \<Rightarrow> False
       | _ \<Rightarrow> (case o2 of Small_Int i \<Rightarrow> False | _ \<Rightarrow> mp_obj_str_equal o1 o2))"

fun mp_obj_hash :: "pyobj \<Rightarrow> nat" where
  "mp_obj_hash (Small_Int i) = nat (i mod 2 ^ 32)"
| "mp_obj_hash s = (let h = str_hash s in if h = 0 then qstr_compute_hash (str_data s) else h)"

definition pyobj_ops :: "(pyobj \<Rightarrow> nat) \<Rightarrow> pyobj obj_ops" where
  "pyobj_ops adr = \<lparr>obj_equal = mp_obj_equal, obj_hash = mp_obj_hash,
     obj_is_qstr = mp_obj_is_qstr, obj_is_str = is_exact_str, obj_address = adr\<rparr>"

lemma qstr_compute_hash_pos: "qstr_compute_hash d \<noteq> 0"
  by (simp add: qstr_compute_hash_def Let_def unat_eq_zero)

lemma mp_obj_str_equal_data:
  assumes "\<And>i. s1 \<noteq> Small_Int i" "\<And>i. s2 \<noteq> Small_Int i"
  shows "mp_obj_str_equal s1 s2 \<longleftrightarrow> str_data s1 = str_data s2"
  using assms by (cases s1; cases s2) (auto simp: mp_obj_str_equal_def Let_def)

lemma mp_obj_equal_iff:
  "mp_obj_equal a b \<longleftrightarrow> a = b \<or>
    ((\<forall>i. a \<noteq> Small_Int i) \<and> (\<forall>i. b \<noteq> Small_Int i) \<and> str_data a = str_data b)"
  by (cases a; cases b) (auto simp: mp_obj_equal_def mp_obj_str_equal_data)

lemma mp_obj_hash_str: "(\<And>i. a \<noteq> Small_Int i) \<Longrightarrow> mp_obj_hash a = qstr_compute_hash (str_data a)"
  by (cases a) (auto simp: Let_def qstr_compute_hash_pos)

interpretation py: key_ops "pyobj_ops adr" for adr
proof
  fix a b c
  show "obj_equal (pyobj_ops adr) b a" if "obj_equal (pyobj_ops adr) a b"
    using that by (auto simp: pyobj_ops_def mp_obj_equal_iff)
  show "a = c \<or> obj_equal (pyobj_ops adr) a c"
    if "obj_equal (pyobj_ops adr) a b" "obj_equal (pyobj_ops adr) b c"
    using that by (auto simp: pyobj_ops_def mp_obj_equal_iff)
  show "obj_hash (pyobj_ops adr) a = obj_hash (pyobj_ops adr) b"
    if "obj_equal (pyobj_ops adr) a b"
    using that by (auto simp: pyobj_ops_def mp_obj_equal_iff mp_obj_hash_str)
  show "a = b" if "obj_is_qstr (pyobj_ops adr) a" "obj_is_qstr (pyobj_ops adr) b"
    "obj_equal (pyobj_ops adr) a b"
    using that by (cases a; cases b) (auto simp: pyobj_ops_def mp_obj_equal_iff)
  show "obj_is_qstr (pyobj_ops adr) b \<or> obj_is_str (pyobj_ops adr) b"
    if "obj_is_qstr (pyobj_ops adr) a" "obj_equal (pyobj_ops adr) a b"
    using that by (cases a; cases b) (auto simp: pyobj_ops_def mp_obj_equal_iff)
qed

interpretation py: hashable "pyobj_ops adr" for adr
  by unfold_locales (simp add: pyobj_ops_def mp_obj_equal_def)

end
