(* ===== verification/Mp_Map.thy ===== *)
theory Mp_Map
  imports Objects
begin

text \<open>
  The map of \<^verbatim>\<open>py/map.c\<close>, which every dictionary, module and namespace of the firmware
  is: a hash table with linear probing, or an ordered array.  Values of pointer type are
  indices into the table; \<open>None\<close> is the result of an operation that does not return
  (a failed assertion, or not enough fuel for the mutual recursion of lookup and rehash).
\<close>

section \<open>Model\<close>

record 'o mp_map_elem =
  ekey :: "'o obj"
  evalue :: "'o obj"

record 'o mp_map =
  all_keys_are_qstrs :: bool
  is_fixed :: bool
  is_ordered :: bool
  used :: nat
  alloc :: nat
  table :: "'o mp_map_elem list"

type_synonym map_cache = "nat list"

definition null_elem :: "'o mp_map_elem" where
  "null_elem = \<lparr>ekey = MP_OBJ_NULL, evalue = MP_OBJ_NULL\<rparr>"

abbreviation map_keys :: "'o mp_map \<Rightarrow> 'o obj list" where
  "map_keys m \<equiv> map ekey (table m)"

subsection \<open>The lookup cache\<close>

definition map_cache_offset :: "'o obj_ops \<Rightarrow> 'o \<Rightarrow> nat" where
  "map_cache_offset ops index = (obj_address ops index div 4) mod 128"

definition map_cache_get :: "'o obj_ops \<Rightarrow> map_cache \<Rightarrow> 'o mp_map \<Rightarrow> 'o \<Rightarrow> nat" where
  "map_cache_get ops c m index = (c ! map_cache_offset ops index) mod alloc m"

definition map_cache_set :: "'o obj_ops \<Rightarrow> map_cache \<Rightarrow> 'o \<Rightarrow> nat \<Rightarrow> map_cache" where
  "map_cache_set ops c index pos = c[map_cache_offset ops index := pos mod 256]"

subsection \<open>Construction and clearing\<close>

definition mp_map_init :: "nat \<Rightarrow> 'o mp_map" where
  "mp_map_init n = \<lparr>all_keys_are_qstrs = True, is_fixed = False, is_ordered = False, used = 0,
     alloc = n, table = replicate n null_elem\<rparr>"

definition mp_map_init_fixed_table :: "'o mp_map_elem list \<Rightarrow> 'o mp_map" where
  "mp_map_init_fixed_table t = \<lparr>all_keys_are_qstrs = True, is_fixed = True, is_ordered = True,
     used = length t, alloc = length t, table = t\<rparr>"

definition mp_map_deinit :: "'o mp_map \<Rightarrow> 'o mp_map" where
  "mp_map_deinit m = m\<lparr>used := 0, alloc := 0\<rparr>"

definition mp_map_clear :: "'o mp_map \<Rightarrow> 'o mp_map" where
  "mp_map_clear m = m\<lparr>alloc := 0, used := 0, all_keys_are_qstrs := True, is_fixed := False,
     table := []\<rparr>"

subsection \<open>Lookup, insertion and removal\<close>

text \<open>
  Whether pointers are compared only; \<open>None\<close> when the lookup fails without a search.
\<close>

definition compare_only_ptrs :: "'o obj_ops \<Rightarrow> 'o mp_map \<Rightarrow> 'o \<Rightarrow> lookup_kind \<Rightarrow> bool option" where
  "compare_only_ptrs ops m index kind =
    (if all_keys_are_qstrs m then
       if obj_is_qstr ops index then Some True
       else if obj_is_str ops index then Some False
       else if kind \<noteq> MP_MAP_LOOKUP_ADD_IF_NOT_FOUND then None
       else Some True
     else Some False)"

definition key_hit :: "'o obj_ops \<Rightarrow> bool \<Rightarrow> 'o \<Rightarrow> 'o \<Rightarrow> bool" where
  "key_hit ops ptrs index k \<longleftrightarrow> k = index \<or> (\<not> ptrs \<and> obj_equal ops k index)"

definition add_elem :: "'o obj_ops \<Rightarrow> 'o mp_map \<Rightarrow> nat \<Rightarrow> 'o \<Rightarrow> 'o mp_map" where
  "add_elem ops m p index = m\<lparr>used := used m + 1,
     table := (table m)[p := \<lparr>ekey = Obj index, evalue = MP_OBJ_NULL\<rparr>],
     all_keys_are_qstrs := all_keys_are_qstrs m \<and> obj_is_qstr ops index\<rparr>"

definition set_value :: "'o mp_map \<Rightarrow> nat \<Rightarrow> 'o obj \<Rightarrow> 'o mp_map" where
  "set_value m p v = m\<lparr>table := (table m)[p := (table m ! p)\<lparr>evalue := v\<rparr>]\<rparr>"

fun find_elem :: "('o \<Rightarrow> bool) \<Rightarrow> 'o mp_map_elem list \<Rightarrow> nat option" where
  "find_elem hit [] = None"
| "find_elem hit (e # es) =
    (case ekey e of
       Obj k \<Rightarrow> if hit k then Some 0 else map_option Suc (find_elem hit es)
     | _ \<Rightarrow> map_option Suc (find_elem hit es))"

definition ordered_remove :: "'o mp_map \<Rightarrow> nat \<Rightarrow> 'o mp_map" where
  "ordered_remove m i =
    (let u = used m - 1;
         t = blit (table m) i (drop (i + 1) (take (used m) (table m)))
     in m\<lparr>used := u, table := t[u := \<lparr>ekey = MP_OBJ_NULL, evalue = evalue (table m ! i)\<rparr>]\<rparr>)"

definition ordered_grow :: "'o mp_map \<Rightarrow> 'o mp_map" where
  "ordered_grow m =
    (if used m = alloc m then m\<lparr>alloc := alloc m + 4, table := table m @ replicate 4 null_elem\<rparr>
     else m)"

definition ordered_lookup ::
  "'o obj_ops \<Rightarrow> bool \<Rightarrow> 'o mp_map \<Rightarrow> map_cache \<Rightarrow> 'o \<Rightarrow> lookup_kind \<Rightarrow>
   'o mp_map \<times> map_cache \<times> nat option" where
  "ordered_lookup ops ptrs m c index kind =
    (case find_elem (key_hit ops ptrs index) (take (used m) (table m)) of
       Some i \<Rightarrow>
         if kind = MP_MAP_LOOKUP_REMOVE_IF_FOUND then
           (let m' = ordered_remove m i
            in (m', map_cache_set ops c index (used m'), Some (used m')))
         else (m, map_cache_set ops c index i, Some i)
     | None \<Rightarrow>
         if kind \<noteq> MP_MAP_LOOKUP_ADD_IF_NOT_FOUND then (m, c, None)
         else let m' = ordered_grow m
              in (add_elem ops m' (used m') index, c, Some (used m')))"

function (sequential) mp_map_lookup ::
    "nat \<Rightarrow> 'o obj_ops \<Rightarrow> 'o mp_map \<Rightarrow> map_cache \<Rightarrow> 'o \<Rightarrow> lookup_kind \<Rightarrow>
     ('o mp_map \<times> map_cache \<times> nat option) option"
  and map_search ::
    "nat \<Rightarrow> 'o obj_ops \<Rightarrow> bool \<Rightarrow> 'o mp_map \<Rightarrow> map_cache \<Rightarrow> 'o \<Rightarrow> lookup_kind \<Rightarrow>
     ('o mp_map \<times> map_cache \<times> nat option) option"
  and mp_map_rehash ::
    "nat \<Rightarrow> 'o obj_ops \<Rightarrow> 'o mp_map \<Rightarrow> map_cache \<Rightarrow> ('o mp_map \<times> map_cache) option"
  and map_reinsert ::
    "nat \<Rightarrow> 'o obj_ops \<Rightarrow> 'o mp_map_elem list \<Rightarrow> 'o mp_map \<Rightarrow> map_cache \<Rightarrow>
     ('o mp_map \<times> map_cache) option" where
  "mp_map_lookup 0 ops m c index kind = None"
| "mp_map_lookup (Suc n) ops m c index kind =
    (if is_fixed m \<and> kind \<noteq> MP_MAP_LOOKUP then None
     else if kind \<noteq> MP_MAP_LOOKUP_REMOVE_IF_FOUND \<and> alloc m \<noteq> 0 \<and>
             ekey (table m ! map_cache_get ops c m index) = Obj index
       then Some (m, c, Some (map_cache_get ops c m index))
     else case compare_only_ptrs ops m index kind of
         None \<Rightarrow> Some (m, c, None)
       | Some ptrs \<Rightarrow>
           if is_ordered m then Some (ordered_lookup ops ptrs m c index kind)
           else if alloc m = 0 then
             if kind = MP_MAP_LOOKUP_ADD_IF_NOT_FOUND then
               (case mp_map_rehash n ops m c of
                  None \<Rightarrow> None
                | Some (m', c') \<Rightarrow> map_search n ops ptrs m' c' index kind)
             else Some (m, c, None)
           else map_search n ops ptrs m c index kind)"
| "map_search 0 ops ptrs m c index kind = None"
| "map_search (Suc n) ops ptrs m c index kind =
    (case probe (key_hit ops ptrs index) (map_keys m) (obj_hash ops index) of
       None \<Rightarrow> None
     | Some (Found p) \<Rightarrow>
         Some (if kind = MP_MAP_LOOKUP_REMOVE_IF_FOUND
               then m\<lparr>used := used m - 1,
                      table := (table m)[p := (table m ! p)\<lparr>ekey := deleted_key (map_keys m) p\<rparr>]\<rparr>
               else m,
               map_cache_set ops c index p, Some p)
     | Some (Empty_Slot p avail) \<Rightarrow>
         if kind = MP_MAP_LOOKUP_ADD_IF_NOT_FOUND
         then let q = (case avail of None \<Rightarrow> p | Some q \<Rightarrow> q)
              in Some (add_elem ops m q index, c, Some q)
         else Some (m, c, None)
     | Some (Wrapped avail) \<Rightarrow>
         if kind = MP_MAP_LOOKUP_ADD_IF_NOT_FOUND
         then (case avail of
                 Some q \<Rightarrow> Some (add_elem ops m q index, c, Some q)
               | None \<Rightarrow>
                   (case mp_map_rehash n ops m c of
                      None \<Rightarrow> None
                    | Some (m', c') \<Rightarrow> map_search n ops ptrs m' c' index kind))
         else Some (m, c, None))"
| "mp_map_rehash 0 ops m c = None"
| "mp_map_rehash (Suc n) ops m c =
    (let new_alloc = get_hash_alloc_greater_or_equal_to (alloc m + 1)
     in map_reinsert n ops (table m)
          (m\<lparr>alloc := new_alloc, used := 0, all_keys_are_qstrs := True,
             table := replicate new_alloc null_elem\<rparr>) c)"
| "map_reinsert n ops [] m c = Some (m, c)"
| "map_reinsert n ops (e # es) m c =
    (case ekey e of
       Obj k \<Rightarrow>
         (case mp_map_lookup n ops m c k MP_MAP_LOOKUP_ADD_IF_NOT_FOUND of
            Some (m', c', Some p) \<Rightarrow> map_reinsert n ops es (set_value m' p (evalue e)) c'
          | _ \<Rightarrow> None)
     | _ \<Rightarrow> map_reinsert n ops es m c)"
  by pat_completeness simp_all
termination
  by (relation "measures [\<lambda>x. case x of
         Inl (Inl (n, _)) \<Rightarrow> n | Inl (Inr (n, _)) \<Rightarrow> n
       | Inr (Inl (n, _)) \<Rightarrow> n | Inr (Inr (n, _)) \<Rightarrow> n,
     \<lambda>x. case x of Inr (Inr (_, _, es, _)) \<Rightarrow> length es | _ \<Rightarrow> 0]") auto

text \<open>
  Lookup, at most one rehash, one lookup for each key of the old table: the depth of the
  recursion is bounded by a constant.
\<close>

abbreviation (input) map_fuel :: nat where
  "map_fuel \<equiv> 5"

section \<open>Contents of a table\<close>

definition tget :: "'o obj_ops \<Rightarrow> 'o mp_map_elem list \<Rightarrow> 'o \<Rightarrow> 'o obj option" where
  "tget ops t x = map_option evalue (find (\<lambda>e. holds_key ops x (ekey e)) t)"

definition map_get :: "'o obj_ops \<Rightarrow> 'o mp_map \<Rightarrow> 'o \<Rightarrow> 'o obj option" where
  "map_get ops m x = tget ops (table m) x"

definition keys_are_qstrs :: "'o obj_ops \<Rightarrow> 'o obj list \<Rightarrow> bool" where
  "keys_are_qstrs ops keys = list_all (\<lambda>k. case k of Obj x \<Rightarrow> obj_is_qstr ops x | _ \<Rightarrow> True) keys"

text \<open>An ordered array is filled from its start; the rest of it is free.\<close>

definition compact :: "nat \<Rightarrow> 'o obj list \<Rightarrow> bool" where
  "compact n keys \<longleftrightarrow>
    (\<forall>i<length keys. is_filled (keys ! i) \<longleftrightarrow> i < n)"

definition map_wf :: "'o obj_ops \<Rightarrow> 'o mp_map \<Rightarrow> bool" where
  "map_wf ops m \<longleftrightarrow>
    length (table m) = alloc m \<and> used m = filled_count (map_keys m) \<and>
    (all_keys_are_qstrs m \<longrightarrow> keys_are_qstrs ops (map_keys m)) \<and>
    no_duplicates ops (map_keys m) \<and>
    (if is_ordered m
     then compact (used m) (map_keys m)
     else reachable_keys ops (map_keys m))"

lemma tget_None: "tget ops t x = None \<longleftrightarrow> (\<forall>i<length t. \<not> holds_key ops x (ekey (t ! i)))"
  by (auto simp: tget_def find_None_iff in_set_conv_nth)

lemma compact_filled: "compact n ks \<Longrightarrow> i < n \<Longrightarrow> i < length ks \<Longrightarrow> is_filled (ks ! i)"
  by (simp add: compact_def)

lemma compact_bound: "compact n ks \<Longrightarrow> i < length ks \<Longrightarrow> ks ! i = Obj k \<Longrightarrow> i < n"
  by (auto simp: compact_def split: if_splits)

lemma compact_count:
  assumes "compact n ks" "n \<le> length ks" shows "filled_count ks = n"
proof -
  have "filter is_filled (take n ks) = take n ks" "filter is_filled (drop n ks) = []"
    using assms by (auto simp: compact_def filter_id_conv filter_empty_conv in_set_conv_nth)
  then have "filter is_filled (take n ks @ drop n ks) = take n ks" by (simp only: filter_append append_Nil2)
  then show ?thesis using assms(2) by (simp add: filled_count_def)
qed

lemma holds_keyE:
  assumes "holds_key ops x o'"
  obtains k where "o' = Obj k" "same ops k x"
  using assms by (cases o') auto

context key_ops
begin

lemma same_cong: "same ops x y \<Longrightarrow> same ops k x \<longleftrightarrow> same ops k y"
  by (blast intro: same_trans same_sym)

lemma tget_hit:
  assumes "no_duplicates ops (map ekey t)" "i < length t" "holds_key ops x (ekey (t ! i))"
  shows "tget ops t x = Some (evalue (t ! i))"
proof -
  obtain e where "find (\<lambda>e. holds_key ops x (ekey e)) t = Some e"
    using assms(2,3) by (cases "find (\<lambda>e. holds_key ops x (ekey e)) t") (auto simp: find_None_iff)
  then obtain j where j: "j < length t" "e = t ! j" "holds_key ops x (ekey (t ! j))"
    by (auto simp: find_Some_iff)
  obtain a b where ab: "ekey (t ! i) = Obj a" "same ops a x" "ekey (t ! j) = Obj b" "same ops b x"
    using assms(3) j(3) by (auto elim!: holds_keyE)
  then have "i = j"
    using no_duplicatesD [OF assms(1), of i j a b] assms(2) j(1) same_trans [of b x a] same_sym
    by simp
  then show ?thesis using j \<open>find _ t = Some e\<close> by (simp add: tget_def)
qed

lemma tget_Some:
  assumes "no_duplicates ops (map ekey t)"
  shows "tget ops t x = Some v \<longleftrightarrow>
    (\<exists>i<length t. holds_key ops x (ekey (t ! i)) \<and> evalue (t ! i) = v)"
proof
  assume "tget ops t x = Some v"
  then show "\<exists>i<length t. holds_key ops x (ekey (t ! i)) \<and> evalue (t ! i) = v"
    by (auto simp: tget_def find_Some_iff)
qed (use tget_hit [OF assms] in auto)

text \<open>Replacing the element of one slot.\<close>

lemma tget_insert:
  assumes "no_duplicates ops (map ekey (t[p := e]))" "no_duplicates ops (map ekey t)"
    and "p < length t" "\<not> is_filled (ekey (t ! p))" "ekey e = Obj x"
  shows "tget ops (t[p := e]) y = (if same ops x y then Some (evalue e) else tget ops t y)"
proof (cases "same ops x y")
  case True
  then show ?thesis using tget_hit [OF assms(1), of p y] assms(3,5) by simp
next
  case False
  have "holds_key ops y (ekey (t[p := e] ! i)) \<longleftrightarrow> holds_key ops y (ekey (t ! i)) \<and> i \<noteq> p"
    if "i < length t" for i
    using that False assms(3-5) by (cases "ekey (t ! p)") (auto simp: nth_list_update)
  moreover have "\<not> holds_key ops y (ekey (t ! p))" using assms(4) by (cases "ekey (t ! p)") auto
  ultimately have "tget ops (t[p := e]) y = Some v \<longleftrightarrow> tget ops t y = Some v" for v
    using tget_Some [OF assms(1), of y v] tget_Some [OF assms(2), of y v]
    by simp (metis nth_list_update_neq)
  then show ?thesis using False by (cases "tget ops t y"; cases "tget ops (t[p := e]) y") auto
qed

lemma tget_delete:
  assumes "no_duplicates ops (map ekey (t[p := e]))" "no_duplicates ops (map ekey t)"
    and "p < length t" "ekey (t ! p) = Obj x" "\<not> is_filled (ekey e)"
  shows "tget ops (t[p := e]) y = (if same ops x y then None else tget ops t y)"
proof -
  have "holds_key ops y (ekey (t[p := e] ! i)) \<longleftrightarrow> holds_key ops y (ekey (t ! i)) \<and> i \<noteq> p"
    if "i < length t" for i
    using that assms(3-5) by (cases "ekey e") (auto simp: nth_list_update)
  note ne = this
  show ?thesis
  proof (cases "same ops x y")
    case True
    have "i = p" if i: "i < length t" "holds_key ops y (ekey (t ! i))" for i
    proof -
      obtain k where "ekey (t ! i) = Obj k" "same ops k y" using i(2) by (rule holds_keyE)
      then show ?thesis
        using no_duplicatesD [OF assms(2), of p i x k] assms(3,4) i(1) True same_trans same_sym
        by (metis length_map nth_map)
    qed
    then show ?thesis using True ne by (auto simp: tget_None)
  next
    case False
    then have "\<not> holds_key ops y (ekey (t ! p))" using assms(4) by simp
    then have "tget ops (t[p := e]) y = Some v \<longleftrightarrow> tget ops t y = Some v" for v
      using tget_Some [OF assms(1), of y v] tget_Some [OF assms(2), of y v] ne
      by simp (metis nth_list_update_neq)
    then show ?thesis using False by (cases "tget ops t y"; cases "tget ops (t[p := e]) y") auto
  qed
qed

lemma keys_set_value [simp]: "map_keys (set_value m p v) = map_keys m"
  by (cases "p < length (table m)")
    (simp_all add: set_value_def map_update list_update_same_conv list_update_beyond)

lemma set_value_ok:
  assumes "map_wf ops m" "p < alloc m" "ekey (table m ! p) = Obj k"
  shows "map_wf ops (set_value m p v)"
    and "map_get ops (set_value m p v) y = (if same ops k y then Some v else map_get ops m y)"
proof -
  show "map_wf ops (set_value m p v)"
    using assms(1) keys_set_value [of m p v] unfolding map_wf_def
    by (auto simp: set_value_def)
  let ?t = "table m" and ?t' = "(table m)[p := (table m ! p)\<lparr>evalue := v\<rparr>]"
  have nd: "no_duplicates ops (map ekey ?t)" and len: "p < length ?t"
    using assms by (simp_all add: map_wf_def)
  have keys: "map ekey ?t' = map ekey ?t"
    using keys_set_value [of m p v] by (simp add: set_value_def)
  then have nd': "no_duplicates ops (map ekey ?t')" using nd by simp
  have "tget ops ?t' y = (if same ops k y then Some v else tget ops ?t y)"
  proof (cases "same ops k y")
    case True
    then show ?thesis using tget_hit [OF nd', of p y] len assms(3) by simp
  next
    case False
    have hk: "holds_key ops y (ekey (?t' ! i)) \<longleftrightarrow> holds_key ops y (ekey (?t ! i))" "i \<noteq> p \<Longrightarrow> ?t' ! i = ?t ! i" for i
      using keys len by (cases "i = p"; simp)+
    have "\<not> holds_key ops y (ekey (?t ! p))" using False assms(3) by simp
    then have "tget ops ?t' y = Some w \<longleftrightarrow> tget ops ?t y = Some w" for w
      using tget_Some [OF nd', of y w] tget_Some [OF nd, of y w] hk
      by simp (metis nth_list_update_neq)
    then show ?thesis using False by (cases "tget ops ?t y"; cases "tget ops ?t' y") auto
  qed
  then show "map_get ops (set_value m p v) y = (if same ops k y then Some v else map_get ops m y)"
    by (simp add: map_get_def set_value_def)
qed

end

section \<open>What a lookup promises\<close>

definition lookup_spec ::
  "'o obj_ops \<Rightarrow> 'o mp_map \<Rightarrow> 'o \<Rightarrow> lookup_kind \<Rightarrow> 'o mp_map \<Rightarrow> nat option \<Rightarrow> bool" where
  "lookup_spec ops m index kind m' r \<longleftrightarrow>
    map_wf ops m' \<and> is_ordered m' = is_ordered m \<and> is_fixed m' = is_fixed m \<and>
    (case kind of
       MP_MAP_LOOKUP_ADD_IF_NOT_FOUND \<Rightarrow>
         (\<exists>p. r = Some p \<and> p < alloc m' \<and> holds_key ops index (ekey (table m' ! p)) \<and>
            evalue (table m' ! p) = (case map_get ops m index of None \<Rightarrow> MP_OBJ_NULL | Some v \<Rightarrow> v)) \<and>
         (\<forall>y. map_get ops m' y =
            (if same ops index y \<and> map_get ops m index = None then Some MP_OBJ_NULL
             else map_get ops m y)) \<and>
         used m' = used m + (if map_get ops m index = None then 1 else 0)
     | MP_MAP_LOOKUP_REMOVE_IF_FOUND \<Rightarrow>
         (\<forall>y. map_get ops m' y = (if same ops index y then None else map_get ops m y)) \<and>
         (case map_get ops m index of
            None \<Rightarrow> r = None \<and> m' = m
          | Some v \<Rightarrow> used m = used m' + 1 \<and>
              (\<exists>p. r = Some p \<and> p < alloc m' \<and> \<not> is_filled (ekey (table m' ! p)) \<and>
                 evalue (table m' ! p) = v))
     | _ \<Rightarrow> m' = m \<and>
         (case map_get ops m index of
            None \<Rightarrow> r = None
          | Some v \<Rightarrow> \<exists>p. r = Some p \<and> p < alloc m \<and> holds_key ops index (ekey (table m ! p)) \<and>
              evalue (table m ! p) = v))"

definition filled_keys :: "'o mp_map \<Rightarrow> 'o set" where
  "filled_keys m = {k. Obj k \<in> set (map_keys m)}"

context key_ops
begin

lemma map_get_hit:
  assumes "map_wf ops m" "p < alloc m" "ekey (table m ! p) = Obj k" "same ops k x"
  shows "map_get ops m x = Some (evalue (table m ! p))"
  using assms tget_hit [of "table m" p x] by (simp add: map_get_def map_wf_def)

lemma map_get_same:
  assumes "map_wf ops m" "same ops x y" shows "map_get ops m x = map_get ops m y"
proof -
  have "holds_key ops x o' = holds_key ops y o'" for o'
    using same_cong [OF assms(2)] by (cases o') auto
  then show ?thesis by (simp add: map_get_def tget_def)
qed

lemma map_get_None:
  assumes "map_wf ops m"
  shows "map_get ops m x = None \<longleftrightarrow> (\<forall>k\<in>filled_keys m. \<not> same ops k x)"
proof -
  have "(\<exists>i<length (table m). holds_key ops x (ekey (table m ! i))) \<longleftrightarrow>
      (\<exists>k\<in>filled_keys m. same ops k x)" (is "?l \<longleftrightarrow> ?r")
  proof
    assume ?l
    then obtain i k where "i < length (table m)" "ekey (table m ! i) = Obj k" "same ops k x"
      by (auto elim: holds_keyE)
    then show ?r unfolding filled_keys_def by (auto intro!: exI [of _ k] image_eqI [of _ ekey "table m ! i"])
  next
    assume ?r
    then obtain k e where "e \<in> set (table m)" "ekey e = Obj k" "same ops k x"
      unfolding filled_keys_def by auto (metis)
    then show ?l by (metis holds_key.simps(1) in_set_conv_nth)
  qed
  then show ?thesis by (auto simp: map_get_def tget_None)
qed

lemma found_spec:
  assumes "map_wf ops m" "p < alloc m" "ekey (table m ! p) = Obj k" "same ops k x"
    and "kind \<noteq> MP_MAP_LOOKUP_REMOVE_IF_FOUND"
  shows "lookup_spec ops m x kind m (Some p)"
  using assms map_get_hit [OF assms(1-4)]
  by (cases kind) (auto simp: lookup_spec_def)

lemma absent_spec:
  assumes "map_wf ops m" "map_get ops m x = None" "kind \<noteq> MP_MAP_LOOKUP_ADD_IF_NOT_FOUND"
  shows "lookup_spec ops m x kind m None"
  using assms map_get_same [OF assms(1)]
  by (cases kind) (auto simp: lookup_spec_def)

lemma keys_add_elem: "map_keys (add_elem ops m p x) = (map_keys m)[p := Obj x]"
  by (simp add: add_elem_def map_update)

lemma filled_keys_add:
  "p < length (table m) \<Longrightarrow> filled_keys (add_elem ops m p x) \<subseteq> insert x (filled_keys m)"
  unfolding filled_keys_def keys_add_elem using set_update_subset_insert [of "map_keys m" p] by auto

lemma keys_are_qstrs_update:
  "keys_are_qstrs ops ks \<Longrightarrow> (case k of Obj x \<Rightarrow> obj_is_qstr ops x | _ \<Rightarrow> True) \<Longrightarrow>
   keys_are_qstrs ops (ks[p := k])"
  unfolding keys_are_qstrs_def list_all_iff using set_update_subset_insert [of ks p k] by blast

text \<open>The insertion that hash tables and ordered arrays share.\<close>

lemma add_elem_spec:
  assumes wf: "map_wf ops m" and new: "map_get ops m x = None"
    and p: "p < alloc m" "\<not> is_filled (ekey (table m ! p))"
    and wf': "no_duplicates ops ((map_keys m)[p := Obj x])"
      "if is_ordered m then p = used m else reachable_keys ops ((map_keys m)[p := Obj x])"
  shows "lookup_spec ops m x MP_MAP_LOOKUP_ADD_IF_NOT_FOUND (add_elem ops m p x) (Some p)"
proof -
  let ?m = "add_elem ops m p x"
  let ?e = "\<lparr>ekey = Obj x, evalue = MP_OBJ_NULL\<rparr> :: 'o mp_map_elem"
  have len: "length (table m) = alloc m" using wf by (simp add: map_wf_def)
  have count: "filled_count (map_keys ?m) = used m + 1"
    using filled_count_update [of p "map_keys m" "Obj x"] p len wf
    by (simp add: keys_add_elem map_wf_def)
  have "map_wf ops ?m"
    using wf wf' p count keys_are_qstrs_update [of "map_keys m" "Obj x" p] len
    unfolding map_wf_def keys_add_elem
    by (auto simp: add_elem_def compact_def nth_list_update less_Suc_eq split: if_splits)
  moreover have "map_get ops ?m y = (if same ops x y then Some MP_OBJ_NULL else map_get ops m y)" for y
    using tget_insert [of "table m" p ?e x y] wf' wf p len
    by (simp add: map_get_def add_elem_def map_update map_wf_def)
  ultimately show ?thesis
    using new p len by (auto simp: lookup_spec_def add_elem_def)
qed

subsection \<open>Search in a hash table\<close>

definition matcher_ok :: "bool \<Rightarrow> 'o mp_map \<Rightarrow> 'o \<Rightarrow> bool" where
  "matcher_ok ptrs m x \<longleftrightarrow> (\<forall>k\<in>filled_keys m. key_hit ops ptrs x k = same ops k x)"

lemma filled_keys_qstr: "keys_are_qstrs ops (map_keys m) \<Longrightarrow> k \<in> filled_keys m \<Longrightarrow> obj_is_qstr ops k"
  unfolding keys_are_qstrs_def filled_keys_def by (auto simp: list_all_iff split: obj.splits)

lemma compare_Some:
  assumes "map_wf ops m" "compare_only_ptrs ops m x kind = Some ptrs"
  shows "matcher_ok ptrs m x"
proof (cases ptrs)
  case True
  then have q: "keys_are_qstrs ops (map_keys m)" "obj_is_qstr ops x \<or> \<not> obj_is_str ops x"
    using assms by (auto simp: compare_only_ptrs_def map_wf_def split: if_splits)
  have "k = x" if "k \<in> filled_keys m" "same ops k x" for k
    using that q filled_keys_qstr [of m k] qstr_unique [of k x] qstr_equal [of k x]
    by (auto simp: same_def)
  then show ?thesis using True by (auto simp: matcher_ok_def key_hit_def)
qed (auto simp: matcher_ok_def key_hit_def same_def)

lemma compare_None:
  assumes "map_wf ops m" "compare_only_ptrs ops m x kind = None"
  shows "map_get ops m x = None"
proof -
  have q: "keys_are_qstrs ops (map_keys m)" "\<not> obj_is_qstr ops x" "\<not> obj_is_str ops x"
    using assms by (auto simp: compare_only_ptrs_def map_wf_def split: if_splits)
  have "\<not> same ops k x" if "k \<in> filled_keys m" for k
    using q filled_keys_qstr [OF q(1) that] qstr_equal [of k x] by (auto simp: same_def)
  then show ?thesis by (simp add: map_get_None [OF assms(1)])
qed

lemma compare_None_not_add:
  "compare_only_ptrs ops m x kind = None \<Longrightarrow> kind \<noteq> MP_MAP_LOOKUP_ADD_IF_NOT_FOUND"
  by (auto simp: compare_only_ptrs_def split: if_splits)

lemma filled_keys_nth: "p < length (table m) \<Longrightarrow> map_keys m ! p = Obj k \<Longrightarrow> k \<in> filled_keys m"
  by (auto simp: filled_keys_def in_set_conv_nth image_iff) (metis nth_mem)

text \<open>A search that ends without a hit, and what it may insert.\<close>

lemma not_found:
  assumes wf: "map_wf ops m" "\<not> is_ordered m" and hit: "matcher_ok ptrs m x"
    and r: "probe_result (key_hit ops ptrs x) (map_keys m) (obj_hash ops x mod length (map_keys m)) r"
      "\<forall>p. r \<noteq> Found p"
  shows "map_get ops m x = None"
proof -
  have reach: "reachable_keys ops (map_keys m)" using wf by (simp add: map_wf_def)
  have "\<not> same ops k x" if k: "k \<in> filled_keys m" for k
  proof
    assume s: "same ops k x"
    obtain j where j: "j < length (map_keys m)" "map_keys m ! j = Obj k"
      using k unfolding filled_keys_def by (auto simp: in_set_conv_nth)
    have "key_hit ops ptrs x k" using hit k s by (simp add: matcher_ok_def)
    then show False using missing_key [OF reach j s _ r] by blast
  qed
  then show ?thesis by (simp add: map_get_None [OF wf(1)])
qed

lemma hash_add_spec:
  assumes wf: "map_wf ops m" "\<not> is_ordered m" "0 < alloc m" and new: "map_get ops m x = None"
    and r: "probe_result hit (map_keys m) (obj_hash ops x mod length (map_keys m)) r"
    and p: "r = Empty_Slot p0 None \<and> p = p0 \<or> r = Empty_Slot p0 (Some p) \<or> r = Wrapped (Some p)"
  shows "lookup_spec ops m x MP_MAP_LOOKUP_ADD_IF_NOT_FOUND (add_elem ops m p x) (Some p)"
    and "filled_keys (add_elem ops m p x) \<subseteq> insert x (filled_keys m)"
proof -
  have ne: "map_keys m \<noteq> []" and len: "length (table m) = alloc m" using wf by (auto simp: map_wf_def)
  note slot = insert_slot [OF ne r p]
  have "hash_inv ops ((map_keys m)[p := Obj x])"
  proof (rule insert_inv)
    show "hash_inv ops (map_keys m)" using wf by (simp add: hash_inv_def map_wf_def)
    show "\<not> same ops k x" if "j < length (map_keys m)" "map_keys m ! j = Obj k" for j k
      using new that filled_keys_nth [of j m k] by (simp add: map_get_None [OF wf(1)])
  qed (use slot in auto)
  then show "lookup_spec ops m x MP_MAP_LOOKUP_ADD_IF_NOT_FOUND (add_elem ops m p x) (Some p)"
    using slot len wf(2) by (intro add_elem_spec [OF wf(1) new]) (simp_all add: hash_inv_def)
  show "filled_keys (add_elem ops m p x) \<subseteq> insert x (filled_keys m)"
    using slot by (intro filled_keys_add) simp
qed

lemma hash_remove_spec:
  fixes p
  defines "e \<equiv> \<lambda>m. (table m ! p)\<lparr>ekey := deleted_key (map_keys m) p\<rparr>"
  assumes wf: "map_wf ops m" "\<not> is_ordered m" and p: "p < alloc m" "ekey (table m ! p) = Obj k" "same ops k x"
  shows "lookup_spec ops m x MP_MAP_LOOKUP_REMOVE_IF_FOUND
    (m\<lparr>used := used m - 1, table := (table m)[p := e m]\<rparr>) (Some p)"
proof -
  let ?ks = "(map_keys m)[p := deleted_key (map_keys m) p]"
  have len: "length (table m) = alloc m" and nd: "no_duplicates ops (map_keys m)"
    using wf by (auto simp: map_wf_def)
  have unfilled: "\<not> is_filled (deleted_key (map_keys m) p)" by (simp add: deleted_key_def)
  have keys: "map ekey ((table m)[p := e m]) = ?ks" by (simp add: e_def map_update)
  have inv: "hash_inv ops ?ks"
    using wf p len by (intro delete_inv) (simp_all add: hash_inv_def map_wf_def)
  have "filled_count ?ks + 1 = filled_count (map_keys m)"
    using filled_count_update [of p "map_keys m" "deleted_key (map_keys m) p"] p len unfilled by simp
  moreover have "keys_are_qstrs ops ?ks" if "keys_are_qstrs ops (map_keys m)"
    using that unfilled by (intro keys_are_qstrs_update) (auto split: obj.splits)
  ultimately have "map_wf ops (m\<lparr>used := used m - 1, table := (table m)[p := e m]\<rparr>)" "1 \<le> used m"
    using wf inv len keys by (auto simp: map_wf_def hash_inv_def)
  moreover have "tget ops ((table m)[p := e m]) y = (if same ops k y then None else tget ops (table m) y)" for y
    using tget_delete [of "table m" p "e m" k y] keys inv nd p len unfilled
    by (simp add: e_def hash_inv_def)
  moreover have "same ops k y \<longleftrightarrow> same ops x y" for y
    using p(3) by (blast intro: same_trans same_sym)
  ultimately show ?thesis
    using map_get_hit [OF wf(1) p] p len unfilled
    by (auto simp: lookup_spec_def map_get_def e_def)
qed

text \<open>A search that does not need to grow the table.\<close>

lemma search_ok:
  assumes wf: "map_wf ops m" "\<not> is_ordered m" "0 < alloc m" and hit: "matcher_ok ptrs m x"
    and room: "kind = MP_MAP_LOOKUP_ADD_IF_NOT_FOUND \<Longrightarrow> used m < alloc m \<or> map_get ops m x \<noteq> None"
  shows "\<exists>m' c' r. map_search (Suc n) ops ptrs m c x kind = Some (m', c', r) \<and>
    lookup_spec ops m x kind m' r \<and> alloc m' = alloc m \<and> filled_keys m' \<subseteq> insert x (filled_keys m)"
proof -
  have len: "length (table m) = alloc m" using wf by (simp add: map_wf_def)
  then have ne: "map_keys m \<noteq> []" using wf by auto
  obtain r where r: "probe (key_hit ops ptrs x) (map_keys m) (obj_hash ops x) = Some r"
    "probe_result (key_hit ops ptrs x) (map_keys m) (obj_hash ops x mod length (map_keys m)) r"
    using probe_ends [OF ne] by blast
  show ?thesis
  proof (cases r)
    case (Found p)
    then obtain k where k: "p < alloc m" "ekey (table m ! p) = Obj k" "key_hit ops ptrs x k"
      using r(2) len by auto
    then have "same ops k x" using hit filled_keys_nth [of p m k] len by (simp add: matcher_ok_def)
    note pk = k(1,2) this
    show ?thesis
    proof (cases "kind = MP_MAP_LOOKUP_REMOVE_IF_FOUND")
      case True
      have "filled_keys (m\<lparr>used := used m - 1,
          table := (table m)[p := (table m ! p)\<lparr>ekey := deleted_key (map_keys m) p\<rparr>]\<rparr>) \<subseteq> filled_keys m"
        using set_update_subset_insert [of "map_keys m" p "deleted_key (map_keys m) p"]
        by (auto simp: filled_keys_def map_update deleted_key_def split: if_splits)
      then show ?thesis using hash_remove_spec [OF wf(1,2) pk] r(1) Found True by auto
    next
      case False
      then show ?thesis using found_spec [OF wf(1) pk] r(1) Found by auto
    qed
  next
    case (Empty_Slot p avail)
    then have new: "map_get ops m x = None" using not_found [OF wf(1,2) hit r(2)] by simp
    show ?thesis
    proof (cases "kind = MP_MAP_LOOKUP_ADD_IF_NOT_FOUND")
      case True
      let ?q = "case avail of None \<Rightarrow> p | Some q \<Rightarrow> q"
      have "r = Empty_Slot p None \<and> ?q = p \<or> r = Empty_Slot p (Some ?q) \<or> r = Wrapped (Some ?q)"
        using Empty_Slot by (cases avail) auto
      note hash_add_spec [OF wf new r(2) this]
      then show ?thesis using r(1) Empty_Slot True by (simp add: Let_def add_elem_def)
    next
      case False
      then show ?thesis using absent_spec [OF wf(1) new False] r(1) Empty_Slot by auto
    qed
  next
    case (Wrapped avail)
    then have new: "map_get ops m x = None" using not_found [OF wf(1,2) hit r(2)] by simp
    show ?thesis
    proof (cases "kind = MP_MAP_LOOKUP_ADD_IF_NOT_FOUND")
      case True
      then obtain q where q: "avail = Some q"
        using Wrapped r(2) full_when_wrapped [OF ne] room new wf len
        by (cases avail) (auto simp: map_wf_def)
      then have "r = Empty_Slot 0 None \<and> q = 0 \<or> r = Empty_Slot 0 (Some q) \<or> r = Wrapped (Some q)"
        using Wrapped by simp
      note hash_add_spec [OF wf new r(2) this]
      then show ?thesis using r(1) Wrapped True q by (simp add: add_elem_def)
    next
      case False
      then show ?thesis using absent_spec [OF wf(1) new False] r(1) Wrapped by auto
    qed
  qed
qed

lemma cache_hit:
  assumes "map_wf ops m" "alloc m \<noteq> 0" "ekey (table m ! map_cache_get ops c m x) = Obj x"
    and "kind \<noteq> MP_MAP_LOOKUP_REMOVE_IF_FOUND"
  shows "lookup_spec ops m x kind m (Some (map_cache_get ops c m x))"
  using assms by (intro found_spec [of m _ x]) (auto simp: map_cache_get_def)

lemma lookup_no_rehash:
  assumes wf: "map_wf ops m" "\<not> is_ordered m" and fixed: "is_fixed m \<Longrightarrow> kind = MP_MAP_LOOKUP"
    and room: "kind = MP_MAP_LOOKUP_ADD_IF_NOT_FOUND \<Longrightarrow> used m < alloc m"
  shows "\<exists>m' c' r. mp_map_lookup (Suc (Suc n)) ops m c x kind = Some (m', c', r) \<and>
    lookup_spec ops m x kind m' r \<and> alloc m' = alloc m \<and> filled_keys m' \<subseteq> insert x (filled_keys m)"
proof (cases "kind \<noteq> MP_MAP_LOOKUP_REMOVE_IF_FOUND \<and> alloc m \<noteq> 0 \<and>
    ekey (table m ! map_cache_get ops c m x) = Obj x")
  case True
  then show ?thesis using cache_hit [OF wf(1)] fixed by auto
next
  case miss: False
  show ?thesis
  proof (cases "compare_only_ptrs ops m x kind")
    case None
    then show ?thesis
      using miss fixed absent_spec [OF wf(1) compare_None [OF wf(1) None] compare_None_not_add [OF None]]
      by auto
  next
    case (Some ptrs)
    show ?thesis
    proof (cases "alloc m = 0")
      case True
      then have "map_get ops m x = None" "kind \<noteq> MP_MAP_LOOKUP_ADD_IF_NOT_FOUND"
        using wf(1) room by (auto simp: map_get_def tget_def map_wf_def)
      then show ?thesis using True miss fixed Some wf absent_spec [OF wf(1)] by auto
    next
      case False
      then have "\<exists>m' c' r. map_search (Suc n) ops ptrs m c x kind = Some (m', c', r) \<and>
        lookup_spec ops m x kind m' r \<and> alloc m' = alloc m \<and> filled_keys m' \<subseteq> insert x (filled_keys m)"
        using wf room by (intro search_ok compare_Some [OF wf(1) Some]) auto
      then show ?thesis using False miss fixed Some wf by (auto simp del: map_search.simps)
    qed
  qed
qed

subsection \<open>Rehashing\<close>

lemma reinsert_ok:
  assumes "map_wf ops m" "\<not> is_ordered m" "\<not> is_fixed m"
    and "used m + filled_count (map ekey es) \<le> alloc m" "no_duplicates ops (map ekey es)"
    and "\<And>k. Obj k \<in> set (map ekey es) \<Longrightarrow> map_get ops m k = None"
  shows "\<exists>m' c'. map_reinsert (Suc (Suc n)) ops es m c = Some (m', c') \<and> map_wf ops m' \<and>
    \<not> is_ordered m' \<and> \<not> is_fixed m' \<and> alloc m' = alloc m \<and>
    used m' = used m + filled_count (map ekey es) \<and>
    filled_keys m' \<subseteq> filled_keys m \<union> {k. Obj k \<in> set (map ekey es)} \<and>
    (\<forall>y. map_get ops m' y = (case map_get ops m y of None \<Rightarrow> tget ops es y | Some v \<Rightarrow> Some v))"
  using assms
proof (induction es arbitrary: m c)
  case Nil
  then show ?case by (auto simp: filled_count_def tget_def split: option.splits)
next
  case (Cons e es)
  have nd: "no_duplicates ops (map ekey es)"
    using no_duplicates_Cons(1) Cons.prems(5) by simp
  have skip: ?case if e: "\<not> is_filled (ekey e)"
  proof -
    have "map_reinsert (Suc (Suc n)) ops (e # es) m c = map_reinsert (Suc (Suc n)) ops es m c"
      "filled_count (map ekey (e # es)) = filled_count (map ekey es)"
      "{k. Obj k \<in> set (map ekey (e # es))} = {k. Obj k \<in> set (map ekey es)}"
      "tget ops (e # es) y = tget ops es y" for y
      using e by (cases "ekey e"; auto simp: filled_count_def tget_def)+
    then show ?thesis
      using Cons.IH [OF Cons.prems(1-3) _ nd, of c] Cons.prems(4,6) by (simp cong: option.case_cong)
  qed
  show ?case
  proof (cases "ekey e")
    case (Obj k)
    have new: "map_get ops m k = None" using Cons.prems(6) [of k] Obj by simp
    have room: "used m < alloc m" "used m + 1 + filled_count (map ekey es) \<le> alloc m"
      using Cons.prems(4) Obj by (auto simp: filled_count_def)
    obtain m1 c1 r where l: "mp_map_lookup (Suc (Suc n)) ops m c k MP_MAP_LOOKUP_ADD_IF_NOT_FOUND = Some (m1, c1, r)"
      "lookup_spec ops m k MP_MAP_LOOKUP_ADD_IF_NOT_FOUND m1 r" "alloc m1 = alloc m"
      "filled_keys m1 \<subseteq> insert k (filled_keys m)"
      using lookup_no_rehash [OF Cons.prems(1,2), of MP_MAP_LOOKUP_ADD_IF_NOT_FOUND n c k]
        Cons.prems(3) room by blast
    then obtain p where p: "r = Some p" "p < alloc m1" "holds_key ops k (ekey (table m1 ! p))"
      by (auto simp: lookup_spec_def)
    then obtain k' where k': "ekey (table m1 ! p) = Obj k'" "same ops k' k" by (auto elim: holds_keyE)
    have m1: "map_wf ops m1" "used m1 = used m + 1" "\<not> is_ordered m1" "\<not> is_fixed m1"
      "map_get ops m1 y = (if same ops k y then Some MP_OBJ_NULL else map_get ops m y)" for y
      using l(2) new Cons.prems(2,3) by (auto simp: lookup_spec_def)
    let ?m2 = "set_value m1 p (evalue e)"
    have m2: "map_wf ops ?m2" "alloc ?m2 = alloc m" "used ?m2 = used m + 1" "\<not> is_ordered ?m2"
      "\<not> is_fixed ?m2" "filled_keys ?m2 = filled_keys m1"
      using set_value_ok(1) [OF m1(1) p(2) k'(1)] m1 l(3) keys_set_value [of m1 p "evalue e"]
      by (auto simp: set_value_def filled_keys_def)
    have "same ops k' y = same ops k y" for y using k'(2) by (blast intro: same_trans same_sym)
    then have get: "map_get ops ?m2 y = (if same ops k y then Some (evalue e) else map_get ops m y)" for y
      using set_value_ok(2) [OF m1(1) p(2) k'(1)] m1(5) by simp
    have fresh: "map_get ops ?m2 l = None" if "Obj l \<in> set (map ekey es)" for l
      using that get [of l] Cons.prems(6) [of l] no_duplicates_Cons(2) [of "ekey e" "map ekey es" k l]
        Cons.prems(5) Obj same_sym by auto
    have "\<exists>m' c'. map_reinsert (Suc (Suc n)) ops es ?m2 c1 = Some (m', c') \<and> map_wf ops m' \<and>
        \<not> is_ordered m' \<and> \<not> is_fixed m' \<and> alloc m' = alloc ?m2 \<and>
        used m' = used ?m2 + filled_count (map ekey es) \<and>
        filled_keys m' \<subseteq> filled_keys ?m2 \<union> {k. Obj k \<in> set (map ekey es)} \<and>
        (\<forall>y. map_get ops m' y = (case map_get ops ?m2 y of None \<Rightarrow> tget ops es y | Some v \<Rightarrow> Some v))"
      using m2 room nd fresh by (intro Cons.IH) auto
    then obtain m' c' where m': "map_reinsert (Suc (Suc n)) ops es ?m2 c1 = Some (m', c')"
      "map_wf ops m'" "\<not> is_ordered m'" "\<not> is_fixed m'" "alloc m' = alloc ?m2"
      "used m' = used ?m2 + filled_count (map ekey es)"
      "filled_keys m' \<subseteq> filled_keys ?m2 \<union> {k. Obj k \<in> set (map ekey es)}"
      "\<And>y. map_get ops m' y = (case map_get ops ?m2 y of None \<Rightarrow> tget ops es y | Some v \<Rightarrow> Some v)"
      by blast
    have "map_get ops m' y = (case map_get ops m y of None \<Rightarrow> tget ops (e # es) y | Some v \<Rightarrow> Some v)" for y
      using m'(8) [of y] get [of y] new map_get_same [OF Cons.prems(1), of k y] Obj
      by (auto simp: tget_def split: option.splits)
    moreover have "filled_keys m' \<subseteq> filled_keys m \<union> {k. Obj k \<in> set (map ekey (e # es))}"
      using m'(7) l(4) m2(6) Obj by auto
    moreover have "used m' = used m + filled_count (map ekey (e # es))"
      using m'(6) m2(3) Obj by (simp add: filled_count_def)
    moreover have "map_reinsert (Suc (Suc n)) ops (e # es) m c = Some (m', c')"
      using l(1) p(1) m'(1) Obj by (simp del: mp_map_lookup.simps)
    ultimately show ?thesis using m'(2-5) m2(2) by (intro exI conjI) auto
  qed (use skip in auto)
qed

lemma init_wf: "map_wf ops (mp_map_init n)" "map_get ops (mp_map_init n) x = None"
proof -
  have "hash_inv ops (replicate n MP_OBJ_NULL)" by (rule hash_inv_replicate)
  then show "map_wf ops (mp_map_init n)"
    by (simp add: map_wf_def mp_map_init_def null_elem_def hash_inv_def keys_are_qstrs_def list_all_iff)
  show "map_get ops (mp_map_init n) x = None"
    by (simp add: map_get_def mp_map_init_def tget_None null_elem_def)
qed

lemma init_fields [simp]:
  "alloc (mp_map_init n) = n" "used (mp_map_init n) = 0" "\<not> is_ordered (mp_map_init n)"
  "\<not> is_fixed (mp_map_init n)"
  by (simp_all add: mp_map_init_def)

lemma init_keys: "filled_keys (mp_map_init n) = {}"
  by (auto simp: filled_keys_def mp_map_init_def null_elem_def)

lemma rehash_ok:
  assumes wf: "map_wf ops m" "\<not> is_ordered m" "\<not> is_fixed m"
  shows "\<exists>m' c'. mp_map_rehash (Suc (Suc (Suc n))) ops m c = Some (m', c') \<and> map_wf ops m' \<and>
    \<not> is_ordered m' \<and> \<not> is_fixed m' \<and> alloc m < alloc m' \<and> used m' = used m \<and>
    filled_keys m' \<subseteq> filled_keys m \<and> (\<forall>y. map_get ops m' y = map_get ops m y)"
proof -
  let ?n = "get_hash_alloc_greater_or_equal_to (alloc m + 1)"
  let ?m = "m\<lparr>alloc := ?n, used := 0, all_keys_are_qstrs := True, table := replicate ?n null_elem\<rparr>"
  have n: "alloc m < ?n" using get_hash_alloc_ge [of "alloc m + 1"] by simp
  have m: "?m = mp_map_init ?n" using wf(2,3) by (cases m) (simp add: mp_map_init_def)
  have used: "filled_count (map_keys m) = used m" "no_duplicates ops (map_keys m)"
    using wf(1) by (simp_all add: map_wf_def)
  have used_le: "used m \<le> alloc m"
    using filled_count_le [of "map_keys m"] wf(1) by (auto simp: map_wf_def)
  have "\<exists>m' c'. map_reinsert (Suc (Suc n)) ops (table m) ?m c = Some (m', c') \<and> map_wf ops m' \<and>
    \<not> is_ordered m' \<and> \<not> is_fixed m' \<and> alloc m' = alloc ?m \<and>
    used m' = used ?m + filled_count (map_keys m) \<and>
    filled_keys m' \<subseteq> filled_keys ?m \<union> {k. Obj k \<in> set (map_keys m)} \<and>
    (\<forall>y. map_get ops m' y = (case map_get ops ?m y of None \<Rightarrow> tget ops (table m) y | Some v \<Rightarrow> Some v))"
    unfolding m using used(2) used_le n by (intro reinsert_ok) (simp_all add: init_wf used(1))
  then obtain m' c' where r: "map_reinsert (Suc (Suc n)) ops (table m) ?m c = Some (m', c')"
    "map_wf ops m'" "\<not> is_ordered m'" "\<not> is_fixed m'" "alloc m' = ?n" "used m' = used m"
    "filled_keys m' \<subseteq> filled_keys m" "\<And>y. map_get ops m' y = tget ops (table m) y"
    unfolding m using used(1) by (auto simp: init_wf init_keys filled_keys_def [of m])
  then show ?thesis using n
    by (intro exI [of _ m'] exI [of _ c']) (simp add: Let_def map_get_def del: map_reinsert.simps)
qed

subsection \<open>Ordered arrays\<close>

lemma find_elem_Some:
  "find_elem hit es = Some i \<Longrightarrow> i < length es \<and> (\<exists>k. ekey (es ! i) = Obj k \<and> hit k)"
  by (induction es arbitrary: i) (auto split: obj.splits if_splits)

lemma find_elem_None:
  "find_elem hit es = None \<Longrightarrow> e \<in> set es \<Longrightarrow> ekey e = Obj k \<Longrightarrow> \<not> hit k"
  by (induction es) (auto split: obj.splits if_splits)

lemma used_le_alloc: "map_wf ops m \<Longrightarrow> used m \<le> alloc m"
  using filled_count_le [of "map_keys m"] by (auto simp: map_wf_def)

lemma ordered_remove_nth:
  assumes "map_wf ops m" "i < used m" "j < alloc m"
  shows "table (ordered_remove m i) ! j =
    (if j = used m - 1 then \<lparr>ekey = MP_OBJ_NULL, evalue = evalue (table m ! i)\<rparr>
     else if i \<le> j \<and> j < used m then table m ! (j + 1) else table m ! j)"
  using assms used_le_alloc [OF assms(1)]
  by (auto simp: ordered_remove_def Let_def nth_list_update blit_simps map_wf_def)

lemma ordered_remove_spec:
  assumes wf: "map_wf ops m" "is_ordered m" and i: "i < used m" "ekey (table m ! i) = Obj k" "same ops k x"
  shows "lookup_spec ops m x MP_MAP_LOOKUP_REMOVE_IF_FOUND (ordered_remove m i) (Some (used m - 1))"
proof -
  let ?m = "ordered_remove m i"
  let ?f = "\<lambda>j. if j < i then j else j + 1"
  have len: "length (table m) = alloc m" "used m \<le> alloc m" "no_duplicates ops (map_keys m)"
    "compact (used m) (map_keys m)"
    using wf used_le_alloc by (auto simp: map_wf_def)
  have len': "length (table ?m) = alloc m" "alloc ?m = alloc m" "used ?m = used m - 1"
    using len i by (simp_all add: ordered_remove_def Let_def blit_simps)
  note nth = ordered_remove_nth [OF wf(1) i(1)]
  have kept: "table ?m ! j = table m ! ?f j" if "j < used m - 1" for j
    using that i len nth [of j] by auto
  have gone: "\<not> is_filled (ekey (table ?m ! j))" if "used m - 1 \<le> j" "j < alloc m" for j
    using that i len nth [of j] by (auto simp: compact_def)
  have filled: "is_filled (ekey (table ?m ! j))" if "j < used m - 1" for j
    using that kept [of j] compact_filled [OF len(4), of "?f j"] len(1,2)
    by (cases "j < i") auto
  have key_at: "j < used m - 1" if "j < alloc m" "ekey (table ?m ! j) = Obj a" for j a
    using that gone [of j] by (cases "j < used m - 1") auto
  have nd: "no_duplicates ops (map_keys ?m)"
  proof (rule no_duplicatesI)
    fix p q a b
    assume pq: "p < length (map_keys ?m)" "q < length (map_keys ?m)" "map_keys ?m ! p = Obj a"
      "map_keys ?m ! q = Obj b" "same ops b a"
    then have lt: "p < used m - 1" "q < used m - 1" using key_at len' by auto
    then have "?f p < length (map_keys m)" "?f q < length (map_keys m)" using len(1,2) by auto
    moreover have "map_keys m ! ?f p = Obj a" "map_keys m ! ?f q = Obj b"
      using pq kept lt len(1,2) len' by auto
    ultimately have "?f p = ?f q"
      using no_duplicatesD [OF len(3), of "?f p" "?f q" a b] pq(5) by blast
    then show "p = q" by (auto split: if_splits)
  qed
  have comp: "compact (used ?m) (map_keys ?m)"
    using filled gone len' by (auto simp: compact_def not_less [symmetric])
  have count: "filled_count (map_keys ?m) = used ?m"
    using compact_count [OF comp] len' len by simp
  have qstrs: "keys_are_qstrs ops (map_keys ?m)" if q: "keys_are_qstrs ops (map_keys m)"
    unfolding keys_are_qstrs_def list_all_length
  proof (intro allI impI)
    fix j
    assume j: "j < length (map_keys ?m)"
    show "case map_keys ?m ! j of Obj x \<Rightarrow> obj_is_qstr ops x | _ \<Rightarrow> True"
    proof (cases "j < used m - 1")
      case True
      then have "?f j < length (map_keys m)" using len(1,2) by auto
      moreover have "map_keys ?m ! j = map_keys m ! ?f j" using kept [OF True] True len len' by simp
      ultimately show ?thesis using q unfolding keys_are_qstrs_def list_all_length by metis
    next
      case False
      then have "\<not> is_filled (map_keys ?m ! j)" using gone [of j] j len' by simp
      then show ?thesis by (cases "map_keys ?m ! j") auto
    qed
  qed
  have wf': "map_wf ops ?m"
    unfolding map_wf_def using nd comp count qstrs wf len' len
    by (auto simp: map_wf_def ordered_remove_def Let_def)
  have other: "p \<noteq> i \<longleftrightarrow> \<not> same ops k y" if p: "p < alloc m" "holds_key ops y (ekey (table m ! p))" for p y
  proof -
    obtain b where b: "ekey (table m ! p) = Obj b" "same ops b y" using p(2) by (rule holds_keyE)
    have "p = i" if "same ops b k"
      using no_duplicatesD [OF len(3), of i p k b] that b i len p(1) by simp
    moreover have "same ops k y" if "p = i" using that b i(2) by simp
    moreover have "same ops b k \<longleftrightarrow> same ops k y"
      using b(2) by (blast intro: same_trans same_sym)
    ultimately show ?thesis by blast
  qed
  have bound: "(\<exists>j<alloc m. holds_key ops y (ekey (table ?m ! j)) \<and> evalue (table ?m ! j) = v) \<longleftrightarrow>
      (\<exists>p<alloc m. holds_key ops y (ekey (table m ! p)) \<and> evalue (table m ! p) = v \<and> p \<noteq> i)"
    (is "?l \<longleftrightarrow> ?r") for y v
  proof
    assume ?l
    then obtain j where j: "j < alloc m" "holds_key ops y (ekey (table ?m ! j))" "evalue (table ?m ! j) = v"
      by blast
    then have "j < used m - 1" using key_at [of j] by (auto elim: holds_keyE)
    then show ?r using j kept [of j] len(2) by (intro exI [of _ "?f j"]) auto
  next
    assume ?r
    then obtain p where p: "p < alloc m" "holds_key ops y (ekey (table m ! p))" "evalue (table m ! p) = v" "p \<noteq> i"
      by blast
    then have "p < used m" using compact_bound [OF len(4), of p] len(1) by (auto elim!: holds_keyE)
    then show ?l using p kept [of "if p < i then p else p - 1"] len(2) i(1)
      by (intro exI [of _ "if p < i then p else p - 1"]) (auto split: if_splits)
  qed
  have get: "map_get ops ?m y = (if same ops k y then None else map_get ops m y)" for y
  proof -
    have "map_get ops ?m y = Some v \<longleftrightarrow> map_get ops m y = Some v \<and> \<not> same ops k y" for v
    proof -
      have "(\<exists>p<alloc m. holds_key ops y (ekey (table m ! p)) \<and> evalue (table m ! p) = v \<and> p \<noteq> i) \<longleftrightarrow>
          (\<exists>p<alloc m. holds_key ops y (ekey (table m ! p)) \<and> evalue (table m ! p) = v) \<and> \<not> same ops k y"
        using other [of _ y] by blast
      then show ?thesis
        using tget_Some [OF nd, of y v] tget_Some [OF len(3), of y v] bound [of y v]
        unfolding map_get_def len(1) len'(1) by blast
    qed
    then show ?thesis by (intro option_eqI) simp
  qed
  have "same ops k y = same ops x y" for y using i(3) by (blast intro: same_trans same_sym)
  then show ?thesis
    using wf' get map_get_hit [OF wf(1) _ i(2,3)] i len len' nth [of "used m - 1"]
    by (auto simp: lookup_spec_def ordered_remove_def Let_def)
qed

lemma find_append_none: "\<forall>y\<in>set ys. \<not> P y \<Longrightarrow> find P (xs @ ys) = find P xs"
  by (induction xs) (simp_all add: find_None_iff)

lemma ordered_grow_ok:
  assumes "map_wf ops m" "is_ordered m"
  shows "map_wf ops (ordered_grow m)" "used (ordered_grow m) < alloc (ordered_grow m)"
    "map_get ops (ordered_grow m) y = map_get ops m y"
    "take (used m) (table (ordered_grow m)) = take (used m) (table m)"
proof -
  have keys: "map_keys (m\<lparr>alloc := alloc m + 4, table := table m @ replicate 4 null_elem\<rparr>) =
      map_keys m @ replicate 4 MP_OBJ_NULL"
    by (simp add: null_elem_def)
  have len: "length (map_keys m) = alloc m" "used m \<le> alloc m" "length (table m) = alloc m"
    using assms used_le_alloc by (auto simp: map_wf_def)
  have nd: "no_duplicates ops (map_keys m @ replicate 4 MP_OBJ_NULL)" if "no_duplicates ops (map_keys m)"
  proof (rule no_duplicatesI)
    fix i j a b
    assume ij: "(map_keys m @ replicate 4 MP_OBJ_NULL) ! i = Obj a"
      "(map_keys m @ replicate 4 MP_OBJ_NULL) ! j = Obj b" "same ops b a"
      "i < length (map_keys m @ replicate 4 MP_OBJ_NULL)" "j < length (map_keys m @ replicate 4 MP_OBJ_NULL)"
    then have "i < length (map_keys m)" "j < length (map_keys m)"
      by (auto simp: nth_append split: if_splits)
    then show "i = j" using no_duplicatesD [OF that, of i j a b] ij by (simp add: nth_append)
  qed
  have comp: "compact (used m) (map_keys m @ replicate 4 MP_OBJ_NULL)" if "compact (used m) (map_keys m)"
    unfolding compact_def
  proof (intro allI impI)
    fix i
    assume "i < length (map_keys m @ replicate 4 MP_OBJ_NULL)"
    then show "is_filled ((map_keys m @ replicate 4 MP_OBJ_NULL) ! i) \<longleftrightarrow> i < used m"
      using that len by (cases "i < length (map_keys m)") (auto simp: compact_def nth_append)
  qed
  have q: "keys_are_qstrs ops (map_keys m @ replicate 4 MP_OBJ_NULL)" if "keys_are_qstrs ops (map_keys m)"
    using that by (simp add: keys_are_qstrs_def list_all_iff)
  have count: "filled_count (map_keys m @ replicate 4 MP_OBJ_NULL) = filled_count (map_keys m)"
    by (simp add: filled_count_def)
  show "map_wf ops (ordered_grow m)"
    using assms nd comp q count len unfolding ordered_grow_def map_wf_def keys
    by (auto simp: null_elem_def)
  show "used (ordered_grow m) < alloc (ordered_grow m)" using len by (simp add: ordered_grow_def)
  show "map_get ops (ordered_grow m) y = map_get ops m y"
    by (simp add: ordered_grow_def map_get_def tget_def null_elem_def find_append_none)
  show "take (used m) (table (ordered_grow m)) = take (used m) (table m)"
    using len by (simp add: ordered_grow_def)
qed

lemma compact_no_duplicates_add:
  assumes wf: "map_wf ops m" and new: "map_get ops m x = None" and p: "p < alloc m"
  shows "no_duplicates ops ((map_keys m)[p := Obj x])"
proof (rule no_duplicatesI)
  have no: "\<not> same ops a x" if "j < length (table m)" "map_keys m ! j = Obj a" for j a
    using new filled_keys_nth [OF that] by (simp add: map_get_None [OF wf])
  fix i j a b
  assume "i < length ((map_keys m)[p := Obj x])" "j < length ((map_keys m)[p := Obj x])"
    "(map_keys m)[p := Obj x] ! i = Obj a" "(map_keys m)[p := Obj x] ! j = Obj b" "same ops b a"
  then show "i = j"
    using no [of i a] no [of j b] no_duplicatesD [of ops "map_keys m" i j a b] wf same_sym [of b a]
    by (cases "i = p"; cases "j = p") (auto simp: map_wf_def)
qed

lemma ordered_add_spec:
  assumes wf: "map_wf ops m" "is_ordered m" and new: "map_get ops m x = None"
  shows "lookup_spec ops m x MP_MAP_LOOKUP_ADD_IF_NOT_FOUND
    (add_elem ops (ordered_grow m) (used (ordered_grow m)) x) (Some (used (ordered_grow m)))"
proof -
  let ?m = "ordered_grow m"
  note g = ordered_grow_ok [OF wf]
  have o: "is_ordered ?m" "used ?m = used m" "is_fixed ?m = is_fixed m"
    using wf by (auto simp: ordered_grow_def)
  have "\<not> is_filled (ekey (table ?m ! used ?m))"
    using g(1,2) o by (auto simp: map_wf_def compact_def)
  then have "lookup_spec ops ?m x MP_MAP_LOOKUP_ADD_IF_NOT_FOUND (add_elem ops ?m (used ?m) x) (Some (used ?m))"
    using g o new compact_no_duplicates_add [OF g(1), of x "used ?m"]
    by (intro add_elem_spec) auto
  then show ?thesis using g(3) o wf by (simp add: lookup_spec_def)
qed

lemma ordered_spec:
  assumes wf: "map_wf ops m" "is_ordered m" and hit: "matcher_ok ptrs m x"
    and r: "ordered_lookup ops ptrs m c x kind = (m', c', r)"
  shows "lookup_spec ops m x kind m' r"
proof (cases "find_elem (key_hit ops ptrs x) (take (used m) (table m))")
  case (Some i)
  have le: "used m \<le> alloc m" "length (table m) = alloc m"
    using wf used_le_alloc by (auto simp: map_wf_def)
  obtain k where k: "i < used m" "ekey (table m ! i) = Obj k" "key_hit ops ptrs x k"
    using find_elem_Some [OF Some] le by auto
  then have s: "same ops k x" using hit filled_keys_nth [of i m k] le by (simp add: matcher_ok_def)
  show ?thesis
  proof (cases "kind = MP_MAP_LOOKUP_REMOVE_IF_FOUND")
    case True
    then show ?thesis
      using ordered_remove_spec [OF wf k(1,2) s] r Some
      by (auto simp: ordered_lookup_def Let_def ordered_remove_def)
  next
    case False
    then show ?thesis
      using found_spec [OF wf(1) _ k(2) s] r Some k le by (auto simp: ordered_lookup_def)
  qed
next
  case None
  have "\<not> same ops k x" if k: "k \<in> filled_keys m" for k
  proof -
    obtain p where p: "p < length (table m)" "ekey (table m ! p) = Obj k"
      using k unfolding filled_keys_def by (auto simp: in_set_conv_nth)
    then have "p < used m"
      using wf compact_bound [of "used m" "map_keys m" p k] by (auto simp: map_wf_def)
    then have "table m ! p \<in> set (take (used m) (table m))"
      using p by (auto simp: in_set_conv_nth)
    then show ?thesis using find_elem_None [OF None] p(2) hit k by (auto simp: matcher_ok_def)
  qed
  then have new: "map_get ops m x = None" by (simp add: map_get_None [OF wf(1)])
  show ?thesis
    using ordered_add_spec [OF wf new] absent_spec [OF wf(1) new] r None
    by (auto simp: ordered_lookup_def Let_def split: if_splits)
qed

subsection \<open>Every lookup\<close>

lemma add_after_rehash:
  assumes wf: "map_wf ops m" "\<not> is_ordered m" "\<not> is_fixed m" and hit: "matcher_ok ptrs m x"
  shows "\<exists>m1 c1 m' c' r. mp_map_rehash (Suc (Suc (Suc n))) ops m c = Some (m1, c1) \<and>
    map_search (Suc (Suc (Suc n))) ops ptrs m1 c1 x MP_MAP_LOOKUP_ADD_IF_NOT_FOUND = Some (m', c', r) \<and>
    lookup_spec ops m x MP_MAP_LOOKUP_ADD_IF_NOT_FOUND m' r"
proof -
  obtain m1 c1 where r: "mp_map_rehash (Suc (Suc (Suc n))) ops m c = Some (m1, c1)" "map_wf ops m1"
    "\<not> is_ordered m1" "\<not> is_fixed m1" "alloc m < alloc m1" "used m1 = used m"
    "filled_keys m1 \<subseteq> filled_keys m" "\<And>y. map_get ops m1 y = map_get ops m y"
    using rehash_ok [OF wf] by blast
  have "\<exists>m' c' r. map_search (Suc (Suc (Suc n))) ops ptrs m1 c1 x MP_MAP_LOOKUP_ADD_IF_NOT_FOUND = Some (m', c', r) \<and>
    lookup_spec ops m1 x MP_MAP_LOOKUP_ADD_IF_NOT_FOUND m' r \<and> alloc m' = alloc m1 \<and>
    filled_keys m' \<subseteq> insert x (filled_keys m1)"
    using r hit used_le_alloc [OF wf(1)] by (intro search_ok) (auto simp: matcher_ok_def)
  then show ?thesis using r wf by (auto simp: lookup_spec_def)
qed

lemma search_any:
  assumes wf: "map_wf ops m" "\<not> is_ordered m" "0 < alloc m" and hit: "matcher_ok ptrs m x"
    and fixed: "is_fixed m \<Longrightarrow> kind = MP_MAP_LOOKUP"
  shows "\<exists>m' c' r. map_search (Suc (Suc (Suc (Suc n)))) ops ptrs m c x kind = Some (m', c', r) \<and>
    lookup_spec ops m x kind m' r"
proof (cases "kind = MP_MAP_LOOKUP_ADD_IF_NOT_FOUND \<longrightarrow> used m < alloc m \<or> map_get ops m x \<noteq> None")
  case True
  then show ?thesis using search_ok [OF wf hit] by blast
next
  case False
  then have full: "kind = MP_MAP_LOOKUP_ADD_IF_NOT_FOUND" "used m = alloc m" "map_get ops m x = None"
    using used_le_alloc [OF wf(1)] by auto
  have len: "length (table m) = alloc m" "filled_count (map_keys m) = length (map_keys m)"
    using wf full by (auto simp: map_wf_def)
  then have ne: "map_keys m \<noteq> []" using wf by auto
  have filled: "is_filled (map_keys m ! p)" if "p < length (map_keys m)" for p
    using full_all_filled [OF len(2) that] .
  obtain r where r: "probe (key_hit ops ptrs x) (map_keys m) (obj_hash ops x) = Some r"
    "probe_result (key_hit ops ptrs x) (map_keys m) (obj_hash ops x mod length (map_keys m)) r"
    using probe_ends [OF ne] by blast
  have "r = Wrapped None"
  proof (cases r)
    case (Found p)
    then obtain k where "p < length (table m)" "map_keys m ! p = Obj k" "key_hit ops ptrs x k"
      using r(2) by auto
    then show ?thesis
      using full(3) hit filled_keys_nth [of p m k] by (auto simp: map_get_None [OF wf(1)] matcher_ok_def)
  next
    case (Empty_Slot p avail)
    then show ?thesis using insert_slot [OF ne r(2)] filled by (cases avail) auto
  next
    case (Wrapped avail)
    then show ?thesis using insert_slot [OF ne r(2)] filled by (cases avail) auto
  qed
  moreover have "\<not> is_fixed m" using fixed full(1) by auto
  ultimately show ?thesis
    using add_after_rehash [OF wf(1,2) _ hit, of n c] full r(1)
    unfolding map_search.simps(2) [of "Suc (Suc (Suc n))"]
    by (auto simp del: mp_map_rehash.simps map_search.simps)
qed

lemma lookup_ok:
  assumes wf: "map_wf ops m" and fixed: "is_fixed m \<Longrightarrow> kind = MP_MAP_LOOKUP" and n: "map_fuel \<le> n"
  shows "\<exists>m' c' r. mp_map_lookup n ops m c x kind = Some (m', c', r) \<and> lookup_spec ops m x kind m' r"
proof (cases "kind \<noteq> MP_MAP_LOOKUP_REMOVE_IF_FOUND \<and> alloc m \<noteq> 0 \<and>
    ekey (table m ! map_cache_get ops c m x) = Obj x")
  case True
  then show ?thesis using cache_hit [OF wf] fixed n by (cases n) auto
next
  case miss: False
  have "n = Suc (Suc (Suc (Suc (Suc (n - 5)))))" using n by simp
  then obtain k where k: "n = Suc (Suc (Suc (Suc (Suc k))))" by blast
  show ?thesis
  proof (cases "compare_only_ptrs ops m x kind")
    case None
    then show ?thesis
      using miss fixed k absent_spec [OF wf compare_None [OF wf None] compare_None_not_add [OF None]]
      by auto
  next
    case (Some ptrs)
    note hit = compare_Some [OF wf Some]
    consider "is_ordered m" | "\<not> is_ordered m" "0 < alloc m"
      | "\<not> is_ordered m" "alloc m = 0" "kind = MP_MAP_LOOKUP_ADD_IF_NOT_FOUND"
      | "\<not> is_ordered m" "alloc m = 0" "kind \<noteq> MP_MAP_LOOKUP_ADD_IF_NOT_FOUND"
      by blast
    then show ?thesis
    proof cases
      case 1
      obtain m' c' r where "ordered_lookup ops ptrs m c x kind = (m', c', r)"
        by (cases "ordered_lookup ops ptrs m c x kind")
      then show ?thesis using ordered_spec [OF wf 1 hit] miss fixed Some 1 k by auto
    next
      case 2
      then show ?thesis
        using search_any [OF wf 2 hit fixed, of k c] miss fixed Some k by (auto simp del: map_search.simps)
    next
      case 3
      then show ?thesis
        using add_after_rehash [OF wf 3(1) _ hit, of "Suc k" c] miss fixed Some k
        by (auto simp del: map_search.simps mp_map_rehash.simps)
    next
      case 4
      then have "map_get ops m x = None" using wf by (auto simp: map_get_def tget_def map_wf_def)
      then show ?thesis using absent_spec [OF wf] 4 miss fixed Some k by auto
    qed
  qed
qed

subsection \<open>Order of an ordered array\<close>

definition key_order :: "'o mp_map \<Rightarrow> 'o obj list" where
  "key_order m = map ekey (take (used m) (table m))"

definition order_after :: "'o mp_map \<Rightarrow> 'o \<Rightarrow> lookup_kind \<Rightarrow> 'o obj list" where
  "order_after m x kind =
    (case kind of
       MP_MAP_LOOKUP_ADD_IF_NOT_FOUND \<Rightarrow>
         if map_get ops m x = None then key_order m @ [Obj x] else key_order m
     | MP_MAP_LOOKUP_REMOVE_IF_FOUND \<Rightarrow> filter (\<lambda>k. \<not> holds_key ops x k) (key_order m)
     | _ \<Rightarrow> key_order m)"

lemma filter_all_but:
  assumes "i < length xs" "\<And>j. j < length xs \<Longrightarrow> P (xs ! j) \<longleftrightarrow> j \<noteq> i"
  shows "filter P xs = take i xs @ drop (i + 1) xs"
proof -
  have "filter P (take i xs) = take i xs" "filter P (drop (i + 1) xs) = drop (i + 1) xs"
    using assms by (auto simp: filter_id_conv in_set_conv_nth)
  moreover have "\<not> P (xs ! i)" using assms by blast
  moreover have "filter P xs = filter P (take i xs @ xs ! i # drop (Suc i) xs)"
    using assms(1) by (simp add: id_take_nth_drop [symmetric])
  ultimately show ?thesis by simp
qed

lemma order_unchanged:
  assumes "map_wf ops m" "kind = MP_MAP_LOOKUP_ADD_IF_NOT_FOUND \<Longrightarrow> map_get ops m x \<noteq> None"
    and "kind = MP_MAP_LOOKUP_REMOVE_IF_FOUND \<Longrightarrow> map_get ops m x = None"
  shows "order_after m x kind = key_order m"
proof -
  have "filter (\<lambda>k. \<not> holds_key ops x k) (key_order m) = key_order m" if "map_get ops m x = None"
  proof -
    have "\<not> holds_key ops x (ekey e)" if "e \<in> set (table m)" for e
      using that \<open>map_get ops m x = None\<close> by (auto simp: map_get_def tget_None in_set_conv_nth)
    then show ?thesis
      by (auto simp: key_order_def filter_id_conv dest: in_set_takeD)
  qed
  then show ?thesis using assms by (cases kind) (auto simp: order_after_def)
qed

lemma key_order_remove:
  assumes wf: "map_wf ops m" "is_ordered m" and i: "i < used m" "ekey (table m ! i) = Obj k" "same ops k x"
  shows "key_order (ordered_remove m i) = filter (\<lambda>k. \<not> holds_key ops x k) (key_order m)"
proof -
  have len: "length (table m) = alloc m" "used m \<le> alloc m" "no_duplicates ops (map_keys m)"
    using wf used_le_alloc by (auto simp: map_wf_def)
  have "\<not> holds_key ops x (key_order m ! j) \<longleftrightarrow> j \<noteq> i" if j: "j < length (key_order m)" for j
  proof
    assume "j \<noteq> i"
    show "\<not> holds_key ops x (key_order m ! j)"
    proof
      assume "holds_key ops x (key_order m ! j)"
      then obtain b where b: "ekey (table m ! j) = Obj b" "same ops b x"
        using j by (auto simp: key_order_def elim: holds_keyE)
      moreover have "same ops b k" using b(2) i(3) same_trans same_sym by blast
      ultimately have "i = j"
        using no_duplicatesD [OF len(3), of i j k b] i len j by (auto simp: key_order_def)
      then show False using \<open>j \<noteq> i\<close> by simp
    qed
  next
    assume "\<not> holds_key ops x (key_order m ! j)"
    then show "j \<noteq> i" using i j by (auto simp: key_order_def)
  qed
  then have "filter (\<lambda>k. \<not> holds_key ops x k) (key_order m) =
      take i (key_order m) @ drop (i + 1) (key_order m)"
    using i len by (intro filter_all_but) (auto simp: key_order_def)
  moreover have "take (used m - 1) (table (ordered_remove m i)) =
      take i (table m) @ drop (i + 1) (take (used m) (table m))"
    using i len by (simp add: ordered_remove_def Let_def blit_def)
  ultimately show ?thesis
    using i len by (simp add: key_order_def ordered_remove_def Let_def take_map drop_map take_take min_def)
qed

lemma ordered_order:
  assumes wf: "map_wf ops m" "is_ordered m"
    and fixed: "is_fixed m \<Longrightarrow> kind = MP_MAP_LOOKUP"
    and r: "mp_map_lookup n ops m c x kind = Some (m', c', r)"
  shows "key_order m' = order_after m x kind"
proof -
  obtain k where n: "n = Suc k" using r by (cases n) auto
  have le: "used m \<le> alloc m" "length (table m) = alloc m"
    using wf used_le_alloc by (auto simp: map_wf_def)
  consider (cache) "kind \<noteq> MP_MAP_LOOKUP_REMOVE_IF_FOUND" "alloc m \<noteq> 0"
      "ekey (table m ! map_cache_get ops c m x) = Obj x" "m' = m"
    | (none) "compare_only_ptrs ops m x kind = None" "m' = m"
    | (some) ptrs where "compare_only_ptrs ops m x kind = Some ptrs"
      "ordered_lookup ops ptrs m c x kind = (m', c', r)"
    using r n wf(2) fixed by (auto split: if_splits option.splits)
  then show ?thesis
  proof cases
    case cache
    have "map_get ops m x \<noteq> None"
      using map_get_hit [OF wf(1) _ cache(3), of x] cache(2) by (simp add: map_cache_get_def)
    then show ?thesis using order_unchanged [OF wf(1), of kind x] cache by simp
  next
    case none
    then show ?thesis
      using order_unchanged [OF wf(1), of kind x] compare_None [OF wf(1) none(1)]
        compare_None_not_add [OF none(1)] by simp
  next
    case some
    note hit = compare_Some [OF wf(1) some(1)]
    note spec = ordered_spec [OF wf hit some(2)]
    show ?thesis
    proof (cases "find_elem (key_hit ops ptrs x) (take (used m) (table m))")
      case (Some i)
      obtain l where l: "i < used m" "ekey (table m ! i) = Obj l" "key_hit ops ptrs x l"
        using find_elem_Some [OF Some] le by auto
      then have s: "same ops l x" using hit filled_keys_nth [of i m l] le by (simp add: matcher_ok_def)
      then have "map_get ops m x \<noteq> None" using map_get_hit [OF wf(1) _ l(2) s] l(1) le by simp
      note present = this
      show ?thesis
      proof (cases "kind = MP_MAP_LOOKUP_REMOVE_IF_FOUND")
        case True
        then show ?thesis
          using key_order_remove [OF wf l(1,2) s] some(2) Some
          by (auto simp: ordered_lookup_def Let_def order_after_def)
      next
        case False
        then show ?thesis
          using present order_unchanged [OF wf(1), of kind x] some(2) Some
          by (auto simp: ordered_lookup_def)
      qed
    next
      case None
      have absent: "map_get ops m x = None"
      proof (rule ccontr)
        assume "map_get ops m x \<noteq> None"
        then obtain p l where p: "p < length (table m)" "ekey (table m ! p) = Obj l" "same ops l x"
          by (auto simp: map_get_def tget_None elim: holds_keyE)
        then have "p < used m"
          using wf compact_bound [of "used m" "map_keys m" p l] by (auto simp: map_wf_def)
        then have "table m ! p \<in> set (take (used m) (table m))" using p(1) by (auto simp: in_set_conv_nth)
        then show False
          using find_elem_None [OF None _ p(2)] hit p filled_keys_nth [of p m l] by (simp add: matcher_ok_def)
      qed
      show ?thesis
      proof (cases "kind = MP_MAP_LOOKUP_ADD_IF_NOT_FOUND")
        case True
        let ?g = "ordered_grow m"
        have g: "used ?g = used m" "length (table ?g) = alloc ?g"
          using ordered_grow_ok(1) [OF wf] by (auto simp: ordered_grow_def map_wf_def)
        have "take (Suc (used m)) ((table ?g)[used m := \<lparr>ekey = Obj x, evalue = MP_OBJ_NULL\<rparr>]) =
            take (used m) (table m) @ [\<lparr>ekey = Obj x, evalue = MP_OBJ_NULL\<rparr>]"
          using ordered_grow_ok(2,4) [OF wf] g by (simp add: take_Suc_conv_app_nth)
        then show ?thesis
          using True None some(2) absent g
          by (auto simp: ordered_lookup_def Let_def key_order_def order_after_def add_elem_def)
      next
        case False
        then show ?thesis
          using None some(2) absent order_unchanged [OF wf(1), of kind x] by (auto simp: ordered_lookup_def)
      qed
    qed
  qed
qed

end

section \<open>Properties\<close>

text \<open>
  C4. Every lookup returns.  On a well-formed map, for any contents of the shared lookup
  cache, a lookup finds exactly the value stored under an equal key; an insertion keeps every
  binding and adds the key, with a null value for the caller to fill, when it was absent; a
  removal takes away exactly that key and returns a slot with its value.  The map stays
  well formed, through deleted slots, wrap-around, growth and rehashing, and so does an
  ordered array.
\<close>

theorem mp_map_lookup_correct:
  assumes "key_ops ops" "map_wf ops m" "is_fixed m \<Longrightarrow> kind = MP_MAP_LOOKUP" "5 \<le> n"
  shows "\<exists>m' c' r. mp_map_lookup n ops m c x kind = Some (m', c', r) \<and> lookup_spec ops m x kind m' r"
  using key_ops.lookup_ok [OF assms] .

theorem mp_map_lookup_correct_witness:
  "\<exists>m' c' r. mp_map_lookup 5 (pyobj_ops (\<lambda>_. 0)) (mp_map_init 2) (replicate 128 0) (Small_Int 3)
       MP_MAP_LOOKUP_ADD_IF_NOT_FOUND = Some (m', c', r) \<and>
     lookup_spec (pyobj_ops (\<lambda>_. 0)) (mp_map_init 2) (Small_Int 3) MP_MAP_LOOKUP_ADD_IF_NOT_FOUND m' r"
  by (rule mp_map_lookup_correct) (simp_all add: py.key_ops_axioms py.init_wf)

text \<open>
  Rehashing terminates, gives a strictly larger well-formed table, and keeps every
  binding and the number of entries.
\<close>

theorem mp_map_rehash_preserves:
  assumes "key_ops ops" "map_wf ops m" "\<not> is_ordered m" "\<not> is_fixed m"
  shows "\<exists>m' c'. mp_map_rehash (n + 3) ops m c = Some (m', c') \<and> map_wf ops m' \<and>
    alloc m < alloc m' \<and> used m' = used m \<and> (\<forall>y. map_get ops m' y = map_get ops m y)"
  using key_ops.rehash_ok [OF assms, of n c] by (auto simp: numeral_3_eq_3 simp del: mp_map_rehash.simps)

theorem mp_map_rehash_preserves_witness:
  "\<exists>m' c'. mp_map_rehash (0 + 3) (pyobj_ops (\<lambda>_. 0)) (mp_map_init 4) [] = Some (m', c') \<and>
    map_wf (pyobj_ops (\<lambda>_. 0)) m' \<and> alloc (mp_map_init 4 :: pyobj mp_map) < alloc m' \<and>
    used m' = used (mp_map_init 4 :: pyobj mp_map) \<and>
    (\<forall>y. map_get (pyobj_ops (\<lambda>_. 0)) m' y = map_get (pyobj_ops (\<lambda>_. 0)) (mp_map_init 4) y)"
  by (rule mp_map_rehash_preserves)
    (simp_all add: py.key_ops_axioms py.init_wf py.init_fields)


definition example_ordered :: "pyobj mp_map" where
  "example_ordered = \<lparr>all_keys_are_qstrs = False, is_fixed = False, is_ordered = True, used = 3, alloc = 4,
     table = [\<lparr>ekey = Obj (Small_Int 7), evalue = Obj (Small_Int 70)\<rparr>,
              \<lparr>ekey = Obj (Qstr [97]), evalue = Obj (Small_Int 71)\<rparr>,
              \<lparr>ekey = Obj (Small_Int 5), evalue = Obj (Small_Int 72)\<rparr>, null_elem]\<rparr>"

lemma example_ordered_wf: "map_wf (pyobj_ops (\<lambda>_. 0)) example_ordered"
  by (simp add: map_wf_def example_ordered_def compact_def no_duplicates_def filled_count_def
      pyobj_ops_def same_def mp_obj_equal_def null_elem_def All_less_Suc numeral_eq_Suc)

lemma example_ordered_remove:
  "mp_map_lookup (Suc 4) (pyobj_ops (\<lambda>_. 0)) example_ordered (replicate 128 0) (Str 9 False [97])
     MP_MAP_LOOKUP_REMOVE_IF_FOUND =
   Some (\<lparr>all_keys_are_qstrs = False, is_fixed = False, is_ordered = True, used = 2, alloc = 4,
     table = [\<lparr>ekey = Obj (Small_Int 7), evalue = Obj (Small_Int 70)\<rparr>,
              \<lparr>ekey = Obj (Small_Int 5), evalue = Obj (Small_Int 72)\<rparr>,
              \<lparr>ekey = MP_OBJ_NULL, evalue = Obj (Small_Int 71)\<rparr>, null_elem]\<rparr>,
     (replicate 128 0)[0 := 2], Some 2)"
  unfolding example_ordered_def mp_map_lookup.simps
  by (simp add: compare_only_ptrs_def ordered_lookup_def ordered_remove_def key_hit_def blit_def
      map_cache_set_def map_cache_offset_def pyobj_ops_def mp_obj_equal_def mp_obj_str_equal_def Let_def)


end
