(* ===== verification/Dict.thy ===== *)
theory Dict
  imports Mp_Map
begin

text \<open>
  The dictionary type of \<^verbatim>\<open>py/objdict.c\<close> on top of the map: item access, \<^verbatim>\<open>get\<close>,
  \<^verbatim>\<open>pop\<close>, \<^verbatim>\<open>setdefault\<close>, \<^verbatim>\<open>popitem\<close>, \<^verbatim>\<open>update\<close>, \<^verbatim>\<open>fromkeys\<close>, \<^verbatim>\<open>copy\<close>,
  comparison, union and iteration.  The state of an operation is the map of the dictionary
  and the shared lookup cache; a Python exception is a value, and \<open>None\<close> an operation that
  does not return.
\<close>

section \<open>Model\<close>

datatype 'o dict_error =
    Key_Error 'o
  | Key_Error_Empty
  | Type_Error_Fixed
  | Value_Error_Length

type_synonym 'o dict_state = "'o mp_map \<times> map_cache"

type_synonym ('o, 'a) dict_result = "('o dict_state \<times> ('o dict_error + 'a)) option"

subsection \<open>Iteration\<close>

definition dict_iter_next :: "'o mp_map \<Rightarrow> nat \<Rightarrow> (nat \<times> nat) option" where
  "dict_iter_next m cur =
    (case find (\<lambda>i. is_filled (ekey (table m ! i))) [cur..<alloc m] of
       Some i \<Rightarrow> Some (i, i + 1)
     | None \<Rightarrow> None)"

lemma dict_iter_next_Some:
  "dict_iter_next m cur = Some (i, cur') \<Longrightarrow> cur \<le> i \<and> i < alloc m \<and> cur' = Suc i"
  by (auto simp: dict_iter_next_def find_Some_iff split: option.splits)

text \<open>The loop \<^verbatim>\<open>while ((next = dict_iter_next(self, &cur)) != NULL)\<close>.\<close>

function dict_items_from :: "'o mp_map \<Rightarrow> nat \<Rightarrow> 'o mp_map_elem list" where
  "dict_items_from m cur =
    (case dict_iter_next m cur of
       None \<Rightarrow> []
     | Some (i, cur') \<Rightarrow> table m ! i # dict_items_from m cur')"
  by auto
termination
  by (relation "measure (\<lambda>(m, cur). alloc m - cur)") (auto dest: dict_iter_next_Some)

declare dict_items_from.simps [simp del]

datatype view_kind = MP_DICT_VIEW_ITEMS | MP_DICT_VIEW_KEYS | MP_DICT_VIEW_VALUES

definition dict_view_it_iternext ::
  "view_kind \<Rightarrow> 'o mp_map \<Rightarrow> nat \<Rightarrow> ('o obj list \<times> nat) option" where
  "dict_view_it_iternext kind m cur =
    (case dict_iter_next m cur of
       None \<Rightarrow> None
     | Some (i, cur') \<Rightarrow>
         Some (case kind of
                 MP_DICT_VIEW_ITEMS \<Rightarrow> [ekey (table m ! i), evalue (table m ! i)]
               | MP_DICT_VIEW_KEYS \<Rightarrow> [ekey (table m ! i)]
               | MP_DICT_VIEW_VALUES \<Rightarrow> [evalue (table m ! i)], cur'))"

subsection \<open>Item access\<close>

definition mp_obj_dict_len :: "'o mp_map \<Rightarrow> nat" where
  "mp_obj_dict_len m = used m"

text \<open>The assignment \<^verbatim>\<open>mp_map_lookup(map, key, MP_MAP_LOOKUP_ADD_IF_NOT_FOUND)->value = value\<close>.\<close>

definition map_put :: "'o obj_ops \<Rightarrow> 'o dict_state \<Rightarrow> 'o \<Rightarrow> 'o obj \<Rightarrow> 'o dict_state option" where
  "map_put ops d key v =
    (case mp_map_lookup map_fuel ops (fst d) (snd d) key MP_MAP_LOOKUP_ADD_IF_NOT_FOUND of
       Some (m, c, Some p) \<Rightarrow> Some (set_value m p v, c)
     | _ \<Rightarrow> None)"

definition mp_obj_dict_get :: "'o obj_ops \<Rightarrow> 'o dict_state \<Rightarrow> 'o \<Rightarrow> ('o, 'o obj) dict_result" where
  "mp_obj_dict_get ops d index =
    (case mp_map_lookup map_fuel ops (fst d) (snd d) index MP_MAP_LOOKUP of
       None \<Rightarrow> None
     | Some (m, c, None) \<Rightarrow> Some ((m, c), Inl (Key_Error index))
     | Some (m, c, Some p) \<Rightarrow> Some ((m, c), Inr (evalue (table m ! p))))"

definition dict_contains :: "'o obj_ops \<Rightarrow> 'o dict_state \<Rightarrow> 'o \<Rightarrow> ('o, bool) dict_result" where
  "dict_contains ops d x =
    (case mp_map_lookup map_fuel ops (fst d) (snd d) x MP_MAP_LOOKUP of
       None \<Rightarrow> None
     | Some (m, c, r) \<Rightarrow> Some ((m, c), Inr (r \<noteq> None)))"

definition mp_obj_dict_store ::
  "'o obj_ops \<Rightarrow> 'o dict_state \<Rightarrow> 'o \<Rightarrow> 'o obj \<Rightarrow> ('o, unit) dict_result" where
  "mp_obj_dict_store ops d key v =
    (if is_fixed (fst d) then Some (d, Inl Type_Error_Fixed)
     else case map_put ops d key v of
         None \<Rightarrow> None
       | Some d' \<Rightarrow> Some (d', Inr ()))"

text \<open>\<open>none\<close> is the object \<^verbatim>\<open>None\<close>; the default is the optional third argument.\<close>

definition dict_get_helper ::
  "'o obj_ops \<Rightarrow> 'o \<Rightarrow> 'o dict_state \<Rightarrow> 'o \<Rightarrow> 'o obj option \<Rightarrow> lookup_kind \<Rightarrow> ('o, 'o obj) dict_result" where
  "dict_get_helper ops none d key dflt kind =
    (if kind \<noteq> MP_MAP_LOOKUP \<and> is_fixed (fst d) then Some (d, Inl Type_Error_Fixed)
     else case mp_map_lookup map_fuel ops (fst d) (snd d) key kind of
         None \<Rightarrow> None
       | Some (m, c, elem) \<Rightarrow>
           if (case elem of None \<Rightarrow> True | Some p \<Rightarrow> evalue (table m ! p) = MP_OBJ_NULL) then
             if dflt = None \<and> kind = MP_MAP_LOOKUP_REMOVE_IF_FOUND
             then Some ((m, c), Inl (Key_Error key))
             else
               let v = (case dflt of None \<Rightarrow> Obj none | Some v \<Rightarrow> v)
               in if kind = MP_MAP_LOOKUP_ADD_IF_NOT_FOUND
                  then (case elem of None \<Rightarrow> None | Some p \<Rightarrow> Some ((set_value m p v, c), Inr v))
                  else Some ((m, c), Inr v)
           else
             (case elem of
                None \<Rightarrow> None
              | Some p \<Rightarrow>
                  Some ((if kind = MP_MAP_LOOKUP_REMOVE_IF_FOUND then set_value m p MP_OBJ_NULL else m, c),
                        Inr (evalue (table m ! p)))))"

definition dict_get ::
  "'o obj_ops \<Rightarrow> 'o \<Rightarrow> 'o dict_state \<Rightarrow> 'o \<Rightarrow> 'o obj option \<Rightarrow> ('o, 'o obj) dict_result" where
  "dict_get ops none d key dflt = dict_get_helper ops none d key dflt MP_MAP_LOOKUP"

definition dict_pop ::
  "'o obj_ops \<Rightarrow> 'o \<Rightarrow> 'o dict_state \<Rightarrow> 'o \<Rightarrow> 'o obj option \<Rightarrow> ('o, 'o obj) dict_result" where
  "dict_pop ops none d key dflt = dict_get_helper ops none d key dflt MP_MAP_LOOKUP_REMOVE_IF_FOUND"

definition dict_setdefault ::
  "'o obj_ops \<Rightarrow> 'o \<Rightarrow> 'o dict_state \<Rightarrow> 'o \<Rightarrow> 'o obj option \<Rightarrow> ('o, 'o obj) dict_result" where
  "dict_setdefault ops none d key dflt = dict_get_helper ops none d key dflt MP_MAP_LOOKUP_ADD_IF_NOT_FOUND"

definition mp_obj_dict_delete :: "'o obj_ops \<Rightarrow> 'o \<Rightarrow> 'o dict_state \<Rightarrow> 'o \<Rightarrow> ('o, 'o obj) dict_result" where
  "mp_obj_dict_delete ops none d key = dict_get_helper ops none d key None MP_MAP_LOOKUP_REMOVE_IF_FOUND"

text \<open>Subscription: the value selects deletion (null), load (sentinel) or store.\<close>

definition dict_subscr ::
  "'o obj_ops \<Rightarrow> 'o \<Rightarrow> 'o dict_state \<Rightarrow> 'o \<Rightarrow> 'o obj \<Rightarrow> ('o, 'o obj) dict_result" where
  "dict_subscr ops none d index v =
    (case v of
       MP_OBJ_NULL \<Rightarrow>
         (case mp_obj_dict_delete ops none d index of
            Some (d', Inr _) \<Rightarrow> Some (d', Inr (Obj none))
          | r \<Rightarrow> r)
     | MP_OBJ_SENTINEL \<Rightarrow> mp_obj_dict_get ops d index
     | Obj _ \<Rightarrow>
         (case mp_obj_dict_store ops d index v of
            None \<Rightarrow> None
          | Some (d', Inl e) \<Rightarrow> Some (d', Inl e)
          | Some (d', Inr _) \<Rightarrow> Some (d', Inr (Obj none))))"

definition dict_clear :: "'o dict_state \<Rightarrow> ('o, unit) dict_result" where
  "dict_clear d =
    (if is_fixed (fst d) then Some (d, Inl Type_Error_Fixed)
     else Some ((mp_map_clear (fst d), snd d), Inr ()))"

definition mp_obj_dict_copy :: "'o mp_map \<Rightarrow> 'o mp_map" where
  "mp_obj_dict_copy m =
    (mp_map_init (alloc m))\<lparr>used := used m, all_keys_are_qstrs := all_keys_are_qstrs m,
       is_fixed := False, is_ordered := is_ordered m,
       table := blit (table (mp_map_init (alloc m))) 0 (take (alloc m) (table m))\<rparr>"

definition dict_popitem :: "'o dict_state \<Rightarrow> ('o, 'o obj \<times> 'o obj) dict_result" where
  "dict_popitem d =
    (let m = fst d
     in if is_fixed m then Some (d, Inl Type_Error_Fixed)
        else if used m = 0 then Some (d, Inl Key_Error_Empty)
        else case dict_iter_next m (if is_ordered m then used m - 1 else 0) of
            None \<Rightarrow> None
          | Some (i, cur') \<Rightarrow>
              Some ((m\<lparr>used := used m - 1,
                       table := (table m)[i := \<lparr>ekey = MP_OBJ_SENTINEL, evalue = MP_OBJ_NULL\<rparr>]\<rparr>, snd d),
                    Inr (ekey (table m ! i), evalue (table m ! i))))"

subsection \<open>Bulk operations\<close>

fun put_all :: "('s \<Rightarrow> 'k \<Rightarrow> 'v \<Rightarrow> 's option) \<Rightarrow> 's \<Rightarrow> ('k \<times> 'v) list \<Rightarrow> 's option" where
  "put_all put s [] = Some s"
| "put_all put s ((k, v) # kvs) =
    (case put s k v of None \<Rightarrow> None | Some s' \<Rightarrow> put_all put s' kvs)"

fun elem_pair :: "'o mp_map_elem \<Rightarrow> ('o \<times> 'o obj) list" where
  "elem_pair e = (case ekey e of Obj k \<Rightarrow> [(k, evalue e)] | _ \<Rightarrow> [])"

text \<open>
  The positional argument of an update: the same dictionary, another dictionary, or the
  items of an iterable, each the list of objects it yields.
\<close>

datatype 'o update_arg = No_Arg | Same_Dict | Other_Dict "'o mp_map" | Items "'o list list"

fun update_items :: "'o obj_ops \<Rightarrow> 'o dict_state \<Rightarrow> 'o list list \<Rightarrow> ('o, unit) dict_result" where
  "update_items ops d [] = Some (d, Inr ())"
| "update_items ops d (item # items) =
    (case item of
       [key, v] \<Rightarrow>
         (case map_put ops d key (Obj v) of
            None \<Rightarrow> None
          | Some d' \<Rightarrow> update_items ops d' items)
     | _ \<Rightarrow> Some (d, Inl Value_Error_Length))"

definition update_kwargs :: "'o obj_ops \<Rightarrow> 'o dict_state \<Rightarrow> 'o mp_map \<Rightarrow> ('o, unit) dict_result" where
  "update_kwargs ops d kwargs =
    (case put_all (map_put ops) d (concat (map elem_pair (table kwargs))) of
       None \<Rightarrow> None
     | Some d' \<Rightarrow> Some (d', Inr ()))"

definition dict_update ::
  "'o obj_ops \<Rightarrow> 'o dict_state \<Rightarrow> 'o update_arg \<Rightarrow> 'o mp_map \<Rightarrow> ('o, unit) dict_result" where
  "dict_update ops d arg kwargs =
    (if is_fixed (fst d) then Some (d, Inl Type_Error_Fixed)
     else case arg of
         No_Arg \<Rightarrow> update_kwargs ops d kwargs
       | Same_Dict \<Rightarrow> update_kwargs ops d kwargs
       | Other_Dict other \<Rightarrow>
           (case put_all (map_put ops) d (concat (map elem_pair (dict_items_from other 0))) of
              None \<Rightarrow> None
            | Some d' \<Rightarrow> update_kwargs ops d' kwargs)
       | Items items \<Rightarrow>
           (case update_items ops d items of
              Some (d', Inr _) \<Rightarrow> update_kwargs ops d' kwargs
            | r \<Rightarrow> r))"

definition mp_obj_dict_make_new ::
  "'o obj_ops \<Rightarrow> bool \<Rightarrow> map_cache \<Rightarrow> 'o update_arg \<Rightarrow> 'o mp_map_elem list \<Rightarrow> ('o, unit) dict_result" where
  "mp_obj_dict_make_new ops ordered c arg kw =
    (let m = (mp_map_init 0)\<lparr>is_ordered := ordered\<rparr>
     in if arg \<noteq> No_Arg \<or> kw \<noteq> [] then dict_update ops (m, c) arg (mp_map_init_fixed_table kw)
        else Some ((m, c), Inr ()))"

definition dict_fromkeys ::
  "'o obj_ops \<Rightarrow> 'o \<Rightarrow> map_cache \<Rightarrow> 'o list \<Rightarrow> nat option \<Rightarrow> 'o obj option \<Rightarrow> 'o dict_state option" where
  "dict_fromkeys ops none c keys len v =
    put_all (map_put ops) (mp_map_init (case len of None \<Rightarrow> 0 | Some n \<Rightarrow> n), c)
      (map (\<lambda>k. (k, case v of None \<Rightarrow> Obj none | Some v \<Rightarrow> v)) keys)"

subsection \<open>Comparison\<close>

fun value_equal :: "'o obj_ops \<Rightarrow> 'o obj \<Rightarrow> 'o obj \<Rightarrow> bool" where
  "value_equal ops (Obj a) (Obj b) = obj_equal ops a b"
| "value_equal ops _ _ = False"

fun ordered_equal :: "'o obj_ops \<Rightarrow> 'o mp_map_elem list \<Rightarrow> 'o mp_map_elem list \<Rightarrow> bool" where
  "ordered_equal ops [] [] = True"
| "ordered_equal ops (e1 # es1) (e2 # es2) =
    (if \<not> value_equal ops (ekey e1) (ekey e2) \<or> \<not> value_equal ops (evalue e1) (evalue e2) then False
     else ordered_equal ops es1 es2)"
| "ordered_equal ops _ _ = False"

fun equal_loop :: "'o obj_ops \<Rightarrow> ('o \<times> 'o obj) list \<Rightarrow> 'o dict_state \<Rightarrow> (map_cache \<times> bool) option" where
  "equal_loop ops [] rhs = Some (snd rhs, True)"
| "equal_loop ops ((k, v) # kvs) rhs =
    (case mp_map_lookup map_fuel ops (fst rhs) (snd rhs) k MP_MAP_LOOKUP of
       None \<Rightarrow> None
     | Some (m, c, None) \<Rightarrow> Some (c, False)
     | Some (m, c, Some p) \<Rightarrow>
         if \<not> value_equal ops v (evalue (table m ! p)) then Some (c, False)
         else equal_loop ops kvs (m, c))"

text \<open>Equality of two plain dictionaries, and of two \<^verbatim>\<open>OrderedDict\<close>s.\<close>

definition dict_equal :: "'o obj_ops \<Rightarrow> map_cache \<Rightarrow> 'o mp_map \<Rightarrow> 'o mp_map \<Rightarrow> (map_cache \<times> bool) option" where
  "dict_equal ops c m rhs =
    (if used m \<noteq> used rhs then Some (c, False)
     else equal_loop ops (concat (map elem_pair (dict_items_from m 0))) (rhs, c))"

definition ordereddict_equal :: "'o obj_ops \<Rightarrow> 'o mp_map \<Rightarrow> 'o mp_map \<Rightarrow> bool" where
  "ordereddict_equal ops m rhs = ordered_equal ops (dict_items_from m 0) (dict_items_from rhs 0)"

definition dict_or ::
  "'o obj_ops \<Rightarrow> bool \<Rightarrow> 'o dict_state \<Rightarrow> 'o update_arg \<Rightarrow> ('o, unit) dict_result" where
  "dict_or ops inplace d rhs =
    dict_update ops (if inplace then d else (mp_obj_dict_copy (fst d), snd d)) rhs
      (mp_map_init_fixed_table [])"

section \<open>Iteration visits every entry once\<close>

lemma dict_items_from_eq:
  assumes "length (table m) = alloc m"
  shows "dict_items_from m cur = filter (\<lambda>e. is_filled (ekey e)) (drop cur (table m))"
  using assms
proof (induction m cur rule: dict_items_from.induct)
  case (1 m cur)
  show ?case
  proof (cases "find (\<lambda>i. is_filled (ekey (table m ! i))) [cur..<alloc m]")
    case None
    then have "filter (\<lambda>e. is_filled (ekey e)) (drop cur (table m)) = []"
      using "1.prems" by (auto simp: find_None_iff filter_empty_conv in_set_conv_nth)
    then show ?thesis using None by (subst dict_items_from.simps) (simp add: dict_iter_next_def)
  next
    case (Some i)
    then obtain n where n: "n < alloc m - cur" "i = cur + n" "is_filled (ekey (table m ! i))"
      "\<forall>j<n. \<not> is_filled (ekey (table m ! (cur + j)))"
      by (auto simp: find_Some_iff)
    then have i: "cur \<le> i" "i < alloc m" "is_filled (ekey (table m ! i))" by auto
    have first: "\<not> is_filled (ekey (table m ! j))" if "cur \<le> j" "j < i" for j
      using n(4) [rule_format, of "j - cur"] that n(2) by simp
    have "dict_items_from m (Suc i) = filter (\<lambda>e. is_filled (ekey e)) (drop (Suc i) (table m))"
      using "1.IH" [of "(i, Suc i)" i "Suc i"] Some "1.prems" by (simp add: dict_iter_next_def)
    then show ?thesis
      using Some filter_drop_skip [of i "table m" cur "\<lambda>e. is_filled (ekey e)"] i first "1.prems"
      by (subst dict_items_from.simps) (simp add: dict_iter_next_def)
  qed
qed

section \<open>Contract of an assignable map\<close>

text \<open>
  What \<^verbatim>\<open>update\<close>, \<^verbatim>\<open>fromkeys\<close> and the constructor rely on: a store never fails and
  rebinds exactly one key.
\<close>

lemma find_append: "find P (xs @ ys) = (case find P xs of None \<Rightarrow> find P ys | Some x \<Rightarrow> Some x)"
  by (induction xs) auto

locale assignable =
  fixes wf :: "'s \<Rightarrow> bool" and get :: "'s \<Rightarrow> 'k \<Rightarrow> 'v option" and eq :: "'k \<Rightarrow> 'k \<Rightarrow> bool"
    and ok :: "'v \<Rightarrow> bool" and put :: "'s \<Rightarrow> 'k \<Rightarrow> 'v \<Rightarrow> 's option"
  assumes put_ok: "wf s \<Longrightarrow> ok v \<Longrightarrow>
    \<exists>s'. put s k v = Some s' \<and> wf s' \<and> (\<forall>y. get s' y = (if eq k y then Some v else get s y))"
begin

lemma put_all_ok:
  assumes "wf s" "\<forall>(k, v)\<in>set kvs. ok v"
  shows "\<exists>s'. put_all put s kvs = Some s' \<and> wf s' \<and>
    (\<forall>y. get s' y = (case find (\<lambda>(k, v). eq k y) (rev kvs) of Some (k, v) \<Rightarrow> Some v | None \<Rightarrow> get s y))"
  using assms
proof (induction kvs arbitrary: s)
  case (Cons kv kvs)
  obtain k v where kv: "kv = (k, v)" by (cases kv)
  obtain s1 where s1: "put s k v = Some s1" "wf s1" "\<And>y. get s1 y = (if eq k y then Some v else get s y)"
    using put_ok [of s v k] Cons.prems kv by auto
  obtain s' where "put_all put s1 kvs = Some s'" "wf s'"
    "\<And>y. get s' y = (case find (\<lambda>(k, v). eq k y) (rev kvs) of Some (k, v) \<Rightarrow> Some v | None \<Rightarrow> get s1 y)"
    using Cons.IH [OF s1(2)] Cons.prems(2) by auto
  then show ?case
    using s1 kv by (auto simp: find_append split: option.splits)
qed simp

end

section \<open>Refinement of a finite map\<close>

text \<open>What \<^verbatim>\<open>get\<close>, \<^verbatim>\<open>pop\<close> and \<^verbatim>\<open>setdefault\<close> promise.\<close>

definition dict_wf :: "'o obj_ops \<Rightarrow> 'o mp_map \<Rightarrow> bool" where
  "dict_wf ops m \<longleftrightarrow> map_wf ops m \<and>
    list_all (\<lambda>e. is_filled (ekey e) \<longrightarrow> is_filled (evalue e)) (table m)"

definition dict_default :: "'o \<Rightarrow> 'o obj option \<Rightarrow> 'o obj" where
  "dict_default none dflt = (case dflt of None \<Rightarrow> Obj none | Some v \<Rightarrow> v)"

definition helper_spec ::
  "'o obj_ops \<Rightarrow> 'o \<Rightarrow> 'o mp_map \<Rightarrow> 'o \<Rightarrow> 'o obj option \<Rightarrow> lookup_kind \<Rightarrow> 'o mp_map \<Rightarrow> 'o dict_error + 'o obj \<Rightarrow> bool" where
  "helper_spec ops none m key dflt kind m' r \<longleftrightarrow> dict_wf ops m' \<and>
    (case map_get ops m key of
       Some v \<Rightarrow> r = Inr v \<and>
         (\<forall>y. map_get ops m' y =
            (if kind = MP_MAP_LOOKUP_REMOVE_IF_FOUND \<and> same ops key y then None else map_get ops m y))
     | None \<Rightarrow>
         r = (if dflt = None \<and> kind = MP_MAP_LOOKUP_REMOVE_IF_FOUND then Inl (Key_Error key)
              else Inr (dict_default none dflt)) \<and>
         (\<forall>y. map_get ops m' y =
            (if kind = MP_MAP_LOOKUP_ADD_IF_NOT_FOUND \<and> same ops key y
             then Some (dict_default none dflt) else map_get ops m y)))"

context key_ops
begin

lemma dict_wf_get:
  assumes "map_wf ops m"
  shows "dict_wf ops m \<longleftrightarrow> (\<forall>x v. map_get ops m x = Some v \<longrightarrow> is_filled v)"
proof
  assume "dict_wf ops m"
  then show "\<forall>x v. map_get ops m x = Some v \<longrightarrow> is_filled v"
    by (auto simp: dict_wf_def map_get_def map_wf_def tget_Some list_all_length elim!: holds_keyE)
next
  assume get: "\<forall>x v. map_get ops m x = Some v \<longrightarrow> is_filled v"
  have "is_filled (evalue (table m ! i))" if i: "i < length (table m)" "is_filled (ekey (table m ! i))" for i
  proof -
    obtain k where "ekey (table m ! i) = Obj k" using i(2) by (cases "ekey (table m ! i)") auto
    then show ?thesis using get map_get_hit [OF assms _ _ same_refl, of i k] assms i(1)
      by (auto simp: map_wf_def)
  qed
  then show "dict_wf ops m" using assms by (auto simp: dict_wf_def list_all_length)
qed

end

sublocale key_ops \<subseteq> dict: assignable
  "\<lambda>d :: 'o dict_state. dict_wf ops (fst d) \<and> \<not> is_fixed (fst d)" "\<lambda>d. map_get ops (fst d)" "same ops" is_filled "map_put ops"
proof
  fix s :: "'o dict_state" and v :: "'o obj" and k
  assume s: "dict_wf ops (fst s) \<and> \<not> is_fixed (fst s)" and v: "is_filled v"
  have wf: "map_wf ops (fst s)" using s by (simp add: dict_wf_def)
  obtain m c r where l: "mp_map_lookup map_fuel ops (fst s) (snd s) k MP_MAP_LOOKUP_ADD_IF_NOT_FOUND = Some (m, c, r)"
    "lookup_spec ops (fst s) k MP_MAP_LOOKUP_ADD_IF_NOT_FOUND m r"
    using lookup_ok [OF wf, of MP_MAP_LOOKUP_ADD_IF_NOT_FOUND map_fuel "snd s" k] s by auto
  then obtain p where p: "r = Some p" "p < alloc m" "holds_key ops k (ekey (table m ! p))" "map_wf ops m"
    "\<not> is_fixed m"
    using s by (auto simp: lookup_spec_def)
  then obtain k' where k': "ekey (table m ! p) = Obj k'" "same ops k' k" by (auto elim: holds_keyE)
  have "same ops k' y = same ops k y" for y using k'(2) same_trans same_sym by blast
  then have get: "map_get ops (set_value m p v) y = (if same ops k y then Some v else map_get ops (fst s) y)" for y
    using set_value_ok(2) [OF p(4,2) k'(1)] l(2) by (auto simp: lookup_spec_def)
  moreover have "dict_wf ops (set_value m p v)"
    using set_value_ok(1) [OF p(4,2) k'(1)] get s v dict_wf_get [OF wf]
    by (subst dict_wf_get) auto
  ultimately show "\<exists>s'. map_put ops s k v = Some s' \<and> (dict_wf ops (fst s') \<and> \<not> is_fixed (fst s')) \<and>
      (\<forall>y. map_get ops (fst s') y = (if same ops k y then Some v else map_get ops (fst s) y))"
    using l(1) p by (auto simp: map_put_def set_value_def)
qed

context key_ops
begin

text \<open>Clearing the value of a slot that holds no key.\<close>

lemma set_value_free:
  assumes wf: "map_wf ops m" and p: "p < alloc m" "\<not> is_filled (ekey (table m ! p))"
  shows "map_wf ops (set_value m p v)" "map_get ops (set_value m p v) y = map_get ops m y"
proof -
  have keys: "map_keys (set_value m p v) = map_keys m" by (rule keys_set_value)
  show "map_wf ops (set_value m p v)"
    using wf keys unfolding map_wf_def by (auto simp: set_value_def)
  have nd: "no_duplicates ops (map_keys m)" and len: "p < length (table m)"
    using wf p(1) by (auto simp: map_wf_def)
  have np: "\<not> holds_key ops y (ekey (table m ! p))" using p(2) by (cases "ekey (table m ! p)") auto
  show "map_get ops (set_value m p v) y = map_get ops m y"
    using tget_Some [of "table m" y] tget_Some [of "table (set_value m p v)" y] nd keys len np
    by (intro option_eqI) (auto simp: map_get_def set_value_def nth_list_update)
qed

lemma dict_wf_filled: "dict_wf ops m \<Longrightarrow> map_get ops m x = Some v \<Longrightarrow> is_filled v"
  using dict_wf_get [of m] by (auto simp: dict_wf_def)

lemma helper_add:
  assumes wf: "dict_wf ops m" and v: "is_filled (dict_default none dflt)"
    and l: "mp_map_lookup map_fuel ops m c key MP_MAP_LOOKUP_ADD_IF_NOT_FOUND = Some (m1, c1, r)"
      "lookup_spec ops m key MP_MAP_LOOKUP_ADD_IF_NOT_FOUND m1 r" and fixed: "\<not> is_fixed m"
  shows "\<exists>d' r. dict_get_helper ops none (m, c) key dflt MP_MAP_LOOKUP_ADD_IF_NOT_FOUND = Some (d', r) \<and>
    helper_spec ops none m key dflt MP_MAP_LOOKUP_ADD_IF_NOT_FOUND (fst d') r"
proof -
  let ?v = "dict_default none dflt"
  obtain p where p: "r = Some p" "p < alloc m1" "holds_key ops key (ekey (table m1 ! p))" "map_wf ops m1"
    "evalue (table m1 ! p) = (case map_get ops m key of None \<Rightarrow> MP_OBJ_NULL | Some v \<Rightarrow> v)"
    "\<And>y. map_get ops m1 y = (if same ops key y \<and> map_get ops m key = None then Some MP_OBJ_NULL
       else map_get ops m y)"
    using l(2) by (auto simp: lookup_spec_def)
  then obtain k' where k': "ekey (table m1 ! p) = Obj k'" "same ops k' key" by (auto elim: holds_keyE)
  have "same ops k' y = same ops key y" for y using k'(2) same_trans same_sym by blast
  then have get: "map_get ops (set_value m1 p ?v) y = (if same ops key y then Some ?v else map_get ops m y)" for y
    using set_value_ok(2) [OF p(4,2) k'(1)] p(6) by auto
  have wf1: "dict_wf ops (set_value m1 p ?v)"
    using set_value_ok(1) [OF p(4,2) k'(1)] get v dict_wf_filled [OF wf] by (subst dict_wf_get) auto
  show ?thesis
  proof (cases "map_get ops m key")
    case None
    then show ?thesis
      using l(1) p(1,5) wf1 get fixed by (simp add: dict_get_helper_def Let_def helper_spec_def dict_default_def)
  next
    case (Some w)
    have "dict_wf ops m1" using p(4,6) Some dict_wf_filled [OF wf] by (subst dict_wf_get) auto
    then show ?thesis
      using l(1) p(1,5,6) Some dict_wf_filled [OF wf Some] fixed
      by (auto simp: dict_get_helper_def helper_spec_def)
  qed
qed

lemma helper_remove:
  assumes wf: "dict_wf ops m"
    and l: "mp_map_lookup map_fuel ops m c key MP_MAP_LOOKUP_REMOVE_IF_FOUND = Some (m1, c1, r)"
      "lookup_spec ops m key MP_MAP_LOOKUP_REMOVE_IF_FOUND m1 r" and fixed: "\<not> is_fixed m"
  shows "\<exists>d' r. dict_get_helper ops none (m, c) key dflt MP_MAP_LOOKUP_REMOVE_IF_FOUND = Some (d', r) \<and>
    helper_spec ops none m key dflt MP_MAP_LOOKUP_REMOVE_IF_FOUND (fst d') r"
proof (cases "map_get ops m key")
  case None
  then have "r = None" "m1 = m" using l(2) by (simp_all add: lookup_spec_def)
  then show ?thesis
    using l(1) None wf fixed by (auto simp: dict_get_helper_def Let_def helper_spec_def dict_default_def)
next
  case (Some w)
  then obtain p where p: "r = Some p" "p < alloc m1" "\<not> is_filled (ekey (table m1 ! p))" "map_wf ops m1"
    "evalue (table m1 ! p) = w" "\<And>y. map_get ops m1 y = (if same ops key y then None else map_get ops m y)"
    using l(2) by (auto simp: lookup_spec_def)
  note free = set_value_free [OF p(4,2,3), of MP_OBJ_NULL]
  have "dict_wf ops (set_value m1 p MP_OBJ_NULL)"
    using free p(6) dict_wf_filled [OF wf] by (subst dict_wf_get) auto
  moreover have "w \<noteq> MP_OBJ_NULL" using dict_wf_filled [OF wf Some] by auto
  ultimately show ?thesis
    using l(1) p(1,5,6) Some free fixed by (simp add: dict_get_helper_def helper_spec_def)
qed

lemma dict_get_helper_ok:
  assumes wf: "dict_wf ops m" and dflt: "is_filled (dict_default none dflt)"
    and kind: "kind \<noteq> MP_MAP_LOOKUP_ADD_IF_NOT_FOUND_OR_REMOVE_IF_FOUND"
    and fixed: "kind \<noteq> MP_MAP_LOOKUP \<Longrightarrow> \<not> is_fixed m"
  shows "\<exists>d' r. dict_get_helper ops none (m, c) key dflt kind = Some (d', r) \<and>
    helper_spec ops none m key dflt kind (fst d') r"
proof -
  have mwf: "map_wf ops m" using wf by (simp add: dict_wf_def)
  obtain m1 c1 r where l: "mp_map_lookup map_fuel ops m c key kind = Some (m1, c1, r)"
    "lookup_spec ops m key kind m1 r"
    using lookup_ok [OF mwf, of kind map_fuel c key] fixed by auto
  show ?thesis
  proof (cases kind)
    case MP_MAP_LOOKUP
    show ?thesis
    proof (cases "map_get ops m key")
      case None
      then show ?thesis
        using l MP_MAP_LOOKUP wf
        by (auto simp: dict_get_helper_def Let_def helper_spec_def dict_default_def lookup_spec_def)
    next
      case (Some w)
      have "w \<noteq> MP_OBJ_NULL" using dict_wf_filled [OF wf Some] by auto
      then show ?thesis
        using l MP_MAP_LOOKUP wf Some
        by (auto simp: dict_get_helper_def helper_spec_def lookup_spec_def)
    qed
  qed (use helper_add [OF wf dflt] helper_remove [OF wf] l fixed kind in auto)
qed

lemma dict_get_helper_fixed:
  "kind \<noteq> MP_MAP_LOOKUP \<Longrightarrow> is_fixed m \<Longrightarrow>
   dict_get_helper ops none (m, c) key dflt kind = Some ((m, c), Inl Type_Error_Fixed)"
  by (simp add: dict_get_helper_def)

subsection \<open>Removing any entry\<close>

lemma mark_deleted:
  assumes wf: "map_wf ops m" and p: "p < alloc m" "ekey (table m ! p) = Obj k"
    and last: "is_ordered m \<Longrightarrow> p = used m - 1"
  defines "m' \<equiv> m\<lparr>used := used m - 1,
    table := (table m)[p := \<lparr>ekey = MP_OBJ_SENTINEL, evalue = MP_OBJ_NULL\<rparr>]\<rparr>"
  shows "map_wf ops m'" "map_get ops m' y = (if same ops k y then None else map_get ops m y)"
    "used m = used m' + 1"
proof -
  let ?e = "\<lparr>ekey = MP_OBJ_SENTINEL, evalue = MP_OBJ_NULL\<rparr> :: 'o mp_map_elem"
  let ?ks = "(map_keys m)[p := MP_OBJ_SENTINEL]"
  have len: "length (table m) = alloc m" and nd: "no_duplicates ops (map_keys m)"
    using wf by (auto simp: map_wf_def)
  have keys: "map ekey ((table m)[p := ?e]) = ?ks" by (simp add: map_update)
  have nd': "no_duplicates ops ?ks"
  proof (rule no_duplicatesI)
    fix i j a b
    assume "i < length ?ks" "j < length ?ks" "?ks ! i = Obj a" "?ks ! j = Obj b" "same ops b a"
    then show "i = j" using no_duplicatesD [OF nd, of i j a b]
      by (cases "i = p"; cases "j = p") auto
  qed
  have reach: "reachable_keys ops ?ks" if "reachable_keys ops (map_keys m)"
  proof (rule reachable_keysI)
    fix j l d
    assume "j < length ?ks" "?ks ! j = Obj l" "d < dist (length ?ks) (obj_hash ops l mod length ?ks) j"
    then show "?ks ! slot_at (length ?ks) (obj_hash ops l mod length ?ks) d \<noteq> MP_OBJ_NULL"
      using reachable_keysD [OF that, of j l d] p(1) len
      by (cases "j = p"; cases "slot_at (length ?ks) (obj_hash ops l mod length ?ks) d = p") auto
  qed
  have count: "filled_count ?ks + 1 = filled_count (map_keys m)"
    using filled_count_update [of p "map_keys m" MP_OBJ_SENTINEL] p len by simp
  then show used: "used m = used m' + 1" using wf by (simp add: m'_def map_wf_def)
  have comp: "compact (used m - 1) ?ks" if "compact (used m) (map_keys m)" "p = used m - 1"
    unfolding compact_def
  proof (intro allI impI)
    fix i
    assume i: "i < length ?ks"
    have "0 < used m" using count wf by (simp add: map_wf_def)
    then show "is_filled (?ks ! i) \<longleftrightarrow> i < used m - 1"
      using that i len by (cases "i = p") (auto simp: compact_def)
  qed
  have "keys_are_qstrs ops ?ks" if "keys_are_qstrs ops (map_keys m)"
    using that by (intro keys_are_qstrs_update) auto
  then show "map_wf ops m'"
    using wf nd' reach comp last count len keys unfolding map_wf_def m'_def by auto
  show "map_get ops m' y = (if same ops k y then None else map_get ops m y)"
    using tget_delete [of "table m" p ?e k y] nd' nd keys p len by (simp add: m'_def map_get_def)
qed

lemma dict_popitem_ok:
  assumes wf: "dict_wf ops m" and m: "\<not> is_fixed m" "used m \<noteq> 0"
  shows "\<exists>m' k v i. dict_popitem (m, c) = Some ((m', c), Inr (Obj k, v)) \<and> dict_wf ops m' \<and>
    used m = used m' + 1 \<and> map_get ops m k = Some v \<and>
    (\<forall>y. map_get ops m' y = (if same ops k y then None else map_get ops m y)) \<and>
    i < alloc m \<and> ekey (table m ! i) = Obj k \<and> (is_ordered m \<longrightarrow> i = used m - 1)"
proof -
  let ?cur = "if is_ordered m then used m - 1 else 0"
  have mwf: "map_wf ops m" and len: "length (table m) = alloc m" and le: "used m \<le> alloc m"
    using wf used_le_alloc by (auto simp: dict_wf_def map_wf_def)
  have "\<exists>i\<ge>?cur. i < alloc m \<and> is_filled (ekey (table m ! i))"
  proof (cases "is_ordered m")
    case True
    then have "is_filled (map_keys m ! (used m - 1))"
      using mwf m le len by (auto simp: map_wf_def compact_def)
    then show ?thesis using True m le len by (intro exI [of _ "used m - 1"]) auto
  next
    case False
    have "\<exists>e\<in>set (map_keys m). is_filled e"
      using mwf m by (auto simp: map_wf_def filled_count_def filter_empty_conv)
    then show ?thesis using False len by (auto simp: in_set_conv_nth)
  qed
  then obtain i where i: "find (\<lambda>i. is_filled (ekey (table m ! i))) [?cur..<alloc m] = Some i"
    by (cases "find (\<lambda>i. is_filled (ekey (table m ! i))) [?cur..<alloc m]") (auto simp: find_None_iff)
  then have p: "?cur \<le> i" "i < alloc m" "is_filled (ekey (table m ! i))" by (auto simp: find_Some_iff)
  then obtain k where k: "ekey (table m ! i) = Obj k" by (cases "ekey (table m ! i)") auto
  have last: "i = used m - 1" if "is_ordered m"
    using that p compact_bound [of "used m" "map_keys m" i k] k mwf len by (auto simp: map_wf_def)
  note del = mark_deleted [OF mwf p(2) k last]
  have "dict_wf ops (m\<lparr>used := used m - 1,
      table := (table m)[i := \<lparr>ekey = MP_OBJ_SENTINEL, evalue = MP_OBJ_NULL\<rparr>]\<rparr>)"
    using del dict_wf_filled [OF wf] by (subst dict_wf_get) auto
  then show ?thesis
    using del i k m p last map_get_hit [OF mwf p(2) k same_refl]
    by (intro exI conjI) (auto simp: dict_popitem_def Let_def dict_iter_next_def)
qed

subsection \<open>Comparison\<close>

lemma filled_count_card:
  "no_duplicates ops ks \<Longrightarrow> filled_count ks = card {k. Obj k \<in> set ks}"
proof (induction ks)
  case (Cons x xs)
  have IH: "filled_count xs = card {k. Obj k \<in> set xs}"
    using Cons no_duplicates_Cons(1) by blast
  have fin: "finite {k. Obj k \<in> set xs}"
    by (rule finite_subset [of _ "the_inv Obj ` set xs"])
      (auto simp: image_iff intro!: bexI [of _ "Obj _"] the_inv_f_f [symmetric] injI)
  show ?case
  proof (cases x)
    case (Obj k)
    have "k \<notin> {k. Obj k \<in> set xs}" using no_duplicates_Cons(2) [OF Cons.prems Obj, of k] by auto
    moreover have "{l. Obj l \<in> set (x # xs)} = insert k {l. Obj l \<in> set xs}" using Obj by auto
    ultimately show ?thesis using IH fin Obj by (simp add: filled_count_def)
  qed (use IH in \<open>auto simp: filled_count_def\<close>)
qed (simp add: filled_count_def)

lemma card_filled: "map_wf ops m \<Longrightarrow> card (filled_keys m) = used m"
  using filled_count_card [of "map_keys m"] by (simp add: map_wf_def filled_keys_def)

lemma finite_filled: "finite (filled_keys m)"
proof -
  have "Obj ` filled_keys m \<subseteq> set (map_keys m)" by (auto simp: filled_keys_def)
  then have "finite (Obj ` filled_keys m)" using finite_subset by blast
  then show ?thesis by (rule finite_imageD) (simp add: inj_on_def)
qed

lemma filled_unique:
  assumes "map_wf ops m" "a \<in> filled_keys m" "b \<in> filled_keys m" "same ops a b"
  shows "a = b"
proof -
  obtain i j where "i < length (map_keys m)" "map_keys m ! i = Obj a" "j < length (map_keys m)" "map_keys m ! j = Obj b"
    using assms(2,3) unfolding filled_keys_def by (auto simp: in_set_conv_nth)
  then show ?thesis
    using no_duplicatesD [of ops "map_keys m" j i b a] assms(1,4) by (auto simp: map_wf_def)
qed

text \<open>If every key of one map is in the other and they have the same size, the converse holds.\<close>

lemma keys_embed:
  assumes wf: "map_wf ops m" "map_wf ops r"
    and emb: "\<And>k. k \<in> filled_keys m \<Longrightarrow> map_get ops r k \<noteq> None"
  shows "used m \<le> used r"
    and "used m = used r \<Longrightarrow> map_get ops r x \<noteq> None \<Longrightarrow> map_get ops m x \<noteq> None"
proof -
  have "\<forall>k\<in>filled_keys m. \<exists>l. l \<in> filled_keys r \<and> same ops l k"
    using emb map_get_None [OF wf(2)] by blast
  then obtain f where f: "\<And>k. k \<in> filled_keys m \<Longrightarrow> f k \<in> filled_keys r \<and> same ops (f k) k"
    by metis
  have inj: "inj_on f (filled_keys m)"
  proof (rule inj_onI)
    fix a b
    assume ab: "a \<in> filled_keys m" "b \<in> filled_keys m" "f a = f b"
    then have "same ops a b" using f [of a] f [of b] same_trans same_sym by metis
    then show "a = b" using filled_unique [OF wf(1)] ab by blast
  qed
  have sub: "f ` filled_keys m \<subseteq> filled_keys r" using f by auto
  show "used m \<le> used r"
    using card_inj_on_le [OF inj sub finite_filled] card_filled wf by simp
  assume eq: "used m = used r" and x: "map_get ops r x \<noteq> None"
  have "f ` filled_keys m = filled_keys r"
    using card_subset_eq [OF finite_filled sub] card_image [OF inj] card_filled wf eq by simp
  then obtain k where k: "k \<in> filled_keys m" "same ops (f k) x"
    using x map_get_None [OF wf(2), of x] by (metis image_iff)
  then have "same ops k x" using f [of k] same_trans same_sym by blast
  then show "map_get ops m x \<noteq> None" using k(1) map_get_None [OF wf(1), of x] by blast
qed

lemma equal_loop_ok:
  assumes "map_wf ops rhs"
  shows "\<exists>c'. equal_loop ops kvs (rhs, c) =
    Some (c', \<forall>(k, v)\<in>set kvs. \<exists>w. map_get ops rhs k = Some w \<and> value_equal ops v w)"
proof (induction kvs arbitrary: c)
  case (Cons kv kvs)
  obtain k v where kv: "kv = (k, v)" by (cases kv)
  obtain m1 c1 r where l: "mp_map_lookup map_fuel ops rhs c k MP_MAP_LOOKUP = Some (m1, c1, r)"
    "lookup_spec ops rhs k MP_MAP_LOOKUP m1 r"
    using lookup_ok [OF assms, of MP_MAP_LOOKUP map_fuel c k] by auto
  obtain c2 where IH: "equal_loop ops kvs (rhs, c1) =
    Some (c2, \<forall>(k, v)\<in>set kvs. \<exists>w. map_get ops rhs k = Some w \<and> value_equal ops v w)"
    using Cons.IH by blast
  show ?case
  proof (cases "map_get ops rhs k")
    case None
    then show ?thesis using l kv by (auto simp: lookup_spec_def)
  next
    case (Some w)
    then obtain p where "m1 = rhs" "r = Some p" "evalue (table rhs ! p) = w"
      using l(2) by (auto simp: lookup_spec_def)
    then show ?thesis using l(1) kv Some IH by auto
  qed
qed simp

lemma items_of_map:
  assumes "map_wf ops m"
  shows "(k, v) \<in> set (concat (map elem_pair (dict_items_from m 0))) \<longleftrightarrow>
    k \<in> filled_keys m \<and> map_get ops m k = Some v"
proof -
  have len: "length (table m) = alloc m" using assms by (simp add: map_wf_def)
  have "(k, v) \<in> set (concat (map elem_pair (dict_items_from m 0))) \<longleftrightarrow>
      (\<exists>e\<in>set (table m). ekey e = Obj k \<and> evalue e = v)"
    unfolding dict_items_from_eq [OF len] by (fastforce split: obj.splits)
  also have "\<dots> \<longleftrightarrow> (\<exists>i<alloc m. ekey (table m ! i) = Obj k \<and> evalue (table m ! i) = v)"
    unfolding len [symmetric] by (metis in_set_conv_nth)
  also have "\<dots> \<longleftrightarrow> k \<in> filled_keys m \<and> map_get ops m k = Some v"
    (is "?l \<longleftrightarrow> ?r")
  proof
    assume ?l
    then obtain i where i: "i < alloc m" "ekey (table m ! i) = Obj k" "evalue (table m ! i) = v" by blast
    then show ?r using map_get_hit [OF assms i(1,2) same_refl] filled_keys_nth [of i m k] len by simp
  next
    assume r: ?r
    then obtain i where i: "i < alloc m" "ekey (table m ! i) = Obj k"
      using len by (auto simp: filled_keys_def in_set_conv_nth)
    then show ?l using map_get_hit [OF assms i same_refl] r by auto
  qed
  finally show ?thesis .
qed

lemma dict_equal_ok:
  assumes wf: "dict_wf ops m" "dict_wf ops rhs"
  shows "\<exists>c'. dict_equal ops c m rhs =
    Some (c', \<forall>x. rel_option (value_equal ops) (map_get ops m x) (map_get ops rhs x))"
proof -
  have mwf: "map_wf ops m" "map_wf ops rhs" using wf by (auto simp: dict_wf_def)
  let ?all = "\<forall>(k, v)\<in>set (concat (map elem_pair (dict_items_from m 0))).
      \<exists>w. map_get ops rhs k = Some w \<and> value_equal ops v w"
  let ?rel = "\<forall>x. rel_option (value_equal ops) (map_get ops m x) (map_get ops rhs x)"
  have present: "map_get ops m k \<noteq> None" if "k \<in> filled_keys m" for k
    using that map_get_None [OF mwf(1), of k] same_refl by blast
  have all: "?all \<longleftrightarrow> (\<forall>k\<in>filled_keys m. rel_option (value_equal ops) (map_get ops m k) (map_get ops rhs k))"
    using present items_of_map [OF mwf(1)] by (fastforce simp: option_rel_Some1)
  have on_keys: "rel_option (value_equal ops) (map_get ops m x) (map_get ops rhs x)"
    if h: "?all" "map_get ops m x \<noteq> None" for x
  proof -
    obtain k where k: "k \<in> filled_keys m" "same ops k x" using h(2) map_get_None [OF mwf(1), of x] by auto
    then show ?thesis
      using h(1) all map_get_same [OF mwf(1) k(2)] map_get_same [OF mwf(2) k(2)] by auto
  qed
  have sub: "map_get ops rhs k \<noteq> None" if "?all" "k \<in> filled_keys m" for k
    using that all present [of k] by (cases "map_get ops m k"; cases "map_get ops rhs k") auto
  have "used m = used rhs \<and> ?all \<longleftrightarrow> ?rel"
  proof
    assume l: "used m = used rhs \<and> ?all"
    show ?rel
    proof
      fix x
      show "rel_option (value_equal ops) (map_get ops m x) (map_get ops rhs x)"
        using on_keys [of x] keys_embed(2) [OF mwf sub, of x] l by (cases "map_get ops m x"; cases "map_get ops rhs x") auto
    qed
  next
    assume r: ?rel
    then have "?all" using all by blast
    moreover have "map_get ops m k \<noteq> None" if "k \<in> filled_keys rhs" for k
      using r that map_get_None [OF mwf(2), of k] same_refl by (metis option.rel_sel)
    ultimately show "used m = used rhs \<and> ?all"
      using keys_embed(1) [OF mwf sub] keys_embed(1) [OF mwf(2,1)] by auto
  qed
  note iff = this
  obtain c' where "equal_loop ops (concat (map elem_pair (dict_items_from m 0))) (rhs, c) = Some (c', ?all)"
    using equal_loop_ok [OF mwf(2)] by blast
  then have "dict_equal ops c m rhs = Some (if used m = used rhs then c' else c, used m = used rhs \<and> ?all)"
    by (simp add: dict_equal_def)
  then show ?thesis unfolding iff by blast
qed

subsection \<open>Bulk updates\<close>

lemma find_map_pair:
  "find (\<lambda>(k, v). P k) (map (\<lambda>x. (f x, g x)) xs) = map_option (\<lambda>x. (f x, g x)) (find (\<lambda>x. P (f x)) xs)"
  by (induction xs) auto

lemma update_items_eq:
  "update_items ops d items =
    (case put_all (map_put ops) d (map (\<lambda>item. (item ! 0, Obj (item ! 1))) (takeWhile (\<lambda>i. length i = 2) items)) of
       None \<Rightarrow> None
     | Some d' \<Rightarrow> Some (d', if list_all (\<lambda>i. length i = 2) items then Inr () else Inl Value_Error_Length))"
proof (induction items arbitrary: d)
  case (Cons item items)
  show ?case
  proof (cases "length item = 2")
    case True
    then obtain k v where "item = [k, v]" by (auto simp: length_Suc_conv numeral_2_eq_2)
    then show ?thesis using Cons.IH by (auto split: option.splits)
  next
    case False
    then show ?thesis by (auto split: list.splits)
  qed
qed simp

text \<open>The entries of a map, searched from the end, give the map.\<close>

lemma find_entries:
  assumes wf: "map_wf ops m"
  shows "(case find (\<lambda>(k, v). same ops k y) (rev (concat (map elem_pair (dict_items_from m 0)))) of
      Some (k, v) \<Rightarrow> Some v | None \<Rightarrow> None) = map_get ops m y"
proof (cases "find (\<lambda>(k, v). same ops k y) (rev (concat (map elem_pair (dict_items_from m 0))))")
  case None
  have "map_get ops m k \<noteq> None" if "k \<in> filled_keys m" for k
    using that map_get_None [OF wf, of k] same_refl by blast
  then have "\<not> same ops k y" if "k \<in> filled_keys m" for k
    using that None items_of_map [OF wf, of k] by (fastforce simp: find_None_iff)
  then show ?thesis using None map_get_None [OF wf, of y] by simp
next
  case (Some kv)
  obtain k v where kv: "kv = (k, v)" by (cases kv)
  then have "(k, v) \<in> set (concat (map elem_pair (dict_items_from m 0)))" "same ops k y"
    using find_Some_in [OF Some] by auto
  then show ?thesis using Some kv items_of_map [OF wf] map_get_same [OF wf, of k y] by auto
qed

lemma update_dict_ok:
  assumes "dict_wf ops m" "\<not> is_fixed m" "dict_wf ops other"
  shows "\<exists>d'. dict_update ops (m, c) (Other_Dict other) (mp_map_init_fixed_table []) = Some (d', Inr ()) \<and>
    dict_wf ops (fst d') \<and>
    (\<forall>y. map_get ops (fst d') y = (case map_get ops other y of None \<Rightarrow> map_get ops m y | Some v \<Rightarrow> Some v))"
proof -
  have mwf: "map_wf ops other" using assms(3) by (simp add: dict_wf_def)
  let ?kvs = "concat (map elem_pair (dict_items_from other 0))"
  have "\<forall>(k, v)\<in>set ?kvs. is_filled v"
    using items_of_map [OF mwf] dict_wf_filled [OF assms(3)] by blast
  then obtain d' where d': "put_all (map_put ops) (m, c) ?kvs = Some d'" "dict_wf ops (fst d')"
    "\<And>y. map_get ops (fst d') y =
       (case find (\<lambda>(k, v). same ops k y) (rev ?kvs) of Some (k, v) \<Rightarrow> Some v | None \<Rightarrow> map_get ops m y)"
    using dict.put_all_ok [of "(m, c)" ?kvs, unfolded fst_conv] assms by blast
  have "map_get ops (fst d') y = (case map_get ops other y of None \<Rightarrow> map_get ops m y | Some v \<Rightarrow> Some v)" for y
    using d'(3) [of y] find_entries [OF mwf, of y] by (auto split: option.splits)
  moreover have "dict_update ops (m, c) (Other_Dict other) (mp_map_init_fixed_table []) = Some (d', Inr ())"
    using d'(1) assms(2) by (simp add: dict_update_def update_kwargs_def mp_map_init_fixed_table_def)
  ultimately show ?thesis using d'(2) by blast
qed

lemma update_items_ok:
  assumes "dict_wf ops m" "\<not> is_fixed m"
  shows "\<exists>d'. dict_update ops (m, c) (Items items) (mp_map_init_fixed_table []) =
      Some (d', if list_all (\<lambda>i. length i = 2) items then Inr () else Inl Value_Error_Length) \<and>
    dict_wf ops (fst d') \<and>
    (\<forall>y. map_get ops (fst d') y =
       (case find (\<lambda>i. same ops (i ! 0) y) (rev (takeWhile (\<lambda>i. length i = 2) items)) of
          None \<Rightarrow> map_get ops m y | Some i \<Rightarrow> Some (Obj (i ! 1))))"
proof -
  let ?f = "\<lambda>item. (item ! 0, Obj (item ! 1))"
  let ?is = "takeWhile (\<lambda>i. length i = 2) items"
  have "\<forall>(k, v)\<in>set (map ?f ?is). is_filled v" by auto
  then obtain d' where d': "put_all (map_put ops) (m, c) (map ?f ?is) = Some d'" "dict_wf ops (fst d')"
    "\<And>y. map_get ops (fst d') y =
       (case find (\<lambda>(k, v). same ops k y) (rev (map ?f ?is)) of Some (k, v) \<Rightarrow> Some v | None \<Rightarrow> map_get ops m y)"
    using dict.put_all_ok [of "(m, c)" "map ?f ?is", unfolded fst_conv] assms by blast
  have "find (\<lambda>(k, v). same ops k y) (rev (map ?f ?is)) = map_option ?f (find (\<lambda>i. same ops (i ! 0) y) (rev ?is))" for y
    by (simp only: rev_map find_map_pair)
  then have "map_get ops (fst d') y =
       (case find (\<lambda>i. same ops (i ! 0) y) (rev ?is) of None \<Rightarrow> map_get ops m y | Some i \<Rightarrow> Some (Obj (i ! 1)))" for y
    using d'(3) [of y] by (auto split: option.splits)
  moreover have "dict_update ops (m, c) (Items items) (mp_map_init_fixed_table []) =
      Some (d', if list_all (\<lambda>i. length i = 2) items then Inr () else Inl Value_Error_Length)"
    using d'(1) assms(2)
    by (simp add: dict_update_def update_items_eq update_kwargs_def mp_map_init_fixed_table_def)
  ultimately show ?thesis using d'(2) by blast
qed

lemma dict_store_ok:
  assumes "dict_wf ops m" "is_filled v" "\<not> is_fixed m"
  shows "\<exists>m' c'. mp_obj_dict_store ops (m, c) k v = Some ((m', c'), Inr ()) \<and>
    dict_wf ops m' \<and> (\<forall>y. map_get ops m' y = (if same ops k y then Some v else map_get ops m y))"
  using dict.put_ok [of "(m, c)" v k] assms by (auto simp: mp_obj_dict_store_def)

lemma dict_getitem_ok:
  assumes "dict_wf ops m"
  shows "\<exists>c'. mp_obj_dict_get ops (m, c) k =
    Some ((m, c'), case map_get ops m k of None \<Rightarrow> Inl (Key_Error k) | Some v \<Rightarrow> Inr v)"
  using lookup_ok [of m MP_MAP_LOOKUP map_fuel c k] assms
  by (auto simp: mp_obj_dict_get_def lookup_spec_def dict_wf_def split: option.splits)

lemma dict_init_wf: "dict_wf ops (mp_map_init n)"
  by (simp add: dict_wf_def init_wf) (simp add: mp_map_init_def null_elem_def list_all_iff)

lemma dict_copy_ok:
  assumes "dict_wf ops m"
  shows "dict_wf ops (mp_obj_dict_copy m)" "\<not> is_fixed (mp_obj_dict_copy m)"
    "map_get ops (mp_obj_dict_copy m) y = map_get ops m y"
proof -
  have "length (table m) = alloc m" using assms by (simp add: dict_wf_def map_wf_def)
  then have t: "table (mp_obj_dict_copy m) = table m"
    by (simp add: mp_obj_dict_copy_def mp_map_init_def blit_def)
  then show "map_get ops (mp_obj_dict_copy m) y = map_get ops m y" by (simp add: map_get_def)
  show "dict_wf ops (mp_obj_dict_copy m)" "\<not> is_fixed (mp_obj_dict_copy m)"
    using assms t unfolding dict_wf_def map_wf_def by (auto simp: mp_obj_dict_copy_def mp_map_init_def)
qed

end

section \<open>Properties\<close>

text \<open>
  C5. A dictionary refines a finite map.  On a well-formed dictionary, plain or ordered,
  item access returns the value stored under an equal key or raises \<^verbatim>\<open>KeyError\<close>; a store
  rebinds exactly that key, and on a fixed dictionary raises \<^verbatim>\<open>TypeError\<close> and changes nothing;
  \<^verbatim>\<open>get\<close>, \<^verbatim>\<open>setdefault\<close> and \<^verbatim>\<open>pop\<close> return the stored value or the default, and
  change exactly what they promise.
\<close>

theorem dict_refines_map:
  assumes "key_ops ops" "dict_wf ops m" "is_filled (dict_default none dflt)" "is_filled v"
  shows "(\<exists>c'. mp_obj_dict_get ops (m, c) k =
      Some ((m, c'), case map_get ops m k of None \<Rightarrow> Inl (Key_Error k) | Some v \<Rightarrow> Inr v)) \<and>
    (\<exists>d' r. dict_get ops none (m, c) k dflt = Some (d', r) \<and>
      helper_spec ops none m k dflt MP_MAP_LOOKUP (fst d') r) \<and>
    (if is_fixed m then
       mp_obj_dict_store ops (m, c) k v = Some ((m, c), Inl Type_Error_Fixed) \<and>
       dict_pop ops none (m, c) k dflt = Some ((m, c), Inl Type_Error_Fixed) \<and>
       dict_setdefault ops none (m, c) k dflt = Some ((m, c), Inl Type_Error_Fixed)
     else
       (\<exists>m' c'. mp_obj_dict_store ops (m, c) k v = Some ((m', c'), Inr ()) \<and>
          dict_wf ops m' \<and> (\<forall>y. map_get ops m' y = (if same ops k y then Some v else map_get ops m y))) \<and>
       (\<exists>d' r. dict_pop ops none (m, c) k dflt = Some (d', r) \<and>
          helper_spec ops none m k dflt MP_MAP_LOOKUP_REMOVE_IF_FOUND (fst d') r) \<and>
       (\<exists>d' r. dict_setdefault ops none (m, c) k dflt = Some (d', r) \<and>
          helper_spec ops none m k dflt MP_MAP_LOOKUP_ADD_IF_NOT_FOUND (fst d') r))"
proof -
  note h = key_ops.dict_get_helper_ok [OF assms(1-3)]
  have "\<exists>d' r. dict_get ops none (m, c) k dflt = Some (d', r) \<and>
      helper_spec ops none m k dflt MP_MAP_LOOKUP (fst d') r"
    unfolding dict_get_def by (rule h) auto
  moreover have "\<exists>d' r. dict_pop ops none (m, c) k dflt = Some (d', r) \<and>
      helper_spec ops none m k dflt MP_MAP_LOOKUP_REMOVE_IF_FOUND (fst d') r" if "\<not> is_fixed m"
    unfolding dict_pop_def using that by (intro h) auto
  moreover have "\<exists>d' r. dict_setdefault ops none (m, c) k dflt = Some (d', r) \<and>
      helper_spec ops none m k dflt MP_MAP_LOOKUP_ADD_IF_NOT_FOUND (fst d') r" if "\<not> is_fixed m"
    unfolding dict_setdefault_def using that by (intro h) auto
  moreover note key_ops.dict_getitem_ok [OF assms(1,2), of c k] key_ops.dict_store_ok [OF assms(1,2,4), of c k]
  ultimately show ?thesis
    by (simp add: dict_pop_def dict_setdefault_def key_ops.dict_get_helper_fixed [OF assms(1)] mp_obj_dict_store_def)
qed

theorem dict_refines_map_witness:
  "\<exists>m' c'. mp_obj_dict_store (pyobj_ops (\<lambda>_. 0)) (mp_map_init 0, replicate 128 0) (Qstr [120]) (Obj (Small_Int 1)) =
      Some ((m', c'), Inr ()) \<and> dict_wf (pyobj_ops (\<lambda>_. 0)) m' \<and>
    (\<forall>y. map_get (pyobj_ops (\<lambda>_. 0)) m' y =
      (if same (pyobj_ops (\<lambda>_. 0)) (Qstr [120]) y then Some (Obj (Small_Int 1))
       else map_get (pyobj_ops (\<lambda>_. 0)) (mp_map_init 0) y))"
  using dict_refines_map [of "pyobj_ops (\<lambda>_. 0)" "mp_map_init 0" "Small_Int 0" None "Obj (Small_Int 1)"
      "replicate 128 0" "Qstr [120]"]
  by (simp add: py.key_ops_axioms py.dict_init_wf py.init_fields dict_default_def)

text \<open>
  \<^verbatim>\<open>popitem\<close> on a non-empty dictionary returns one of its entries and removes exactly
  that one; on an ordered dictionary it is the entry that was inserted last.
\<close>

theorem dict_popitem_correct:
  assumes "key_ops ops" "dict_wf ops m" "\<not> is_fixed m" "used m \<noteq> 0"
  shows "\<exists>m' k v i. dict_popitem (m, c) = Some ((m', c), Inr (Obj k, v)) \<and> dict_wf ops m' \<and>
    used m = used m' + 1 \<and> map_get ops m k = Some v \<and>
    (\<forall>y. map_get ops m' y = (if same ops k y then None else map_get ops m y)) \<and>
    i < alloc m \<and> ekey (table m ! i) = Obj k \<and> (is_ordered m \<longrightarrow> i = used m - 1)"
  using key_ops.dict_popitem_ok [OF assms] .

theorem dict_popitem_correct_witness:
  "\<exists>m' k v i. dict_popitem (example_ordered, []) = Some ((m', []), Inr (Obj k, v)) \<and>
    dict_wf (pyobj_ops (\<lambda>_. 0)) m' \<and>
    used example_ordered = used m' + 1 \<and> map_get (pyobj_ops (\<lambda>_. 0)) example_ordered k = Some v \<and>
    (\<forall>y. map_get (pyobj_ops (\<lambda>_. 0)) m' y =
      (if same (pyobj_ops (\<lambda>_. 0)) k y then None else map_get (pyobj_ops (\<lambda>_. 0)) example_ordered y)) \<and>
    i < alloc example_ordered \<and> ekey (table example_ordered ! i) = Obj k \<and>
    (is_ordered example_ordered \<longrightarrow> i = used example_ordered - 1)"
  by (rule dict_popitem_correct)
    (simp_all add: py.key_ops_axioms dict_wf_def example_ordered_wf, simp_all add: example_ordered_def null_elem_def)

text \<open>
  C18. \<^verbatim>\<open>update\<close> from another dictionary overrides with its bindings; from an iterable of
  pairs the last pair for a key wins, and an item that is not a pair raises
  \<^verbatim>\<open>ValueError\<close> after the pairs before it have been stored.
\<close>

theorem dict_update_correct:
  assumes "key_ops ops" "dict_wf ops m" "\<not> is_fixed m" "dict_wf ops other"
  shows "(\<exists>d'. dict_update ops (m, c) (Other_Dict other) (mp_map_init_fixed_table []) = Some (d', Inr ()) \<and>
      dict_wf ops (fst d') \<and>
      (\<forall>y. map_get ops (fst d') y = (case map_get ops other y of None \<Rightarrow> map_get ops m y | Some v \<Rightarrow> Some v))) \<and>
    (\<exists>d'. dict_update ops (m, c) (Items items) (mp_map_init_fixed_table []) =
        Some (d', if list_all (\<lambda>i. length i = 2) items then Inr () else Inl Value_Error_Length) \<and>
      dict_wf ops (fst d') \<and>
      (\<forall>y. map_get ops (fst d') y =
         (case find (\<lambda>i. same ops (i ! 0) y) (rev (takeWhile (\<lambda>i. length i = 2) items)) of
            None \<Rightarrow> map_get ops m y | Some i \<Rightarrow> Some (Obj (i ! 1)))))"
  using key_ops.update_dict_ok [OF assms] key_ops.update_items_ok [OF assms(1-3)] by blast

theorem dict_update_correct_witness:
  "\<exists>d'. dict_update (pyobj_ops (\<lambda>_. 0)) (mp_map_init 2, replicate 128 0) (Other_Dict example_ordered)
      (mp_map_init_fixed_table []) = Some (d', Inr ()) \<and> dict_wf (pyobj_ops (\<lambda>_. 0)) (fst d') \<and>
    (\<forall>y. map_get (pyobj_ops (\<lambda>_. 0)) (fst d') y =
      (case map_get (pyobj_ops (\<lambda>_. 0)) example_ordered y of
         None \<Rightarrow> map_get (pyobj_ops (\<lambda>_. 0)) (mp_map_init 2) y | Some v \<Rightarrow> Some v))"
proof -
  have "dict_wf (pyobj_ops (\<lambda>_. 0)) example_ordered"
    using example_ordered_wf by (simp add: dict_wf_def) (simp add: example_ordered_def null_elem_def)
  then show ?thesis
    by (rule dict_update_correct [THEN conjunct1, OF py.key_ops_axioms py.dict_init_wf py.init_fields(4)])
qed

text \<open>
  C16. Comparing two dictionaries terminates and decides equality of finite maps: the same
  keys, with equal values, although the loop only looks up the keys of one side.
\<close>

theorem dict_equal_correct:
  assumes "key_ops ops" "dict_wf ops m" "dict_wf ops rhs"
  shows "\<exists>c'. dict_equal ops c m rhs =
    Some (c', \<forall>x. rel_option (value_equal ops) (map_get ops m x) (map_get ops rhs x))"
  using key_ops.dict_equal_ok [OF assms] .

theorem dict_equal_correct_witness:
  "\<exists>c'. dict_equal (pyobj_ops (\<lambda>_. 0)) [] (mp_map_init 2) (mp_map_init 4) =
    Some (c', \<forall>x. rel_option (value_equal (pyobj_ops (\<lambda>_. 0))) (map_get (pyobj_ops (\<lambda>_. 0)) (mp_map_init 2) x)
      (map_get (pyobj_ops (\<lambda>_. 0)) (mp_map_init 4) x))"
  by (rule dict_equal_correct) (simp_all add: py.key_ops_axioms py.dict_init_wf)

end
