(* ===== verification/Mp_Set.thy ===== *)
theory Mp_Set
  imports Objects
begin

text \<open>
  The hash set of \<^verbatim>\<open>py/map.c\<close>.  It is the table of a map without values; a lookup may be
  asked to add and to remove in one call.  As for maps, \<open>None\<close> is an operation that does not
  return.
\<close>

section \<open>Model\<close>

record 'o mp_set =
  s_used :: nat
  s_alloc :: nat
  s_table :: "'o obj list"

definition mp_set_init :: "nat \<Rightarrow> 'o mp_set" where
  "mp_set_init n = \<lparr>s_used = 0, s_alloc = n, s_table = replicate n MP_OBJ_NULL\<rparr>"

text \<open>The bits of the kind of a lookup.\<close>

fun kind_adds :: "lookup_kind \<Rightarrow> bool" where
  "kind_adds MP_MAP_LOOKUP = False"
| "kind_adds MP_MAP_LOOKUP_ADD_IF_NOT_FOUND = True"
| "kind_adds MP_MAP_LOOKUP_REMOVE_IF_FOUND = False"
| "kind_adds MP_MAP_LOOKUP_ADD_IF_NOT_FOUND_OR_REMOVE_IF_FOUND = True"

fun kind_removes :: "lookup_kind \<Rightarrow> bool" where
  "kind_removes MP_MAP_LOOKUP = False"
| "kind_removes MP_MAP_LOOKUP_ADD_IF_NOT_FOUND = False"
| "kind_removes MP_MAP_LOOKUP_REMOVE_IF_FOUND = True"
| "kind_removes MP_MAP_LOOKUP_ADD_IF_NOT_FOUND_OR_REMOVE_IF_FOUND = True"

definition set_delete_at :: "'o mp_set \<Rightarrow> nat \<Rightarrow> 'o mp_set" where
  "set_delete_at s pos = s\<lparr>s_used := s_used s - 1,
     s_table := (s_table s)[pos := deleted_key (s_table s) pos]\<rparr>"

definition set_add_at :: "'o mp_set \<Rightarrow> nat \<Rightarrow> 'o \<Rightarrow> 'o mp_set" where
  "set_add_at s pos index = s\<lparr>s_used := s_used s + 1, s_table := (s_table s)[pos := Obj index]\<rparr>"

function (sequential) mp_set_lookup ::
    "nat \<Rightarrow> 'o obj_ops \<Rightarrow> 'o mp_set \<Rightarrow> 'o \<Rightarrow> lookup_kind \<Rightarrow> ('o mp_set \<times> 'o obj) option"
  and set_search ::
    "nat \<Rightarrow> 'o obj_ops \<Rightarrow> 'o mp_set \<Rightarrow> 'o \<Rightarrow> lookup_kind \<Rightarrow> ('o mp_set \<times> 'o obj) option"
  and mp_set_rehash :: "nat \<Rightarrow> 'o obj_ops \<Rightarrow> 'o mp_set \<Rightarrow> 'o mp_set option"
  and set_reinsert :: "nat \<Rightarrow> 'o obj_ops \<Rightarrow> 'o obj list \<Rightarrow> 'o mp_set \<Rightarrow> 'o mp_set option" where
  "mp_set_lookup 0 ops s index kind = None"
| "mp_set_lookup (Suc n) ops s index kind =
    (if s_alloc s = 0 then
       if kind_adds kind then
         (case mp_set_rehash n ops s of
            None \<Rightarrow> None
          | Some s' \<Rightarrow> set_search n ops s' index kind)
       else Some (s, MP_OBJ_NULL)
     else set_search n ops s index kind)"
| "set_search 0 ops s index kind = None"
| "set_search (Suc n) ops s index kind =
    (case probe (\<lambda>elem. obj_equal ops elem index) (s_table s) (obj_hash ops index) of
       None \<Rightarrow> None
     | Some (Found pos) \<Rightarrow>
         Some (if kind_removes kind then set_delete_at s pos else s, s_table s ! pos)
     | Some (Empty_Slot pos avail) \<Rightarrow>
         if kind_adds kind
         then Some (set_add_at s (case avail of None \<Rightarrow> pos | Some q \<Rightarrow> q) index, Obj index)
         else Some (s, MP_OBJ_NULL)
     | Some (Wrapped avail) \<Rightarrow>
         if kind_adds kind
         then (case avail of
                 Some q \<Rightarrow> Some (set_add_at s q index, Obj index)
               | None \<Rightarrow>
                   (case mp_set_rehash n ops s of
                      None \<Rightarrow> None
                    | Some s' \<Rightarrow> set_search n ops s' index kind))
         else Some (s, MP_OBJ_NULL))"
| "mp_set_rehash 0 ops s = None"
| "mp_set_rehash (Suc n) ops s =
    (let new_alloc = get_hash_alloc_greater_or_equal_to (s_alloc s + 1)
     in set_reinsert n ops (s_table s)
          (s\<lparr>s_alloc := new_alloc, s_used := 0, s_table := replicate new_alloc MP_OBJ_NULL\<rparr>))"
| "set_reinsert n ops [] s = Some s"
| "set_reinsert n ops (elem # elems) s =
    (case elem of
       Obj k \<Rightarrow>
         (case mp_set_lookup n ops s k MP_MAP_LOOKUP_ADD_IF_NOT_FOUND of
            None \<Rightarrow> None
          | Some (s', r) \<Rightarrow> set_reinsert n ops elems s')
     | _ \<Rightarrow> set_reinsert n ops elems s)"
  by pat_completeness simp_all
termination
  by (relation "measures [\<lambda>x. case x of
         Inl (Inl (n, _)) \<Rightarrow> n | Inl (Inr (n, _)) \<Rightarrow> n
       | Inr (Inl (n, _)) \<Rightarrow> n | Inr (Inr (n, _)) \<Rightarrow> n,
     \<lambda>x. case x of Inr (Inr (_, _, es, _)) \<Rightarrow> length es | _ \<Rightarrow> 0]") auto

fun first_filled :: "nat \<Rightarrow> 'o obj list \<Rightarrow> nat option" where
  "first_filled pos [] = None"
| "first_filled pos (elem # elems) = (if is_filled elem then Some pos else first_filled (pos + 1) elems)"

definition mp_set_remove_first :: "'o mp_set \<Rightarrow> 'o mp_set \<times> 'o obj" where
  "mp_set_remove_first s =
    (case first_filled 0 (s_table s) of
       Some pos \<Rightarrow> (set_delete_at s pos, s_table s ! pos)
     | None \<Rightarrow> (s, MP_OBJ_NULL))"

definition mp_set_clear :: "'o mp_set \<Rightarrow> 'o mp_set" where
  "mp_set_clear s = s\<lparr>s_alloc := 0, s_used := 0, s_table := []\<rparr>"

section \<open>Contents and invariant\<close>

definition set_mem :: "'o obj_ops \<Rightarrow> 'o mp_set \<Rightarrow> 'o \<Rightarrow> bool" where
  "set_mem ops s x = list_ex (holds_key ops x) (s_table s)"

definition set_wf :: "'o obj_ops \<Rightarrow> 'o mp_set \<Rightarrow> bool" where
  "set_wf ops s \<longleftrightarrow> length (s_table s) = s_alloc s \<and> s_used s = filled_count (s_table s) \<and>
     hash_inv ops (s_table s)"

definition set_spec ::
  "'o obj_ops \<Rightarrow> 'o mp_set \<Rightarrow> 'o \<Rightarrow> lookup_kind \<Rightarrow> 'o mp_set \<Rightarrow> 'o obj \<Rightarrow> bool" where
  "set_spec ops s x kind s' r \<longleftrightarrow> set_wf ops s' \<and>
    (if set_mem ops s x then
       holds_key ops x r \<and>
       (if kind_removes kind
        then s_used s = s_used s' + 1 \<and> (\<forall>y. set_mem ops s' y \<longleftrightarrow> set_mem ops s y \<and> \<not> same ops x y)
        else s' = s)
     else if kind_adds kind
       then r = Obj x \<and> s_used s' = s_used s + 1 \<and>
         (\<forall>y. set_mem ops s' y \<longleftrightarrow> set_mem ops s y \<or> same ops x y)
       else s' = s \<and> r = MP_OBJ_NULL)"

lemma set_mem_nth: "set_mem ops s x \<longleftrightarrow> (\<exists>i<length (s_table s). holds_key ops x (s_table s ! i))"
  by (auto simp: set_mem_def list_ex_length)

lemma set_init_fields [simp]:
  "s_alloc (mp_set_init n) = n" "s_used (mp_set_init n) = 0"
  by (simp_all add: mp_set_init_def)

context hashable
begin

lemma set_delete_ok:
  assumes wf: "set_wf ops s" and p: "p < s_alloc s" "s_table s ! p = Obj k" "same ops k x"
  shows "set_wf ops (set_delete_at s p)" "s_used s = s_used (set_delete_at s p) + 1"
    "set_mem ops (set_delete_at s p) y \<longleftrightarrow> set_mem ops s y \<and> \<not> same ops x y"
proof -
  let ?d = "deleted_key (s_table s) p"
  have len: "length (s_table s) = s_alloc s" and inv: "hash_inv ops (s_table s)"
    using wf by (auto simp: set_wf_def)
  have d: "\<not> is_filled ?d" "\<not> holds_key ops y ?d" for y by (auto simp: deleted_key_def)
  have count: "filled_count ((s_table s)[p := ?d]) + 1 = filled_count (s_table s)"
    using filled_count_update [of p "s_table s" ?d] p len d by simp
  then show "set_wf ops (set_delete_at s p)" "s_used s = s_used (set_delete_at s p) + 1"
    using wf delete_inv [OF inv, of p] p len by (auto simp: set_wf_def set_delete_at_def)
  have only: "j = p \<longleftrightarrow> same ops x y" if "j < length (s_table s)" "holds_key ops y (s_table s ! j)" for j
  proof
    assume "j = p"
    then show "same ops x y" using that p same_sym same_trans by (metis holds_key.simps(1))
  next
    assume "same ops x y"
    then have "same ops k y" using p(3) same_trans by blast
    then show "j = p"
      using unique_slot [of "s_table s" p j k y] inv p len that by (simp add: hash_inv_def)
  qed
  have "holds_key ops y ((s_table s)[p := ?d] ! j) \<longleftrightarrow> holds_key ops y (s_table s ! j) \<and> j \<noteq> p"
    if "j < length (s_table s)" for j
    using that d p len by (cases "j = p") auto
  then show "set_mem ops (set_delete_at s p) y \<longleftrightarrow> set_mem ops s y \<and> \<not> same ops x y"
    using only by (auto simp: set_mem_nth set_delete_at_def)
qed

lemma set_add_ok:
  assumes wf: "set_wf ops s" "0 < s_alloc s" and new: "\<not> set_mem ops s x"
    and r: "probe_result hit (s_table s) (obj_hash ops x mod length (s_table s)) r"
    and p: "r = Empty_Slot p0 None \<and> p = p0 \<or> r = Empty_Slot p0 (Some p) \<or> r = Wrapped (Some p)"
    and "kind_adds kind"
  shows "set_spec ops s x kind (set_add_at s p x) (Obj x)"
proof -
  have ne: "s_table s \<noteq> []" and len: "length (s_table s) = s_alloc s" and inv: "hash_inv ops (s_table s)"
    using wf by (auto simp: set_wf_def)
  note slot = insert_slot [OF ne r p]
  have "hash_inv ops ((s_table s)[p := Obj x])"
  proof (rule insert_inv [OF inv slot(1,2)])
    show "\<not> same ops k x" if "j < length (s_table s)" "s_table s ! j = Obj k" for j k
      using new that by (auto simp: set_mem_nth)
  qed (use slot in auto)
  moreover have "filled_count ((s_table s)[p := Obj x]) = filled_count (s_table s) + 1"
    using filled_count_update [OF slot(1), of "Obj x"] slot(2) by simp
  ultimately have "set_wf ops (set_add_at s p x)"
    using wf by (simp add: set_wf_def set_add_at_def)
  moreover have "set_mem ops (set_add_at s p x) y \<longleftrightarrow> set_mem ops s y \<or> same ops x y" for y
  proof -
    have "\<not> holds_key ops y (s_table s ! p)" using slot(2) by (cases "s_table s ! p") auto
    then show ?thesis
      using slot(1) by (auto simp: set_mem_nth set_add_at_def nth_list_update split: if_splits)
  qed
  ultimately show ?thesis using new assms(6) by (auto simp: set_spec_def set_add_at_def)
qed

lemma set_missing:
  assumes wf: "set_wf ops s"
    and r: "probe_result (\<lambda>e. obj_equal ops e x) (s_table s) (obj_hash ops x mod length (s_table s)) r"
      "\<forall>p. r \<noteq> Found p"
  shows "\<not> set_mem ops s x"
proof
  assume "set_mem ops s x"
  then obtain j k where j: "j < length (s_table s)" "s_table s ! j = Obj k" "same ops k x"
    by (auto simp: set_mem_nth elim!: holds_key.elims)
  then show False
    using missing_key [OF _ j _ r] wf by (auto simp: set_wf_def hash_inv_def same_equal)
qed

lemma set_search_ok:
  assumes wf: "set_wf ops s" "0 < s_alloc s"
    and room: "kind_adds kind \<Longrightarrow> s_used s < s_alloc s \<or> set_mem ops s x"
  shows "\<exists>s' r. set_search (Suc n) ops s x kind = Some (s', r) \<and> set_spec ops s x kind s' r \<and>
    s_alloc s' = s_alloc s"
proof -
  have ne: "s_table s \<noteq> []" and len: "length (s_table s) = s_alloc s"
    using wf by (auto simp: set_wf_def)
  obtain r where r: "probe (\<lambda>e. obj_equal ops e x) (s_table s) (obj_hash ops x) = Some r"
    "probe_result (\<lambda>e. obj_equal ops e x) (s_table s) (obj_hash ops x mod length (s_table s)) r"
    using probe_ends [OF ne] by blast
  show ?thesis
  proof (cases r)
    case (Found p)
    then obtain k where k: "p < s_alloc s" "s_table s ! p = Obj k" "same ops k x"
      using r(2) len by (auto simp: same_equal)
    then have "set_mem ops s x" using len by (auto simp: set_mem_nth)
    then have "set_spec ops s x kind (if kind_removes kind then set_delete_at s p else s) (s_table s ! p)"
      using set_delete_ok [OF wf(1) k] k wf(1) by (simp add: set_spec_def)
    then show ?thesis using r(1) Found by (simp add: set_delete_at_def)
  next
    case (Empty_Slot p avail)
    then have new: "\<not> set_mem ops s x" using set_missing [OF wf(1) r(2)] by simp
    let ?q = "case avail of None \<Rightarrow> p | Some q \<Rightarrow> q"
    have "r = Empty_Slot p None \<and> ?q = p \<or> r = Empty_Slot p (Some ?q) \<or> r = Wrapped (Some ?q)"
      using Empty_Slot by (cases avail) auto
    then show ?thesis
      using set_add_ok [OF wf new r(2)] new r(1) Empty_Slot wf(1)
      by (auto simp: set_spec_def set_add_at_def)
  next
    case (Wrapped avail)
    then have new: "\<not> set_mem ops s x" using set_missing [OF wf(1) r(2)] by simp
    have "avail \<noteq> None" if "kind_adds kind"
      using that Wrapped r(2) full_when_wrapped [OF ne] room new wf len
      by (cases avail) (auto simp: set_wf_def)
    then show ?thesis
      using set_add_ok [OF wf new r(2), of 0] new r(1) Wrapped wf(1)
      by (auto simp: set_spec_def set_add_at_def split: option.splits)
  qed
qed

lemma set_init_ok: "set_wf ops (mp_set_init n)" "\<not> set_mem ops (mp_set_init n) x"
  by (simp_all add: set_wf_def mp_set_init_def hash_inv_replicate set_mem_nth)

lemma set_used_le: "set_wf ops s \<Longrightarrow> s_used s \<le> s_alloc s"
  using filled_count_le [of "s_table s"] by (simp add: set_wf_def)

lemma set_lookup_no_rehash:
  assumes "set_wf ops s" "kind_adds kind \<Longrightarrow> s_used s < s_alloc s"
  shows "\<exists>s' r. mp_set_lookup (Suc (Suc n)) ops s x kind = Some (s', r) \<and> set_spec ops s x kind s' r \<and>
    s_alloc s' = s_alloc s"
proof (cases "s_alloc s = 0")
  case True
  then have "\<not> set_mem ops s x" using assms(1) by (simp add: set_mem_def set_wf_def)
  then show ?thesis using True assms by (auto simp: set_spec_def)
next
  case False
  then show ?thesis using set_search_ok [of s kind x n] assms by (simp del: set_search.simps)
qed

lemma set_reinsert_ok:
  assumes "set_wf ops s" "s_used s + filled_count es \<le> s_alloc s" "no_duplicates ops es"
    and "\<And>k. Obj k \<in> set es \<Longrightarrow> \<not> set_mem ops s k"
  shows "\<exists>s'. set_reinsert (Suc (Suc n)) ops es s = Some s' \<and> set_wf ops s' \<and> s_alloc s' = s_alloc s \<and>
    s_used s' = s_used s + filled_count es \<and>
    (\<forall>y. set_mem ops s' y \<longleftrightarrow> set_mem ops s y \<or> list_ex (holds_key ops y) es)"
  using assms
proof (induction es arbitrary: s)
  case Nil
  then show ?case by (simp add: filled_count_def)
next
  case (Cons e es)
  have nd: "no_duplicates ops es" using no_duplicates_Cons(1) Cons.prems(3) .
  show ?case
  proof (cases e)
    case (Obj k)
    have new: "\<not> set_mem ops s k" using Cons.prems(4) [of k] Obj by simp
    have room: "s_used s < s_alloc s" "s_used s + 1 + filled_count es \<le> s_alloc s"
      using Cons.prems(2) Obj by (auto simp: filled_count_def)
    obtain s1 r where l: "mp_set_lookup (Suc (Suc n)) ops s k MP_MAP_LOOKUP_ADD_IF_NOT_FOUND = Some (s1, r)"
      "set_spec ops s k MP_MAP_LOOKUP_ADD_IF_NOT_FOUND s1 r" "s_alloc s1 = s_alloc s"
      using set_lookup_no_rehash [OF Cons.prems(1), of MP_MAP_LOOKUP_ADD_IF_NOT_FOUND n k] room by blast
    then have s1: "set_wf ops s1" "s_used s1 = s_used s + 1"
      "\<And>y. set_mem ops s1 y \<longleftrightarrow> set_mem ops s y \<or> same ops k y"
      using new by (auto simp: set_spec_def)
    have fresh: "\<not> set_mem ops s1 l" if "Obj l \<in> set es" for l
      using that s1(3) [of l] Cons.prems(3,4) no_duplicates_Cons(2) [of e es k l] Obj same_sym by auto
    have "\<exists>s'. set_reinsert (Suc (Suc n)) ops es s1 = Some s' \<and> set_wf ops s' \<and> s_alloc s' = s_alloc s1 \<and>
      s_used s' = s_used s1 + filled_count es \<and>
      (\<forall>y. set_mem ops s' y \<longleftrightarrow> set_mem ops s1 y \<or> list_ex (holds_key ops y) es)"
      using s1 l(3) room nd fresh by (intro Cons.IH) auto
    then show ?thesis
      using l s1 Obj by (auto simp: filled_count_def simp del: mp_set_lookup.simps)
  next
    case MP_OBJ_NULL
    then show ?thesis using Cons.IH [OF Cons.prems(1) _ nd] Cons.prems(2,4) by (simp add: filled_count_def)
  next
    case MP_OBJ_SENTINEL
    then show ?thesis using Cons.IH [OF Cons.prems(1) _ nd] Cons.prems(2,4) by (simp add: filled_count_def)
  qed
qed

lemma set_rehash_ok:
  assumes wf: "set_wf ops s"
  shows "\<exists>s'. mp_set_rehash (Suc (Suc (Suc n))) ops s = Some s' \<and> set_wf ops s' \<and> s_alloc s < s_alloc s' \<and>
    s_used s' = s_used s \<and> (\<forall>y. set_mem ops s' y = set_mem ops s y)"
proof -
  let ?n = "get_hash_alloc_greater_or_equal_to (s_alloc s + 1)"
  let ?s = "s\<lparr>s_alloc := ?n, s_used := 0, s_table := replicate ?n MP_OBJ_NULL\<rparr>"
  have n: "s_alloc s < ?n" using get_hash_alloc_ge [of "s_alloc s + 1"] by simp
  have s: "?s = mp_set_init ?n" by (cases s) (simp add: mp_set_init_def)
  have used: "filled_count (s_table s) = s_used s" "no_duplicates ops (s_table s)"
    using wf by (simp_all add: set_wf_def hash_inv_def)
  have "\<exists>s'. set_reinsert (Suc (Suc n)) ops (s_table s) ?s = Some s' \<and> set_wf ops s' \<and>
    s_alloc s' = s_alloc ?s \<and> s_used s' = s_used ?s + filled_count (s_table s) \<and>
    (\<forall>y. set_mem ops s' y \<longleftrightarrow> set_mem ops ?s y \<or> list_ex (holds_key ops y) (s_table s))"
    unfolding s using used(2) set_used_le [OF wf] n
    by (intro set_reinsert_ok) (simp_all add: set_init_ok used(1))
  then show ?thesis
    using n used(1) unfolding s mp_set_rehash.simps Let_def
    by (auto simp: set_init_ok set_mem_def [of _ s] simp del: set_reinsert.simps)
qed

lemma set_add_after_rehash:
  assumes wf: "set_wf ops s" and k: "kind_adds kind" and new: "\<not> set_mem ops s x"
  shows "\<exists>s1 s' r. mp_set_rehash (Suc (Suc (Suc n))) ops s = Some s1 \<and>
    set_search (Suc (Suc (Suc n))) ops s1 x kind = Some (s', r) \<and> set_spec ops s x kind s' r"
proof -
  obtain s1 where r: "mp_set_rehash (Suc (Suc (Suc n))) ops s = Some s1" "set_wf ops s1"
    "s_alloc s < s_alloc s1" "s_used s1 = s_used s" "\<And>y. set_mem ops s1 y = set_mem ops s y"
    using set_rehash_ok [OF wf, of n] by blast
  then have "0 < s_alloc s1" "s_used s1 < s_alloc s1" using set_used_le [OF wf] by auto
  then show ?thesis
    using set_search_ok [of s1 kind x "Suc (Suc n)"] r k new by (fastforce simp: set_spec_def simp del: set_search.simps)
qed

lemma set_search_any:
  assumes wf: "set_wf ops s" "0 < s_alloc s"
  shows "\<exists>s' r. set_search (Suc (Suc (Suc (Suc n)))) ops s x kind = Some (s', r) \<and> set_spec ops s x kind s' r"
proof (cases "kind_adds kind \<longrightarrow> s_used s < s_alloc s \<or> set_mem ops s x")
  case True
  then show ?thesis using set_search_ok [OF wf, of kind x "Suc (Suc (Suc n))"] by blast
next
  case False
  then have full: "kind_adds kind" "s_used s = s_alloc s" "\<not> set_mem ops s x"
    using set_used_le [OF wf(1)] by auto
  have ne: "s_table s \<noteq> []" and filled: "is_filled (s_table s ! p)" if "p < length (s_table s)" for p
    using wf full full_all_filled [of "s_table s" p] that by (auto simp: set_wf_def)
  have ne: "s_table s \<noteq> []" using wf by (auto simp: set_wf_def)
  obtain r where r: "probe (\<lambda>e. obj_equal ops e x) (s_table s) (obj_hash ops x) = Some r"
    "probe_result (\<lambda>e. obj_equal ops e x) (s_table s) (obj_hash ops x mod length (s_table s)) r"
    using probe_ends [OF ne] by blast
  have "r = Wrapped None"
  proof (cases r)
    case (Found p)
    then show ?thesis using r(2) full(3) by (auto simp: set_mem_nth same_equal)
  next
    case (Empty_Slot p avail)
    then show ?thesis using insert_slot [OF ne r(2)] filled by (cases avail) auto
  next
    case (Wrapped avail)
    then show ?thesis using insert_slot [OF ne r(2)] filled by (cases avail) auto
  qed
  then show ?thesis
    using set_add_after_rehash [OF wf(1) full(1,3), of n] full(1) r(1)
    unfolding set_search.simps(2) [of "Suc (Suc (Suc n))"]
    by (auto simp del: mp_set_rehash.simps set_search.simps)
qed

lemma set_lookup_ok:
  assumes wf: "set_wf ops s" and n: "5 \<le> n"
  shows "\<exists>s' r. mp_set_lookup n ops s x kind = Some (s', r) \<and> set_spec ops s x kind s' r"
proof -
  have "n = Suc (Suc (Suc (Suc (Suc (n - 5)))))" using n by simp
  then obtain k where k: "n = Suc (Suc (Suc (Suc (Suc k))))" by blast
  show ?thesis
  proof (cases "s_alloc s = 0")
    case True
    then have new: "\<not> set_mem ops s x" using wf by (simp add: set_mem_def set_wf_def)
    then show ?thesis
      using True wf k set_add_after_rehash [OF wf _ new, of kind "Suc k"]
      by (cases "kind_adds kind")
        (auto simp: set_spec_def simp del: mp_set_rehash.simps set_search.simps)
  next
    case False
    then show ?thesis using set_search_any [OF wf, of k x kind] k by (simp del: set_search.simps)
  qed
qed

lemma first_filled_Some:
  "first_filled p es = Some q \<Longrightarrow> p \<le> q \<and> q - p < length es \<and> is_filled (es ! (q - p))"
proof (induction es arbitrary: p)
  case (Cons e es)
  show ?case
  proof (cases "is_filled e")
    case False
    then have "p + 1 \<le> q" "q - (p + 1) < length es" "is_filled (es ! (q - (p + 1)))"
      using Cons.IH [of "p + 1"] Cons.prems by auto
    then show ?thesis by (auto simp: nth_Cons')
  qed (use Cons.prems in auto)
qed simp

lemma first_filled_None: "first_filled p es = None \<Longrightarrow> e \<in> set es \<Longrightarrow> \<not> is_filled e"
  by (induction es arbitrary: p) (auto split: if_splits)

lemma remove_first_ok:
  assumes wf: "set_wf ops s" and r: "mp_set_remove_first s = (s', r)"
  shows "set_wf ops s' \<and>
    (if s_used s = 0 then s' = s \<and> r = MP_OBJ_NULL
     else s_used s = s_used s' + 1 \<and>
       (\<exists>k. r = Obj k \<and> set_mem ops s k \<and> (\<forall>y. set_mem ops s' y \<longleftrightarrow> set_mem ops s y \<and> \<not> same ops k y)))"
proof (cases "first_filled 0 (s_table s)")
  case None
  then have "s_used s = 0"
    using wf first_filled_None [OF None] by (auto simp: set_wf_def filled_count_def filter_empty_conv)
  then show ?thesis using wf r None by (auto simp: mp_set_remove_first_def)
next
  case (Some p)
  then have p: "p < length (s_table s)" "is_filled (s_table s ! p)" using first_filled_Some [OF Some] by auto
  then obtain k where k: "s_table s ! p = Obj k" by (cases "s_table s ! p") auto
  have "set_mem ops s k" using p(1) k by (auto simp: set_mem_nth)
  moreover have "r = Obj k" "s' = set_delete_at s p"
    using r Some k by (simp_all add: mp_set_remove_first_def)
  moreover have "p < s_alloc s" using wf p(1) by (simp add: set_wf_def)
  ultimately show ?thesis using set_delete_ok [OF wf _ k same_refl] by simp
qed

end

section \<open>Properties\<close>

text \<open>
  C15. Every set lookup returns, for each of its four kinds.  Adding, removing and the
  combined toggle change membership for exactly the given key, the element returned equals
  it, and the table stays well formed through deletion marks, growth and rehashing.
\<close>

theorem mp_set_lookup_correct:
  assumes "hashable ops" "set_wf ops s" "5 \<le> n"
  shows "\<exists>s' r. mp_set_lookup n ops s x kind = Some (s', r) \<and> set_spec ops s x kind s' r"
  using hashable.set_lookup_ok [OF assms] .

theorem mp_set_lookup_correct_witness:
  "\<exists>s' r. mp_set_lookup 5 (pyobj_ops (\<lambda>_. 0)) (mp_set_init 0) (Qstr [97, 98])
      MP_MAP_LOOKUP_ADD_IF_NOT_FOUND_OR_REMOVE_IF_FOUND = Some (s', r) \<and>
    set_spec (pyobj_ops (\<lambda>_. 0)) (mp_set_init 0) (Qstr [97, 98])
      MP_MAP_LOOKUP_ADD_IF_NOT_FOUND_OR_REMOVE_IF_FOUND s' r"
  by (rule mp_set_lookup_correct) (simp_all add: py.hashable_axioms py.set_init_ok)

text \<open>
  Removing the first element returns null exactly for the empty set; otherwise it
  returns an element of the set and removes exactly that one.
\<close>

theorem mp_set_remove_first_correct:
  assumes "hashable ops" "set_wf ops s" "mp_set_remove_first s = (s', r)"
  shows "set_wf ops s' \<and>
    (if s_used s = 0 then s' = s \<and> r = MP_OBJ_NULL
     else s_used s = s_used s' + 1 \<and>
       (\<exists>k. r = Obj k \<and> set_mem ops s k \<and> (\<forall>y. set_mem ops s' y \<longleftrightarrow> set_mem ops s y \<and> \<not> same ops k y)))"
  using hashable.remove_first_ok [OF assms] .

definition example_set :: "pyobj mp_set" where
  "example_set = \<lparr>s_used = 1, s_alloc = 2, s_table = [MP_OBJ_NULL, Obj (Small_Int 1)]\<rparr>"

theorem mp_set_remove_first_correct_witness:
  "\<exists>s' k. mp_set_remove_first example_set = (s', Obj k) \<and> set_mem (pyobj_ops (\<lambda>_. 0)) example_set k \<and>
    (\<forall>y. set_mem (pyobj_ops (\<lambda>_. 0)) s' y \<longleftrightarrow>
       set_mem (pyobj_ops (\<lambda>_. 0)) example_set y \<and> \<not> same (pyobj_ops (\<lambda>_. 0)) k y)"
proof -
  have "set_wf (pyobj_ops (\<lambda>_. 0)) example_set"
    by (simp add: example_set_def set_wf_def filled_count_def hash_inv_def no_duplicates_def reachable_keys_def
        All_less_Suc numeral_eq_Suc pyobj_ops_def dist_def)
  then show ?thesis
    using mp_set_remove_first_correct [OF py.hashable_axioms, of "\<lambda>_. 0" example_set "fst (mp_set_remove_first example_set)"
        "snd (mp_set_remove_first example_set)"]
    by (auto simp: example_set_def mp_set_remove_first_def)
qed

end
