(* ===== verification/Set_Obj.thy ===== *)
theory Set_Obj
  imports Mp_Set
begin

text \<open>
  The types \<^verbatim>\<open>set\<close> and \<^verbatim>\<open>frozenset\<close> of \<^verbatim>\<open>py/objset.c\<close> on top of the hash set:
  construction, iteration, the methods, the operators and the hash of frozen sets.  The type
  of \<^verbatim>\<open>self\<close> is checked when a method is called, so that \<^verbatim>\<open>check_set\<close> does nothing in this
  configuration.  \<open>None\<close> is an operation that does not return.
\<close>

section \<open>Model\<close>

record 'o set_obj =
  frozen :: bool
  so_set :: "'o mp_set"

datatype 'o set_error = Key_Error_Item 'o | Key_Error_Pop

text \<open>
  An argument: the object \<^verbatim>\<open>self\<close> itself, another set or frozen set, or any other iterable,
  which is the list of the items that it yields.
\<close>

datatype 'o set_arg = Same_Set | Set_Arg "'o set_obj" | Iterable "'o list"

fun is_set_or_frozenset :: "'o set_arg \<Rightarrow> bool" where
  "is_set_or_frozenset (Iterable xs) = False"
| "is_set_or_frozenset a = True"

text \<open>Nested calls of a lookup: growth, reinsertion, and the searches in them.\<close>

definition set_fuel :: nat where "set_fuel = 5"

definition set_lookup :: "'o obj_ops \<Rightarrow> lookup_kind \<Rightarrow> 'o \<Rightarrow> 'o mp_set \<Rightarrow> ('o mp_set \<times> 'o obj) option" where
  "set_lookup ops kind x s = mp_set_lookup set_fuel ops s x kind"

definition set_change :: "'o obj_ops \<Rightarrow> lookup_kind \<Rightarrow> 'o \<Rightarrow> 'o mp_set \<Rightarrow> 'o mp_set option" where
  "set_change ops kind x s = map_option fst (set_lookup ops kind x s)"

subsection \<open>Iteration\<close>

definition set_it_iternext :: "'o mp_set \<Rightarrow> nat \<Rightarrow> ('o \<times> nat) option" where
  "set_it_iternext s cur =
    (case find (\<lambda>i. is_filled (s_table s ! i)) [cur..<s_alloc s] of
       None \<Rightarrow> None
     | Some i \<Rightarrow> (case s_table s ! i of Obj k \<Rightarrow> Some (k, i + 1) | _ \<Rightarrow> None))"

text \<open>An iterator over \<^verbatim>\<open>self\<close> reads the table as it is when the next item is asked for.\<close>

datatype 'o set_iter = Self_Iter nat | Set_Iter "'o mp_set" nat | List_Iter "'o list"

fun set_getiter :: "'o set_arg \<Rightarrow> 'o set_iter" where
  "set_getiter Same_Set = Self_Iter 0"
| "set_getiter (Set_Arg other) = Set_Iter (so_set other) 0"
| "set_getiter (Iterable xs) = List_Iter xs"

fun iternext :: "'o mp_set \<Rightarrow> 'o set_iter \<Rightarrow> ('o \<times> 'o set_iter) option" where
  "iternext s (Self_Iter cur) = map_option (\<lambda>(x, cur). (x, Self_Iter cur)) (set_it_iternext s cur)"
| "iternext s (Set_Iter other cur) = map_option (\<lambda>(x, cur). (x, Set_Iter other cur)) (set_it_iternext other cur)"
| "iternext s (List_Iter []) = None"
| "iternext s (List_Iter (x # xs)) = Some (x, List_Iter xs)"

text \<open>The loop \<^verbatim>\<open>while ((next = mp_iternext(iter)) != MP_OBJ_STOP_ITERATION)\<close> with a body that changes \<^verbatim>\<open>self\<close>.\<close>

partial_function (option) for_iter ::
  "('o \<Rightarrow> 'o mp_set \<Rightarrow> 'o mp_set option) \<Rightarrow> 'o set_iter \<Rightarrow> 'o mp_set \<Rightarrow> 'o mp_set option" where
  "for_iter body it s =
    (case iternext s it of
       None \<Rightarrow> Some s
     | Some (x, it') \<Rightarrow> (case body x s of None \<Rightarrow> None | Some s' \<Rightarrow> for_iter body it' s'))"

text \<open>The same loop on a set that the body does not change, left when the body says so.\<close>

partial_function (option) all_iter ::
  "('o \<Rightarrow> bool option) \<Rightarrow> 'o mp_set \<Rightarrow> 'o set_iter \<Rightarrow> bool option" where
  "all_iter body s it =
    (case iternext s it of
       None \<Rightarrow> Some True
     | Some (x, it') \<Rightarrow> (case body x of None \<Rightarrow> None | Some b \<Rightarrow> if b then all_iter body s it' else Some False))"

subsection \<open>Construction\<close>

definition mp_obj_new_set :: "'o obj_ops \<Rightarrow> 'o list \<Rightarrow> 'o set_obj option" where
  "mp_obj_new_set ops items =
    map_option (\<lambda>s. \<lparr>frozen = False, so_set = s\<rparr>)
      (for_iter (set_change ops MP_MAP_LOOKUP_ADD_IF_NOT_FOUND) (List_Iter items) (mp_set_init (length items)))"

definition mp_obj_set_store :: "'o obj_ops \<Rightarrow> 'o \<Rightarrow> 'o mp_set \<Rightarrow> 'o mp_set option" where
  "mp_obj_set_store ops item s = set_change ops MP_MAP_LOOKUP_ADD_IF_NOT_FOUND item s"

text \<open>The constructor; the type is set at the end.\<close>

definition set_make_new :: "'o obj_ops \<Rightarrow> bool \<Rightarrow> 'o set_arg option \<Rightarrow> 'o set_obj option" where
  "set_make_new ops fr arg =
    (case mp_obj_new_set ops [] of
       None \<Rightarrow> None
     | Some o1 \<Rightarrow>
         (case arg of
            None \<Rightarrow> Some (o1\<lparr>frozen := fr\<rparr>)
          | Some a \<Rightarrow>
              map_option (\<lambda>s. o1\<lparr>frozen := fr, so_set := s\<rparr>)
                (for_iter (mp_obj_set_store ops) (set_getiter a) (so_set o1))))"

subsection \<open>Methods\<close>

definition set_add :: "'o obj_ops \<Rightarrow> 'o set_obj \<Rightarrow> 'o \<Rightarrow> 'o set_obj option" where
  "set_add ops self item =
    map_option (\<lambda>s. self\<lparr>so_set := s\<rparr>) (set_change ops MP_MAP_LOOKUP_ADD_IF_NOT_FOUND item (so_set self))"

definition set_clear :: "'o set_obj \<Rightarrow> 'o set_obj" where
  "set_clear self = self\<lparr>so_set := mp_set_clear (so_set self)\<rparr>"

definition set_copy :: "'o set_obj \<Rightarrow> 'o set_obj" where
  "set_copy self =
    (let set = so_set self
     in \<lparr>frozen = frozen self,
         so_set = (mp_set_init (s_alloc set))\<lparr>s_used := s_used set,
           s_table := blit (s_table (mp_set_init (s_alloc set))) 0 (take (s_alloc set) (s_table set))\<rparr>\<rparr>)"

definition set_discard :: "'o obj_ops \<Rightarrow> 'o set_obj \<Rightarrow> 'o \<Rightarrow> 'o set_obj option" where
  "set_discard ops self item =
    map_option (\<lambda>s. self\<lparr>so_set := s\<rparr>) (set_change ops MP_MAP_LOOKUP_REMOVE_IF_FOUND item (so_set self))"

fun set_diff_args :: "'o obj_ops \<Rightarrow> 'o set_arg list \<Rightarrow> 'o set_obj \<Rightarrow> 'o set_obj option" where
  "set_diff_args ops [] self = Some self"
| "set_diff_args ops (other # args) self =
    (case other of
       Same_Set \<Rightarrow> set_diff_args ops args (set_clear self)
     | _ \<Rightarrow>
         (case for_iter (set_change ops MP_MAP_LOOKUP_REMOVE_IF_FOUND) (set_getiter other) (so_set self) of
            None \<Rightarrow> None
          | Some s \<Rightarrow> set_diff_args ops args (self\<lparr>so_set := s\<rparr>)))"

text \<open>A copy of \<^verbatim>\<open>self\<close> is another object than \<^verbatim>\<open>self\<close>, which then is an argument like the others.\<close>

fun for_copy :: "'o set_obj \<Rightarrow> 'o set_arg \<Rightarrow> 'o set_arg" where
  "for_copy self Same_Set = Set_Arg self"
| "for_copy self a = a"

definition set_diff_int :: "'o obj_ops \<Rightarrow> bool \<Rightarrow> 'o set_obj \<Rightarrow> 'o set_arg list \<Rightarrow> 'o set_obj option" where
  "set_diff_int ops update self args =
    (if update then set_diff_args ops args self
     else set_diff_args ops (map (for_copy self) args) (set_copy self))"

definition set_diff :: "'o obj_ops \<Rightarrow> 'o set_obj \<Rightarrow> 'o set_arg list \<Rightarrow> 'o set_obj option" where
  "set_diff ops self args = set_diff_int ops False self args"

definition set_diff_update :: "'o obj_ops \<Rightarrow> 'o set_obj \<Rightarrow> 'o set_arg list \<Rightarrow> 'o set_obj option" where
  "set_diff_update ops self args = set_diff_int ops True self args"

text \<open>The new value of \<^verbatim>\<open>self\<close>, and the object returned, \<open>None\<close> for \<^verbatim>\<open>mp_const_none\<close>.\<close>

definition intersect_body :: "'o obj_ops \<Rightarrow> 'o mp_set \<Rightarrow> 'o \<Rightarrow> 'o mp_set \<Rightarrow> 'o mp_set option" where
  "intersect_body ops self next out =
    (case set_lookup ops MP_MAP_LOOKUP next self of
       None \<Rightarrow> None
     | Some (_, r) \<Rightarrow>
         if r \<noteq> MP_OBJ_NULL then set_change ops MP_MAP_LOOKUP_ADD_IF_NOT_FOUND next out else Some out)"

definition set_intersect_int ::
  "'o obj_ops \<Rightarrow> bool \<Rightarrow> 'o set_obj \<Rightarrow> 'o set_arg \<Rightarrow> ('o set_obj \<times> 'o set_obj option) option" where
  "set_intersect_int ops update self other =
    (if other = Same_Set then Some (self, if update then None else Some (set_copy self))
     else case mp_obj_new_set ops [] of
         None \<Rightarrow> None
       | Some out \<Rightarrow>
           (case for_iter (intersect_body ops (so_set self)) (set_getiter other) (so_set out) of
              None \<Rightarrow> None
            | Some s \<Rightarrow>
                Some (if update then (self\<lparr>so_set := s\<rparr>, None) else (self, Some (out\<lparr>so_set := s\<rparr>)))))"

definition set_intersect :: "'o obj_ops \<Rightarrow> 'o set_obj \<Rightarrow> 'o set_arg \<Rightarrow> ('o set_obj \<times> 'o set_obj option) option" where
  "set_intersect ops self other = set_intersect_int ops False self other"

definition set_intersect_update :: "'o obj_ops \<Rightarrow> 'o set_obj \<Rightarrow> 'o set_arg \<Rightarrow> ('o set_obj \<times> 'o set_obj option) option" where
  "set_intersect_update ops self other = set_intersect_int ops True self other"

definition set_isdisjoint :: "'o obj_ops \<Rightarrow> 'o set_obj \<Rightarrow> 'o set_arg \<Rightarrow> bool option" where
  "set_isdisjoint ops self other =
    all_iter (\<lambda>next. map_option (\<lambda>(_, r). r = MP_OBJ_NULL) (set_lookup ops MP_MAP_LOOKUP next (so_set self)))
      (so_set self) (set_getiter other)"

text \<open>Arguments that are not sets are converted first, and the set made for them is cleared at the end.\<close>

fun as_set :: "'o obj_ops \<Rightarrow> 'o set_arg \<Rightarrow> 'o set_obj option" where
  "as_set ops (Set_Arg s) = Some s"
| "as_set ops (Iterable xs) = set_make_new ops False (Some (Iterable xs))"
| "as_set ops Same_Set = None"

definition set_issubset_internal :: "'o obj_ops \<Rightarrow> bool \<Rightarrow> 'o set_arg \<Rightarrow> 'o set_arg \<Rightarrow> bool option" where
  "set_issubset_internal ops proper self_in other_in =
    (case as_set ops self_in of
       None \<Rightarrow> None
     | Some self \<Rightarrow>
         (case as_set ops other_in of
            None \<Rightarrow> None
          | Some other \<Rightarrow>
              if proper \<and> s_used (so_set self) = s_used (so_set other) then Some False
              else all_iter (\<lambda>next. map_option (\<lambda>(_, r). r \<noteq> MP_OBJ_NULL)
                       (set_lookup ops MP_MAP_LOOKUP next (so_set other)))
                     (so_set self) (Self_Iter 0)))"

definition set_issubset :: "'o obj_ops \<Rightarrow> 'o set_arg \<Rightarrow> 'o set_arg \<Rightarrow> bool option" where
  "set_issubset ops self other = set_issubset_internal ops False self other"

definition set_issubset_proper :: "'o obj_ops \<Rightarrow> 'o set_arg \<Rightarrow> 'o set_arg \<Rightarrow> bool option" where
  "set_issubset_proper ops self other = set_issubset_internal ops True self other"

definition set_issuperset :: "'o obj_ops \<Rightarrow> 'o set_arg \<Rightarrow> 'o set_arg \<Rightarrow> bool option" where
  "set_issuperset ops self other = set_issubset_internal ops False other self"

definition set_issuperset_proper :: "'o obj_ops \<Rightarrow> 'o set_arg \<Rightarrow> 'o set_arg \<Rightarrow> bool option" where
  "set_issuperset_proper ops self other = set_issubset_internal ops True other self"

definition set_equal :: "'o obj_ops \<Rightarrow> 'o set_obj \<Rightarrow> 'o set_obj \<Rightarrow> bool option" where
  "set_equal ops self other =
    (if s_used (so_set self) \<noteq> s_used (so_set other) then Some False
     else set_issubset ops (Set_Arg self) (Set_Arg other))"

definition set_pop :: "'o set_obj \<Rightarrow> 'o set_obj \<times> ('o set_error + 'o obj)" where
  "set_pop self =
    (case mp_set_remove_first (so_set self) of
       (s, r) \<Rightarrow> (self\<lparr>so_set := s\<rparr>, if r = MP_OBJ_NULL then Inl Key_Error_Pop else Inr r))"

definition set_remove :: "'o obj_ops \<Rightarrow> 'o set_obj \<Rightarrow> 'o \<Rightarrow> ('o set_obj \<times> ('o set_error + unit)) option" where
  "set_remove ops self item =
    (case set_lookup ops MP_MAP_LOOKUP_REMOVE_IF_FOUND item (so_set self) of
       None \<Rightarrow> None
     | Some (s, r) \<Rightarrow>
         Some (self\<lparr>so_set := s\<rparr>, if r = MP_OBJ_NULL then Inl (Key_Error_Item item) else Inr ()))"

definition set_symmetric_difference_update :: "'o obj_ops \<Rightarrow> 'o set_obj \<Rightarrow> 'o set_arg \<Rightarrow> 'o set_obj option" where
  "set_symmetric_difference_update ops self other =
    map_option (\<lambda>s. self\<lparr>so_set := s\<rparr>)
      (for_iter (set_change ops MP_MAP_LOOKUP_ADD_IF_NOT_FOUND_OR_REMOVE_IF_FOUND) (set_getiter other) (so_set self))"

definition set_symmetric_difference :: "'o obj_ops \<Rightarrow> 'o set_obj \<Rightarrow> 'o set_arg \<Rightarrow> 'o set_obj option" where
  "set_symmetric_difference ops self other = set_symmetric_difference_update ops (set_copy self) (for_copy self other)"

definition set_update_int :: "'o obj_ops \<Rightarrow> 'o set_obj \<Rightarrow> 'o set_arg \<Rightarrow> 'o set_obj option" where
  "set_update_int ops self other =
    map_option (\<lambda>s. self\<lparr>so_set := s\<rparr>)
      (for_iter (set_change ops MP_MAP_LOOKUP_ADD_IF_NOT_FOUND) (set_getiter other) (so_set self))"

fun set_update :: "'o obj_ops \<Rightarrow> 'o set_obj \<Rightarrow> 'o set_arg list \<Rightarrow> 'o set_obj option" where
  "set_update ops self [] = Some self"
| "set_update ops self (other # args) =
    (case set_update_int ops self other of None \<Rightarrow> None | Some self' \<Rightarrow> set_update ops self' args)"

definition set_union :: "'o obj_ops \<Rightarrow> 'o set_obj \<Rightarrow> 'o set_arg \<Rightarrow> 'o set_obj option" where
  "set_union ops self other = set_update_int ops (set_copy self) (for_copy self other)"

subsection \<open>Operators\<close>

definition set_len :: "'o set_obj \<Rightarrow> nat" where
  "set_len self = s_used (so_set self)"

definition set_bool :: "'o set_obj \<Rightarrow> bool" where
  "set_bool self = (s_used (so_set self) \<noteq> 0)"

text \<open>
  The hash of a frozen set is the sum of the hashes of its elements and the address of the
  type, as a small integer, which drops the top bit.
\<close>

definition frozenset_hash :: "'o obj_ops \<Rightarrow> 32 word \<Rightarrow> 'o set_obj \<Rightarrow> 32 word option" where
  "frozenset_hash ops type_address self =
    (if frozen self
     then Some (push_bit 1 (foldl (\<lambda>hash elem. case elem of Obj k \<Rightarrow> hash + of_nat (obj_hash ops k) | _ \<Rightarrow> hash)
            type_address (s_table (so_set self))) OR 1)
     else None)"

definition set_contains :: "'o obj_ops \<Rightarrow> 'o set_obj \<Rightarrow> 'o \<Rightarrow> bool option" where
  "set_contains ops self x = map_option (\<lambda>(_, r). r \<noteq> MP_OBJ_NULL) (set_lookup ops MP_MAP_LOOKUP x (so_set self))"

datatype set_op =
    OP_OR | OP_XOR | OP_AND | OP_SUBTRACT
  | OP_INPLACE_OR | OP_INPLACE_XOR | OP_INPLACE_AND | OP_INPLACE_SUBTRACT
  | OP_LESS | OP_MORE | OP_EQUAL | OP_LESS_EQUAL | OP_MORE_EQUAL

text \<open>The object returned: none, the left operand itself, a new set, or a truth value.\<close>

datatype 'o set_ret = Unsupported | Lhs | New_Set "'o set_obj" | Truth bool

definition in_place :: "'o set_obj option \<Rightarrow> ('o set_obj \<times> 'o set_ret) option" where
  "in_place r = map_option (\<lambda>lhs. (lhs, Lhs)) r"

definition fresh :: "'o set_obj \<Rightarrow> 'o set_obj option \<Rightarrow> ('o set_obj \<times> 'o set_ret) option" where
  "fresh lhs r = map_option (\<lambda>s. (lhs, New_Set s)) r"

definition truth :: "'o set_obj \<Rightarrow> bool option \<Rightarrow> ('o set_obj \<times> 'o set_ret) option" where
  "truth lhs r = map_option (\<lambda>b. (lhs, Truth b)) r"

fun the_set :: "'o set_obj \<Rightarrow> 'o set_arg \<Rightarrow> 'o set_obj" where
  "the_set lhs (Set_Arg s) = s"
| "the_set lhs a = lhs"

definition set_binary_op :: "'o obj_ops \<Rightarrow> set_op \<Rightarrow> 'o set_obj \<Rightarrow> 'o set_arg \<Rightarrow> ('o set_obj \<times> 'o set_ret) option" where
  "set_binary_op ops op lhs rhs =
    (if \<not> is_set_or_frozenset rhs then Some (lhs, Unsupported)
     else
       let update = \<not> frozen lhs; l = Set_Arg lhs; r = Set_Arg (the_set lhs rhs)
       in case op of
            OP_OR \<Rightarrow> fresh lhs (set_union ops lhs rhs)
          | OP_XOR \<Rightarrow> fresh lhs (set_symmetric_difference ops lhs rhs)
          | OP_AND \<Rightarrow> (case set_intersect ops lhs rhs of
                None \<Rightarrow> None | Some (_, out) \<Rightarrow> fresh lhs out)
          | OP_SUBTRACT \<Rightarrow> fresh lhs (set_diff ops lhs [rhs])
          | OP_INPLACE_OR \<Rightarrow>
              if update then in_place (set_update ops lhs [rhs]) else fresh lhs (set_union ops lhs rhs)
          | OP_INPLACE_XOR \<Rightarrow>
              if update then in_place (set_symmetric_difference_update ops lhs rhs)
              else fresh lhs (set_symmetric_difference ops lhs rhs)
          | OP_INPLACE_AND \<Rightarrow> (case set_intersect_int ops update lhs rhs of
                None \<Rightarrow> None | Some (lhs', out) \<Rightarrow> if update then in_place (Some lhs') else fresh lhs out)
          | OP_INPLACE_SUBTRACT \<Rightarrow>
              if update then in_place (set_diff_int ops True lhs [rhs])
              else fresh lhs (set_diff_int ops False lhs [rhs])
          | OP_LESS \<Rightarrow> truth lhs (set_issubset_proper ops l r)
          | OP_MORE \<Rightarrow> truth lhs (set_issuperset_proper ops l r)
          | OP_EQUAL \<Rightarrow> truth lhs (set_equal ops lhs (the_set lhs rhs))
          | OP_LESS_EQUAL \<Rightarrow> truth lhs (set_issubset ops l r)
          | OP_MORE_EQUAL \<Rightarrow> truth lhs (set_issuperset ops l r))"

section \<open>Loops over iterators\<close>

fun fold_opt :: "('x \<Rightarrow> 's \<Rightarrow> 's option) \<Rightarrow> 'x list \<Rightarrow> 's \<Rightarrow> 's option" where
  "fold_opt body [] s = Some s"
| "fold_opt body (x # xs) s = (case body x s of None \<Rightarrow> None | Some s' \<Rightarrow> fold_opt body xs s')"

fun the_key :: "'o obj \<Rightarrow> 'o" where
  "the_key (Obj k) = k"

definition keys_of :: "'o obj list \<Rightarrow> 'o list" where
  "keys_of es = map the_key (filter is_filled es)"

abbreviation set_elems :: "'o mp_set \<Rightarrow> 'o list" where
  "set_elems s \<equiv> keys_of (s_table s)"

lemma keys_of_simps [simp]:
  "keys_of [] = []" "keys_of (Obj k # es) = k # keys_of es"
  "keys_of (MP_OBJ_NULL # es) = keys_of es" "keys_of (MP_OBJ_SENTINEL # es) = keys_of es"
  by (simp_all add: keys_of_def)

lemma length_keys_of [simp]: "length (keys_of es) = filled_count es"
  by (simp add: keys_of_def filled_count_def)

lemma in_keys_of: "k \<in> set (keys_of es) \<longleftrightarrow> Obj k \<in> set es"
proof (induction es)
  case (Cons e es)
  then show ?case by (cases e) auto
qed simp

lemma set_it_iternext_None:
  assumes "length (s_table s) = s_alloc s" "set_it_iternext s cur = None"
  shows "keys_of (drop cur (s_table s)) = []"
proof -
  have "find (\<lambda>i. is_filled (s_table s ! i)) [cur..<s_alloc s] = None"
  proof (rule ccontr)
    assume "find (\<lambda>i. is_filled (s_table s ! i)) [cur..<s_alloc s] \<noteq> None"
    then obtain i where i: "find (\<lambda>i. is_filled (s_table s ! i)) [cur..<s_alloc s] = Some i" by blast
    then have "is_filled (s_table s ! i)" using find_Some_in by metis
    then show False using i assms(2) by (cases "s_table s ! i") (simp_all add: set_it_iternext_def)
  qed
  then show ?thesis using assms(1) by (auto simp: find_None_iff keys_of_def filter_empty_conv in_set_conv_nth)
qed

lemma set_it_iternext_Some:
  assumes "length (s_table s) = s_alloc s" "set_it_iternext s cur = Some (k, cur')"
  shows "\<exists>i. cur \<le> i \<and> i < s_alloc s \<and> cur' = Suc i \<and> s_table s ! i = Obj k \<and>
    (\<forall>j. cur \<le> j \<longrightarrow> j < i \<longrightarrow> \<not> is_filled (s_table s ! j)) \<and>
    keys_of (drop cur (s_table s)) = k # keys_of (drop cur' (s_table s))"
proof -
  obtain i where f: "find (\<lambda>i. is_filled (s_table s ! i)) [cur..<s_alloc s] = Some i"
    and k: "s_table s ! i = Obj k" "cur' = Suc i"
    using assms(2) by (auto simp: set_it_iternext_def split: option.splits obj.splits)
  obtain n where n: "n < s_alloc s - cur" "i = cur + n" "\<forall>j<n. \<not> is_filled (s_table s ! (cur + j))"
    using f by (auto simp: find_Some_iff)
  have first: "\<not> is_filled (s_table s ! j)" if "cur \<le> j" "j < i" for j
    using n(3) [rule_format, of "j - cur"] that n(2) by simp
  have "filter is_filled (drop cur (s_table s)) = s_table s ! i # filter is_filled (drop (Suc i) (s_table s))"
    using n assms(1) k first by (intro filter_drop_skip) simp_all
  then show ?thesis using n k first by (intro exI [of _ i]) (simp add: keys_of_def)
qed

text \<open>The items that are left in an iterator over something else than \<^verbatim>\<open>self\<close>.\<close>

fun iter_items :: "'o set_iter \<Rightarrow> 'o list" where
  "iter_items (List_Iter xs) = xs"
| "iter_items (Set_Iter other cur) = keys_of (drop cur (s_table other))"
| "iter_items (Self_Iter cur) = []"

fun iter_ok :: "'o set_iter \<Rightarrow> bool" where
  "iter_ok (List_Iter xs) = True"
| "iter_ok (Set_Iter other cur) \<longleftrightarrow> length (s_table other) = s_alloc other"
| "iter_ok (Self_Iter cur) = False"

lemma iternext_items:
  assumes "iter_ok it"
  shows "(case iternext s it of
      None \<Rightarrow> iter_items it = []
    | Some (x, it') \<Rightarrow> iter_ok it' \<and> iter_items it = x # iter_items it')"
proof (cases it)
  case (Set_Iter other cur)
  show ?thesis
  proof (cases "set_it_iternext other cur")
    case None
    then show ?thesis using assms Set_Iter set_it_iternext_None by auto
  next
    case (Some p)
    then obtain k c where "set_it_iternext other cur = Some (k, c)" by (cases p) auto
    then show ?thesis using assms Set_Iter set_it_iternext_Some [of other cur k c] by auto
  qed
next
  case (List_Iter xs)
  then show ?thesis by (cases xs) auto
qed (use assms in simp)

lemma for_iter_fold: "iter_ok it \<Longrightarrow> for_iter body it s = fold_opt body (iter_items it) s"
proof (induction "iter_items it" arbitrary: it s)
  case Nil
  then have "iternext s it = None" using iternext_items [of it s] by (auto split: option.splits)
  then show ?case using Nil by (subst for_iter.simps) simp
next
  case (Cons x xs)
  then obtain it' where it: "iternext s it = Some (x, it')" "iter_ok it'" "iter_items it' = xs"
    using iternext_items [of it s] by (auto split: option.splits)
  then show ?case
    using Cons.hyps(1) [of it'] Cons.hyps(2) [symmetric] by (subst for_iter.simps) (simp split: option.splits)
qed

fun all_opt :: "('x \<Rightarrow> bool option) \<Rightarrow> 'x list \<Rightarrow> bool option" where
  "all_opt body [] = Some True"
| "all_opt body (x # xs) = (case body x of None \<Rightarrow> None | Some b \<Rightarrow> if b then all_opt body xs else Some False)"

lemma all_iter_fold: "iter_ok it \<Longrightarrow> all_iter body s it = all_opt body (iter_items it)"
proof (induction "iter_items it" arbitrary: it)
  case Nil
  then have "iternext s it = None" using iternext_items [of it s] by (auto split: option.splits)
  then show ?case using Nil by (subst all_iter.simps) simp
next
  case (Cons x xs)
  then obtain it' where it: "iternext s it = Some (x, it')" "iter_ok it'" "iter_items it' = xs"
    using iternext_items [of it s] by (auto split: option.splits)
  then show ?case
    using Cons.hyps(1) [of it'] Cons.hyps(2) [symmetric] by (subst all_iter.simps) (simp split: option.splits)
qed

text \<open>On a set that does not change, an iterator over \<^verbatim>\<open>self\<close> is one over a set.\<close>

lemma all_iter_self:
  assumes "length (s_table s) = s_alloc s"
  shows "all_iter body s (Self_Iter cur) = all_opt body (keys_of (drop cur (s_table s)))"
proof (induction "keys_of (drop cur (s_table s))" arbitrary: cur)
  case Nil
  then have "set_it_iternext s cur = None"
    using set_it_iternext_Some [OF assms, of cur] by (cases "set_it_iternext s cur") auto
  then show ?case using Nil by (subst all_iter.simps) simp
next
  case (Cons x xs)
  then obtain k c where "set_it_iternext s cur = Some (k, c)"
    using set_it_iternext_None [OF assms, of cur] by (cases "set_it_iternext s cur") auto
  then show ?case
    using Cons set_it_iternext_Some [OF assms, of cur k c] by (subst all_iter.simps) (auto split: option.splits)
qed

lemma all_opt_ok: "(\<And>x. x \<in> set xs \<Longrightarrow> body x = Some (P x)) \<Longrightarrow> all_opt body xs = Some (\<forall>x\<in>set xs. P x)"
  by (induction xs) auto

section \<open>Lookups\<close>

text \<open>What becomes of the membership of the key that is looked up.\<close>

definition after :: "lookup_kind \<Rightarrow> bool \<Rightarrow> bool" where
  "after kind b = (if b then \<not> kind_removes kind else kind_adds kind)"

definition occurs :: "'o obj_ops \<Rightarrow> 'o list \<Rightarrow> 'o \<Rightarrow> nat" where
  "occurs ops xs y = length (filter (\<lambda>x. same ops x y) xs)"

lemma after_iterated:
  "(after MP_MAP_LOOKUP_ADD_IF_NOT_FOUND ^^ n) b \<longleftrightarrow> b \<or> 0 < n"
  "(after MP_MAP_LOOKUP_REMOVE_IF_FOUND ^^ n) b \<longleftrightarrow> b \<and> n = 0"
  "(after MP_MAP_LOOKUP_ADD_IF_NOT_FOUND_OR_REMOVE_IF_FOUND ^^ n) b \<longleftrightarrow> (b \<longleftrightarrow> even n)"
  by (induction n) (auto simp: after_def)

lemma occurs_pos: "0 < occurs ops xs y \<longleftrightarrow> (\<exists>x\<in>set xs. same ops x y)"
  by (auto simp: occurs_def filter_empty_conv)

text \<open>No two elements are equal as keys.\<close>

abbreviation distinct_keys :: "'o obj_ops \<Rightarrow> 'o list \<Rightarrow> bool" where
  "distinct_keys ops xs \<equiv> sorted_wrt (\<lambda>a b. \<not> same ops a b) xs"

text \<open>The abstraction: the keys that a lookup finds.\<close>

definition members :: "'o obj_ops \<Rightarrow> 'o set_obj \<Rightarrow> 'o set" where
  "members ops self = {y. set_mem ops (so_set self) y}"

fun arg_members :: "'o obj_ops \<Rightarrow> 'o set_obj \<Rightarrow> 'o set_arg \<Rightarrow> 'o set" where
  "arg_members ops self Same_Set = members ops self"
| "arg_members ops self (Set_Arg other) = members ops other"
| "arg_members ops self (Iterable xs) = {y. \<exists>x\<in>set xs. same ops x y}"

abbreviation obj_wf :: "'o obj_ops \<Rightarrow> 'o set_obj \<Rightarrow> bool" where
  "obj_wf ops self \<equiv> set_wf ops (so_set self)"

fun arg_wf :: "'o obj_ops \<Rightarrow> 'o set_arg \<Rightarrow> bool" where
  "arg_wf ops (Set_Arg other) = obj_wf ops other"
| "arg_wf ops a = True"

fun arg_items :: "'o set_arg \<Rightarrow> 'o list" where
  "arg_items (Set_Arg other) = set_elems (so_set other)"
| "arg_items (Iterable xs) = xs"
| "arg_items Same_Set = []"

lemma getiter_items:
  "arg_wf ops a \<Longrightarrow> a \<noteq> Same_Set \<Longrightarrow> iter_ok (set_getiter a) \<and> iter_items (set_getiter a) = arg_items a"
  by (cases a) (simp_all add: set_wf_def)

text \<open>What the operators compute on sets.\<close>

fun op_set :: "set_op \<Rightarrow> 'o set \<Rightarrow> 'o set \<Rightarrow> 'o set option" where
  "op_set OP_OR A B = Some (A \<union> B)"
| "op_set OP_XOR A B = Some ((A - B) \<union> (B - A))"
| "op_set OP_AND A B = Some (A \<inter> B)"
| "op_set OP_SUBTRACT A B = Some (A - B)"
| "op_set OP_INPLACE_OR A B = Some (A \<union> B)"
| "op_set OP_INPLACE_XOR A B = Some ((A - B) \<union> (B - A))"
| "op_set OP_INPLACE_AND A B = Some (A \<inter> B)"
| "op_set OP_INPLACE_SUBTRACT A B = Some (A - B)"
| "op_set _ A B = None"

fun op_test :: "set_op \<Rightarrow> 'o set \<Rightarrow> 'o set \<Rightarrow> bool" where
  "op_test OP_LESS A B \<longleftrightarrow> A \<subset> B"
| "op_test OP_MORE A B \<longleftrightarrow> B \<subset> A"
| "op_test OP_EQUAL A B \<longleftrightarrow> A = B"
| "op_test OP_LESS_EQUAL A B \<longleftrightarrow> A \<subseteq> B"
| "op_test OP_MORE_EQUAL A B \<longleftrightarrow> B \<subseteq> A"
| "op_test _ A B \<longleftrightarrow> False"

fun op_in_place :: "set_op \<Rightarrow> bool" where
  "op_in_place OP_INPLACE_OR = True"
| "op_in_place OP_INPLACE_XOR = True"
| "op_in_place OP_INPLACE_AND = True"
| "op_in_place OP_INPLACE_SUBTRACT = True"
| "op_in_place _ = False"

text \<open>
  Comparisons return a truth value and change nothing.  The other operators make a new set,
  except for an in-place operator on a set that is not frozen, which changes its left operand.
\<close>

definition binary_spec :: "'o obj_ops \<Rightarrow> set_op \<Rightarrow> 'o set_obj \<Rightarrow> 'o set \<Rightarrow> 'o set_obj \<Rightarrow> 'o set_ret \<Rightarrow> bool" where
  "binary_spec ops op lhs B lhs' v \<longleftrightarrow>
    (case op_set op (members ops lhs) B of
       None \<Rightarrow> lhs' = lhs \<and> v = Truth (op_test op (members ops lhs) B)
     | Some C \<Rightarrow>
         if op_in_place op \<and> \<not> frozen lhs
         then v = Lhs \<and> obj_wf ops lhs' \<and> frozen lhs' = frozen lhs \<and> members ops lhs' = C
         else lhs' = lhs \<and> (\<exists>s. v = New_Set s \<and> obj_wf ops s \<and> members ops s = C))"

context hashable
begin

lemma set_mem_elems: "set_mem ops s y \<longleftrightarrow> (\<exists>x\<in>set (set_elems s). same ops x y)"
proof -
  have "holds_key ops y e \<longleftrightarrow> (\<exists>k. e = Obj k \<and> same ops k y)" for e by (cases e) auto
  then show ?thesis by (auto simp: set_mem_def list_ex_iff in_keys_of)
qed

lemma mem_same: "same ops x y \<Longrightarrow> set_mem ops s x \<longleftrightarrow> set_mem ops s y"
  by (meson set_mem_elems same_sym same_trans)

lemma set_lookup_ex:
  assumes "set_wf ops s"
  obtains s' r where "set_lookup ops kind x s = Some (s', r)" "set_spec ops s x kind s' r"
  using set_lookup_ok [OF assms, of set_fuel x kind] by (auto simp: set_lookup_def set_fuel_def)

lemma set_change_ok:
  assumes "set_wf ops s"
  shows "\<exists>s'. set_change ops kind x s = Some s' \<and> set_wf ops s' \<and>
    (\<forall>y. set_mem ops s' y \<longleftrightarrow> (if same ops x y then after kind (set_mem ops s y) else set_mem ops s y))"
proof -
  obtain s' r where l: "set_lookup ops kind x s = Some (s', r)" "set_spec ops s x kind s' r"
    using set_lookup_ex [OF assms] .
  have "set_mem ops s' y \<longleftrightarrow> (if same ops x y then after kind (set_mem ops s y) else set_mem ops s y)" for y
    using l(2) mem_same [of x y s] by (auto simp: set_spec_def after_def split: if_splits)
  moreover have "set_wf ops s'" using l(2) by (simp add: set_spec_def)
  ultimately show ?thesis using l(1) by (simp add: set_change_def)
qed

lemma fold_change_ok:
  assumes "set_wf ops s"
  shows "\<exists>s'. fold_opt (set_change ops kind) xs s = Some s' \<and> set_wf ops s' \<and>
    (\<forall>y. set_mem ops s' y \<longleftrightarrow> (after kind ^^ occurs ops xs y) (set_mem ops s y))"
  using assms
proof (induction xs arbitrary: s)
  case Nil
  then show ?case by (simp add: occurs_def)
next
  case (Cons x xs)
  obtain s1 where s1: "set_change ops kind x s = Some s1" "set_wf ops s1"
    "\<And>y. set_mem ops s1 y \<longleftrightarrow> (if same ops x y then after kind (set_mem ops s y) else set_mem ops s y)"
    using set_change_ok [OF Cons.prems, of kind x] by blast
  obtain s' where s': "fold_opt (set_change ops kind) xs s1 = Some s'" "set_wf ops s'"
    "\<And>y. set_mem ops s' y \<longleftrightarrow> (after kind ^^ occurs ops xs y) (set_mem ops s1 y)"
    using Cons.IH [OF s1(2)] by blast
  have "set_mem ops s' y \<longleftrightarrow> (after kind ^^ occurs ops (x # xs) y) (set_mem ops s y)" for y
    using s'(3) [of y] s1(3) [of y] by (simp add: occurs_def funpow_swap1)
  then show ?case using s1(1) s'(1,2) by simp
qed

lemma plain_lookup:
  assumes "set_wf ops s"
  shows "\<exists>r. set_lookup ops MP_MAP_LOOKUP x s = Some (s, r) \<and> (r = MP_OBJ_NULL \<longleftrightarrow> \<not> set_mem ops s x)"
proof -
  obtain s' r where l: "set_lookup ops MP_MAP_LOOKUP x s = Some (s', r)" "set_spec ops s x MP_MAP_LOOKUP s' r"
    using set_lookup_ex [OF assms] .
  then show ?thesis by (auto simp: set_spec_def split: if_splits)
qed

text \<open>A lookup that removes an element of the table clears its own slot.\<close>

lemma remove_at_slot:
  assumes wf: "set_wf ops s" and p: "p < s_alloc s" "s_table s ! p = Obj k" and kind: "kind_removes kind"
  shows "set_change ops kind k s = Some (set_delete_at s p)"
proof -
  have ne: "s_table s \<noteq> []" and len: "length (s_table s) = s_alloc s" and inv: "no_duplicates ops (s_table s)"
    using wf p(1) by (auto simp: set_wf_def hash_inv_def)
  obtain r where r: "probe (\<lambda>e. obj_equal ops e k) (s_table s) (obj_hash ops k) = Some r"
    "probe_result (\<lambda>e. obj_equal ops e k) (s_table s) (obj_hash ops k mod length (s_table s)) r"
    using probe_ends [OF ne] by blast
  have mem: "set_mem ops s k" using p len by (auto simp: set_mem_nth)
  then obtain q where q: "r = Found q" using set_missing [OF wf r(2)] by blast
  then obtain l where l: "q < length (s_table s)" "s_table s ! q = Obj l" "same ops l k"
    using r(2) by (auto simp: same_equal)
  then have "q = p" using unique_slot [OF inv, of p q k k] p len by simp
  then show ?thesis using r(1) q p kind
    by (simp add: set_change_def set_lookup_def set_fuel_def numeral_eq_Suc)
qed

text \<open>Loops over the set that they change.\<close>

lemma self_loop_add:
  assumes "set_wf ops s" "\<not> kind_removes kind"
  shows "for_iter (set_change ops kind) (Self_Iter cur) s = Some s"
proof (induction "s_alloc s - cur" arbitrary: cur rule: less_induct)
  case less
  have len: "length (s_table s) = s_alloc s" using assms(1) by (simp add: set_wf_def)
  show ?case
  proof (cases "set_it_iternext s cur")
    case None
    then show ?thesis by (subst for_iter.simps) simp
  next
    case (Some p)
    then obtain k c where k: "set_it_iternext s cur = Some (k, c)" by (cases p) auto
    then obtain i where i: "cur \<le> i" "i < s_alloc s" "c = Suc i" "s_table s ! i = Obj k"
      using set_it_iternext_Some [OF len] by blast
    have "set_mem ops s k" using i len by (auto simp: set_mem_nth)
    moreover obtain s' r where "set_lookup ops kind k s = Some (s', r)" "set_spec ops s k kind s' r"
      using set_lookup_ex [OF assms(1)] .
    ultimately have "set_change ops kind k s = Some s"
      using assms(2) by (simp add: set_change_def set_spec_def)
    moreover have "for_iter (set_change ops kind) (Self_Iter c) s = Some s" using less i by simp
    ultimately show ?thesis using k by (subst for_iter.simps) simp
  qed
qed

lemma self_loop_remove:
  assumes "set_wf ops s" "kind_removes kind" "\<forall>i<cur. \<not> is_filled (s_table s ! i)"
  shows "\<exists>s'. for_iter (set_change ops kind) (Self_Iter cur) s = Some s' \<and> set_wf ops s' \<and> set_elems s' = []"
  using assms
proof (induction "s_alloc s - cur" arbitrary: cur s rule: less_induct)
  case less
  have len: "length (s_table s) = s_alloc s" using less.prems(1) by (simp add: set_wf_def)
  show ?case
  proof (cases "set_it_iternext s cur")
    case None
    have "filter is_filled (take cur (s_table s)) = []"
      using less.prems(3) by (auto simp: filter_empty_conv in_set_conv_nth)
    moreover have "filter is_filled (drop cur (s_table s)) = []"
      using set_it_iternext_None [OF len None] by (simp add: keys_of_def)
    ultimately have "filter is_filled (s_table s) = []"
      by (metis append_Nil append_take_drop_id filter_append)
    then show ?thesis using None less.prems(1) by (subst for_iter.simps) (simp add: keys_of_def)
  next
    case (Some p)
    then obtain k c where k: "set_it_iternext s cur = Some (k, c)" by (cases p) auto
    then obtain i where i: "cur \<le> i" "i < s_alloc s" "c = Suc i" "s_table s ! i = Obj k"
      "\<And>j. cur \<le> j \<Longrightarrow> j < i \<Longrightarrow> \<not> is_filled (s_table s ! j)"
      using set_it_iternext_Some [OF len] by blast
    let ?s = "set_delete_at s i"
    have step: "set_change ops kind k s = Some ?s" using remove_at_slot [OF less.prems(1) i(2,4) less.prems(2)] .
    have wf: "set_wf ops ?s" using set_delete_ok(1) [OF less.prems(1) i(2,4) same_refl] .
    have "\<forall>j<c. \<not> is_filled (s_table ?s ! j)"
    proof (intro allI impI)
      fix j
      assume "j < c"
      then consider "j = i" | "j < cur" | "cur \<le> j" "j < i" using i(3) by linarith
      then show "\<not> is_filled (s_table ?s ! j)"
        using less.prems(3) i len by cases (auto simp: set_delete_at_def deleted_key_def)
    qed
    moreover have "s_alloc ?s - c < s_alloc s - cur" using i by (simp add: set_delete_at_def)
    ultimately obtain s' where "for_iter (set_change ops kind) (Self_Iter c) ?s = Some s'" "set_wf ops s'" "set_elems s' = []"
      using less.hyps [of ?s c] wf less.prems(2) by blast
    then show ?thesis using k step by (subst for_iter.simps) simp
  qed
qed

section \<open>Lists without duplicates\<close>

lemma distinct_elems: "no_duplicates ops es \<Longrightarrow> distinct_keys ops (keys_of es)"
proof (induction es)
  case (Cons e es)
  have "\<not> same ops k l" if "e = Obj k" "Obj l \<in> set es" for k l
    using no_duplicates_Cons(2) [OF Cons.prems that] same_sym by blast
  then show ?case
    using Cons.IH no_duplicates_Cons(1) [OF Cons.prems] by (cases e) (auto simp: in_keys_of)
qed simp

lemma distinct_keys_remove1: "distinct_keys ops ys \<Longrightarrow> distinct_keys ops (remove1 y ys)"
  by (induction ys) (auto dest: in_set_remove1 [THEN iffD1, rotated] notin_set_remove1 split: if_splits dest!: set_mp [OF set_remove1_subset])

text \<open>
  If every key of one list is a key of the other, the second is a rearrangement of partners of
  the first and of a rest.
\<close>

lemma matching:
  assumes "distinct_keys ops xs" "distinct_keys ops ys" "\<forall>x\<in>set xs. \<exists>y\<in>set ys. same ops x y"
  shows "\<exists>us zs. mset ys = mset us + mset zs \<and> list_all2 (same ops) xs us"
  using assms
proof (induction xs arbitrary: ys)
  case (Cons x xs)
  then obtain y where y: "y \<in> set ys" "same ops x y" by auto
  have "\<exists>z\<in>set (remove1 y ys). same ops x' z" if x': "x' \<in> set xs" for x'
  proof -
    obtain z where z: "z \<in> set ys" "same ops x' z" using Cons.prems(3) x' by auto
    have "z \<noteq> y"
    proof
      assume "z = y"
      then have "same ops x x'" using y z same_sym same_trans by blast
      then show False using Cons.prems(1) x' by simp
    qed
    then show ?thesis using z by auto
  qed
  then obtain us zs where us: "mset (remove1 y ys) = mset us + mset zs" "list_all2 (same ops) xs us"
    using Cons.IH [of "remove1 y ys"] Cons.prems distinct_keys_remove1 by fastforce
  have "mset ys = add_mset y (mset (remove1 y ys))" using y(1) by simp
  then have "mset ys = mset (y # us) + mset zs" unfolding us(1) by simp
  then show ?case using us(2) y(2) by (intro exI [of _ "y # us"] exI [of _ zs]) simp
qed auto

lemma partners:
  assumes "set_wf ops s" "set_wf ops t" "\<forall>y. set_mem ops s y \<longrightarrow> set_mem ops t y"
  obtains us zs where "mset (set_elems t) = mset us + mset zs" "list_all2 (same ops) (set_elems s) us"
    "s_used t = s_used s + length zs"
proof -
  have d: "distinct_keys ops (set_elems s)" "distinct_keys ops (set_elems t)"
    using assms(1,2) distinct_elems by (auto simp: set_wf_def hash_inv_def)
  have len: "length (set_elems s) = s_used s" "length (set_elems t) = s_used t"
    using assms(1,2) by (simp_all add: set_wf_def)
  have "\<forall>x\<in>set (set_elems s). \<exists>y\<in>set (set_elems t). same ops x y"
    using assms(3) same_refl same_sym by (meson set_mem_elems)
  then obtain us zs where us: "mset (set_elems t) = mset us + mset zs" "list_all2 (same ops) (set_elems s) us"
    using matching [OF d] by blast
  have "length us = s_used s" using list_all2_lengthD [OF us(2)] len by simp
  moreover have "s_used t = length us + length zs" using arg_cong [OF us(1), of size] len by simp
  ultimately show thesis using that us by simp
qed

lemma subset_used:
  assumes "set_wf ops s" "set_wf ops t" "\<forall>y. set_mem ops s y \<longrightarrow> set_mem ops t y"
  shows "s_used s = s_used t \<longleftrightarrow> (\<forall>y. set_mem ops t y \<longrightarrow> set_mem ops s y)"
proof
  assume eq: "s_used s = s_used t"
  obtain us zs where us: "mset (set_elems t) = mset us + mset zs" "list_all2 (same ops) (set_elems s) us"
    "s_used t = s_used s + length zs" using partners [OF assms] .
  then have "mset (set_elems t) = mset us" using eq by simp
  then have t: "set (set_elems t) = set us" by (rule mset_eq_setD)
  have "\<exists>x\<in>set (set_elems s). same ops x u" if u: "u \<in> set us" for u
    using u us(2) by (metis in_set_conv_nth list_all2_conv_all_nth)
  then show "\<forall>y. set_mem ops t y \<longrightarrow> set_mem ops s y"
    unfolding set_mem_elems t using same_trans by blast
next
  assume "\<forall>y. set_mem ops t y \<longrightarrow> set_mem ops s y"
  then have "s_used t \<le> s_used s" using partners [OF assms(2,1)] by (metis le_add1)
  moreover have "s_used s \<le> s_used t" using partners [OF assms] by (metis le_add1)
  ultimately show "s_used s = s_used t" by simp
qed

text \<open>Equal sets have the same hashes of elements, in some order.\<close>

lemma equal_sets_hashes:
  assumes "set_wf ops s" "set_wf ops t" "\<forall>y. set_mem ops s y \<longleftrightarrow> set_mem ops t y"
  shows "mset (map (obj_hash ops) (set_elems s)) = mset (map (obj_hash ops) (set_elems t))"
proof -
  have sub: "\<forall>y. set_mem ops s y \<longrightarrow> set_mem ops t y" using assms(3) by simp
  obtain us zs where us: "mset (set_elems t) = mset us + mset zs" "list_all2 (same ops) (set_elems s) us"
    "s_used t = s_used s + length zs" using partners [OF assms(1,2) sub] .
  moreover have "s_used s = s_used t" using subset_used [OF assms(1,2) sub] assms(3) by simp
  ultimately have "mset (set_elems t) = mset us" by simp
  moreover have "map (obj_hash ops) (set_elems s) = map (obj_hash ops) us"
    using us(2) same_hash by (intro nth_equalityI) (simp_all add: list_all2_conv_all_nth)
  ultimately show ?thesis by (simp only: mset_map)
qed

section \<open>Methods\<close>

lemma arg_members_occurs: "a \<noteq> Same_Set \<Longrightarrow> y \<in> arg_members ops self a \<longleftrightarrow> 0 < occurs ops (arg_items a) y"
  by (cases a) (simp_all add: occurs_pos members_def set_mem_elems)

lemma occurs_set:
  assumes "set_wf ops s"
  shows "occurs ops (set_elems s) y \<le> 1"
proof -
  have "occurs ops xs y \<le> 1" if "distinct_keys ops xs" for xs
    using that
  proof (induction xs)
    case (Cons x xs)
    have "occurs ops xs y = 0" if y: "same ops x y"
    proof -
      have "\<not> same ops z y" if "z \<in> set xs" for z
        using Cons.prems that y same_trans [OF y same_sym, of z] by auto
      then show ?thesis by (simp add: occurs_def filter_empty_conv)
    qed
    then show ?case using Cons by (auto simp: occurs_def)
  qed (simp add: occurs_def)
  then show ?thesis using assms distinct_elems by (simp add: set_wf_def hash_inv_def)
qed

lemma loop_other:
  assumes "set_wf ops s" "arg_wf ops a" "a \<noteq> Same_Set"
  shows "\<exists>s'. for_iter (set_change ops kind) (set_getiter a) s = Some s' \<and> set_wf ops s' \<and>
    (\<forall>y. set_mem ops s' y \<longleftrightarrow> (after kind ^^ occurs ops (arg_items a) y) (set_mem ops s y))"
proof -
  have "for_iter (set_change ops kind) (set_getiter a) s = fold_opt (set_change ops kind) (arg_items a) s"
    using for_iter_fold [of "set_getiter a"] getiter_items [OF assms(2,3)] by simp
  then show ?thesis using fold_change_ok [OF assms(1)] by simp
qed

lemma set_copy_eq: "obj_wf ops self \<Longrightarrow> set_copy self = self"
  by (cases self; cases "so_set self") (simp add: set_copy_def set_wf_def Let_def mp_set_init_def blit_def)

lemma for_copy_members [simp]:
  "arg_members ops self' (for_copy self a) = arg_members ops self a"
  "obj_wf ops self \<Longrightarrow> arg_wf ops (for_copy self a) \<longleftrightarrow> arg_wf ops a"
  "for_copy self a \<noteq> Same_Set"
  by (cases a; simp)+

lemma set_update_int_ok:
  assumes "obj_wf ops self" "arg_wf ops a"
  shows "\<exists>self'. set_update_int ops self a = Some self' \<and> obj_wf ops self' \<and> frozen self' = frozen self \<and>
    members ops self' = members ops self \<union> arg_members ops self a"
proof (cases "a = Same_Set")
  case True
  then show ?thesis
    using self_loop_add [OF assms(1), of MP_MAP_LOOKUP_ADD_IF_NOT_FOUND] assms(1) by (simp add: set_update_int_def)
next
  case False
  obtain s' where "for_iter (set_change ops MP_MAP_LOOKUP_ADD_IF_NOT_FOUND) (set_getiter a) (so_set self) = Some s'"
    "set_wf ops s'" "\<forall>y. set_mem ops s' y \<longleftrightarrow> set_mem ops (so_set self) y \<or> 0 < occurs ops (arg_items a) y"
    using loop_other [OF assms False, of MP_MAP_LOOKUP_ADD_IF_NOT_FOUND] unfolding after_iterated by blast
  then show ?thesis
    using arg_members_occurs [OF False, of _ self] by (auto simp: set_update_int_def members_def)
qed

lemma set_update_ok:
  assumes "obj_wf ops self" "\<forall>a\<in>set args. arg_wf ops a"
  shows "\<exists>self'. set_update ops self args = Some self' \<and> obj_wf ops self' \<and> frozen self' = frozen self \<and>
    members ops self' = members ops self \<union> (\<Union>a\<in>set args. arg_members ops self a)"
  using assms
proof (induction args arbitrary: self)
  case (Cons a args)
  obtain s1 where s1: "set_update_int ops self a = Some s1" "obj_wf ops s1" "frozen s1 = frozen self"
    "members ops s1 = members ops self \<union> arg_members ops self a"
    using set_update_int_ok [OF Cons.prems(1), of a] Cons.prems(2) by auto
  have "members ops s1 \<union> arg_members ops s1 b = members ops s1 \<union> arg_members ops self b" for b
    using s1(4) by (cases b) auto
  then have "members ops s1 \<union> (\<Union>b\<in>set args. arg_members ops s1 b) = members ops s1 \<union> (\<Union>b\<in>set args. arg_members ops self b)"
    by blast
  moreover obtain r where "set_update ops s1 args = Some r" "obj_wf ops r" "frozen r = frozen s1"
    "members ops r = members ops s1 \<union> (\<Union>b\<in>set args. arg_members ops s1 b)"
    using Cons.IH [OF s1(2)] Cons.prems(2) by auto
  ultimately show ?case using s1 by auto
qed simp

lemma set_clear_ok: "obj_wf ops (set_clear self)" "members ops (set_clear self) = {}" "frozen (set_clear self) = frozen self"
  by (simp_all add: set_clear_def mp_set_clear_def set_wf_def members_def set_mem_def filled_count_def hash_inv_def
      no_duplicates_def reachable_keys_def)

lemma set_diff_args_ok:
  assumes "obj_wf ops self" "members ops self \<subseteq> A" "members ops o1 = A" "\<forall>a\<in>set args. arg_wf ops a"
  shows "\<exists>self'. set_diff_args ops args self = Some self' \<and> obj_wf ops self' \<and> frozen self' = frozen self \<and>
    members ops self' = members ops self - (\<Union>a\<in>set args. arg_members ops o1 a)"
  using assms
proof (induction args arbitrary: self)
  case (Cons a args)
  show ?case
  proof (cases "a = Same_Set")
    case True
    then show ?thesis
      using Cons.IH [OF set_clear_ok(1) _ Cons.prems(3), of self] Cons.prems set_clear_ok [of self] by auto
  next
    case False
    obtain s' where s: "for_iter (set_change ops MP_MAP_LOOKUP_REMOVE_IF_FOUND) (set_getiter a) (so_set self) = Some s'"
      "set_wf ops s'" "\<forall>y. set_mem ops s' y \<longleftrightarrow> set_mem ops (so_set self) y \<and> occurs ops (arg_items a) y = 0"
      using loop_other [OF Cons.prems(1) _ False, of MP_MAP_LOOKUP_REMOVE_IF_FOUND] Cons.prems(4)
      unfolding after_iterated by auto
    let ?s = "self\<lparr>so_set := s'\<rparr>"
    have m: "members ops ?s = members ops self - arg_members ops o1 a"
      using s(3) arg_members_occurs [OF False, of _ o1] by (auto simp: members_def)
    obtain r where r: "set_diff_args ops args ?s = Some r" "obj_wf ops r" "frozen r = frozen ?s"
      "members ops r = members ops ?s - (\<Union>a\<in>set args. arg_members ops o1 a)"
      using Cons.IH [of ?s] s(2) m Cons.prems by auto
    have "set_diff_args ops (a # args) self = Some r" using False s(1) r(1) by (cases a) auto
    then show ?thesis using r m by auto
  qed
qed simp

lemma set_diff_int_ok:
  assumes "obj_wf ops self" "\<forall>a\<in>set args. arg_wf ops a"
  shows "\<exists>self'. set_diff_int ops update self args = Some self' \<and> obj_wf ops self' \<and> frozen self' = frozen self \<and>
    members ops self' = members ops self - (\<Union>a\<in>set args. arg_members ops self a)"
proof (cases update)
  case True
  then show ?thesis using set_diff_args_ok [OF assms(1) order_refl refl assms(2)] by (simp add: set_diff_int_def)
next
  case False
  have "\<forall>a\<in>set (map (for_copy self) args). arg_wf ops a" using assms by auto
  then show ?thesis
    using False set_diff_args_ok [OF assms(1) order_refl refl, of "map (for_copy self) args"] set_copy_eq [OF assms(1)]
    by (simp add: set_diff_int_def)
qed

text \<open>The symmetric difference toggles once for every occurrence of an item.\<close>

lemma toggle_items_ok:
  assumes "obj_wf ops self" "arg_wf ops a" "a \<noteq> Same_Set"
  shows "\<exists>self'. set_symmetric_difference_update ops self a = Some self' \<and> obj_wf ops self' \<and> frozen self' = frozen self \<and>
    members ops self' = {y. y \<in> members ops self \<longleftrightarrow> even (occurs ops (arg_items a) y)}"
proof -
  obtain s' where "for_iter (set_change ops MP_MAP_LOOKUP_ADD_IF_NOT_FOUND_OR_REMOVE_IF_FOUND) (set_getiter a) (so_set self) = Some s'"
    "set_wf ops s'" "\<forall>y. set_mem ops s' y \<longleftrightarrow> (set_mem ops (so_set self) y \<longleftrightarrow> even (occurs ops (arg_items a) y))"
    using loop_other [OF assms, of MP_MAP_LOOKUP_ADD_IF_NOT_FOUND_OR_REMOVE_IF_FOUND] unfolding after_iterated by blast
  then show ?thesis by (auto simp: set_symmetric_difference_update_def members_def)
qed

lemma toggle_set_ok:
  assumes "obj_wf ops self" "arg_wf ops a" "is_set_or_frozenset a"
  shows "\<exists>self'. set_symmetric_difference_update ops self a = Some self' \<and> obj_wf ops self' \<and> frozen self' = frozen self \<and>
    members ops self' = (members ops self - arg_members ops self a) \<union> (arg_members ops self a - members ops self)"
proof (cases a)
  case Same_Set
  obtain s' where "for_iter (set_change ops MP_MAP_LOOKUP_ADD_IF_NOT_FOUND_OR_REMOVE_IF_FOUND) (Self_Iter 0) (so_set self) = Some s'"
    "set_wf ops s'" "set_elems s' = []"
    using self_loop_remove [OF assms(1), of MP_MAP_LOOKUP_ADD_IF_NOT_FOUND_OR_REMOVE_IF_FOUND 0] by auto
  then show ?thesis using Same_Set by (simp add: set_symmetric_difference_update_def members_def set_mem_elems)
next
  case (Set_Arg other)
  have ne: "a \<noteq> Same_Set" using Set_Arg by simp
  have "even (occurs ops (arg_items a) y) \<longleftrightarrow> y \<notin> arg_members ops self a" for y
    using occurs_set [of "so_set other" y] assms(2) Set_Arg arg_members_occurs [OF ne, of y self]
    by (cases "occurs ops (arg_items a) y") auto
  then show ?thesis using toggle_items_ok [OF assms(1,2) ne] by auto
qed (use assms in simp)

lemma fold_intersect_ok:
  assumes "set_wf ops self" "set_wf ops out"
  shows "\<exists>s'. fold_opt (intersect_body ops self) xs out = Some s' \<and> set_wf ops s' \<and>
    (\<forall>y. set_mem ops s' y \<longleftrightarrow> set_mem ops out y \<or> set_mem ops self y \<and> (\<exists>x\<in>set xs. same ops x y))"
  using assms(2)
proof (induction xs arbitrary: out)
  case (Cons x xs)
  obtain r where r: "set_lookup ops MP_MAP_LOOKUP x self = Some (self, r)" "r = MP_OBJ_NULL \<longleftrightarrow> \<not> set_mem ops self x"
    using plain_lookup [OF assms(1)] by blast
  obtain o1 where o1: "intersect_body ops self x out = Some o1" "set_wf ops o1"
    "\<And>y. set_mem ops o1 y \<longleftrightarrow> set_mem ops out y \<or> set_mem ops self y \<and> same ops x y"
  proof (cases "set_mem ops self x")
    case True
    obtain s1 where s1: "set_change ops MP_MAP_LOOKUP_ADD_IF_NOT_FOUND x out = Some s1" "set_wf ops s1"
      "\<forall>y. set_mem ops s1 y \<longleftrightarrow> (if same ops x y then after MP_MAP_LOOKUP_ADD_IF_NOT_FOUND (set_mem ops out y) else set_mem ops out y)"
      using set_change_ok [OF Cons.prems] by blast
    have "set_mem ops s1 y \<longleftrightarrow> set_mem ops out y \<or> set_mem ops self y \<and> same ops x y" for y
      using s1(3) True mem_same [of x y self] by (auto simp: after_def)
    then show thesis using that s1 r True by (simp add: intersect_body_def)
  next
    case False
    have "set_mem ops out y \<longleftrightarrow> set_mem ops out y \<or> set_mem ops self y \<and> same ops x y" for y
      using False mem_same [of x y self] by auto
    then show thesis using that r False Cons.prems by (simp add: intersect_body_def)
  qed
  obtain s' where "fold_opt (intersect_body ops self) xs o1 = Some s'" "set_wf ops s'"
    "\<And>y. set_mem ops s' y \<longleftrightarrow> set_mem ops o1 y \<or> set_mem ops self y \<and> (\<exists>x\<in>set xs. same ops x y)"
    using Cons.IH [OF o1(2)] by blast
  then show ?case using o1 by auto
qed simp

lemma new_set_ok:
  "\<exists>r. mp_obj_new_set ops xs = Some r \<and> obj_wf ops r \<and> \<not> frozen r \<and> members ops r = {y. \<exists>x\<in>set xs. same ops x y}"
proof -
  obtain s' where s': "fold_opt (set_change ops MP_MAP_LOOKUP_ADD_IF_NOT_FOUND) xs (mp_set_init (length xs)) = Some s'"
    "set_wf ops s'" "\<And>y. set_mem ops s' y \<longleftrightarrow> 0 < occurs ops xs y"
    using fold_change_ok [OF set_init_ok(1), of MP_MAP_LOOKUP_ADD_IF_NOT_FOUND xs "length xs"] set_init_ok(2) unfolding after_iterated by auto
  have "set_mem ops s' = (\<lambda>y. \<exists>x\<in>set xs. same ops x y)" using s'(3) unfolding occurs_pos by (simp add: fun_eq_iff)
  then show ?thesis using s'(1,2) by (simp add: mp_obj_new_set_def for_iter_fold members_def)
qed

lemma set_intersect_int_ok:
  assumes "obj_wf ops self" "arg_wf ops a"
  shows "\<exists>self' r. set_intersect_int ops update self a = Some (self', r) \<and>
    (if update then r = None else self' = self \<and> r \<noteq> None) \<and> frozen self' = frozen self \<and>
    (\<forall>s. s = (case r of None \<Rightarrow> self' | Some s \<Rightarrow> s) \<longrightarrow>
       obj_wf ops s \<and> members ops s = members ops self \<inter> arg_members ops self a)"
proof (cases "a = Same_Set")
  case True
  then show ?thesis using assms(1) set_copy_eq [OF assms(1)] by (simp add: set_intersect_int_def)
next
  case False
  obtain out where out: "mp_obj_new_set ops [] = Some out" "obj_wf ops out" "members ops out = {}"
    using new_set_ok [of "[]"] by auto
  obtain s' where s': "fold_opt (intersect_body ops (so_set self)) (arg_items a) (so_set out) = Some s'" "set_wf ops s'"
    "\<And>y. set_mem ops s' y \<longleftrightarrow> set_mem ops (so_set self) y \<and> (\<exists>x\<in>set (arg_items a). same ops x y)"
    using fold_intersect_ok [OF assms(1) out(2), of "arg_items a"] out(3) by (auto simp: members_def)
  have "for_iter (intersect_body ops (so_set self)) (set_getiter a) (so_set out) = Some s'"
    using for_iter_fold [of "set_getiter a"] getiter_items [OF assms(2) False] s'(1) by simp
  then show ?thesis
    using False out(1) s'(2,3) arg_members_occurs [OF False, of _ self]
    by (auto simp: set_intersect_int_def members_def occurs_pos)
qed

lemma set_isdisjoint_ok:
  assumes "obj_wf ops self" "arg_wf ops a"
  shows "set_isdisjoint ops self a = Some (members ops self \<inter> arg_members ops self a = {})"
proof -
  let ?body = "\<lambda>next. map_option (\<lambda>(_, r). r = MP_OBJ_NULL) (set_lookup ops MP_MAP_LOOKUP next (so_set self))"
  have body: "?body x = Some (\<not> set_mem ops (so_set self) x)" for x using plain_lookup [OF assms(1), of x] by auto
  have len: "length (s_table (so_set self)) = s_alloc (so_set self)" using assms(1) by (simp add: set_wf_def)
  show ?thesis
  proof (cases "a = Same_Set")
    case True
    have "set_isdisjoint ops self a = Some (\<forall>x\<in>set (set_elems (so_set self)). \<not> set_mem ops (so_set self) x)"
      using all_iter_self [OF len, of ?body 0] all_opt_ok [OF body] True by (simp add: set_isdisjoint_def)
    moreover have "(\<forall>x\<in>set (set_elems (so_set self)). \<not> set_mem ops (so_set self) x) \<longleftrightarrow> members ops self = {}"
      using same_refl unfolding members_def set_mem_elems by blast
    ultimately show ?thesis using True by simp
  next
    case False
    have "set_isdisjoint ops self a = Some (\<forall>x\<in>set (arg_items a). \<not> set_mem ops (so_set self) x)"
      using all_iter_fold [of "set_getiter a" ?body] getiter_items [OF assms(2) False] all_opt_ok [OF body]
      by (simp add: set_isdisjoint_def)
    moreover have "(\<forall>x\<in>set (arg_items a). \<not> set_mem ops (so_set self) x) \<longleftrightarrow> members ops self \<inter> arg_members ops self a = {}"
      using arg_members_occurs [OF False, of _ self] mem_same same_refl unfolding members_def occurs_pos by blast
    ultimately show ?thesis by simp
  qed
qed

lemma set_make_new_ok:
  assumes "arg_wf ops a" "a \<noteq> Same_Set"
  shows "\<exists>r. set_make_new ops fr (Some a) = Some r \<and> obj_wf ops r \<and> frozen r = fr \<and> members ops r = arg_members ops self a"
proof -
  obtain o1 where o1: "mp_obj_new_set ops [] = Some o1" "obj_wf ops o1" "members ops o1 = {}"
    using new_set_ok [of "[]"] by auto
  have "mp_obj_set_store ops = set_change ops MP_MAP_LOOKUP_ADD_IF_NOT_FOUND"
    by (simp add: fun_eq_iff mp_obj_set_store_def)
  then show ?thesis
    using loop_other [OF o1(2) assms, of MP_MAP_LOOKUP_ADD_IF_NOT_FOUND] o1 arg_members_occurs [OF assms(2), of _ self]
    unfolding after_iterated by (auto simp: set_make_new_def members_def)
qed

lemma as_set_ok:
  assumes "arg_wf ops a" "a \<noteq> Same_Set"
  obtains r where "as_set ops a = Some r" "obj_wf ops r" "members ops r = arg_members ops self a"
proof (cases a)
  case (Iterable xs)
  then show thesis using set_make_new_ok [OF assms, of False self] that by auto
qed (use assms that in auto)

lemma set_issubset_internal_ok:
  assumes "arg_wf ops a" "a \<noteq> Same_Set" "arg_wf ops b" "b \<noteq> Same_Set"
  shows "set_issubset_internal ops proper a b =
    Some (if proper then arg_members ops self a \<subset> arg_members ops self b else arg_members ops self a \<subseteq> arg_members ops self b)"
proof -
  obtain s t where s: "as_set ops a = Some s" "obj_wf ops s" "members ops s = arg_members ops self a"
    and t: "as_set ops b = Some t" "obj_wf ops t" "members ops t = arg_members ops self b"
    using as_set_ok [OF assms(1,2)] as_set_ok [OF assms(3,4)] by metis
  let ?body = "\<lambda>next. map_option (\<lambda>(_, r). r \<noteq> MP_OBJ_NULL) (set_lookup ops MP_MAP_LOOKUP next (so_set t))"
  have body: "?body x = Some (set_mem ops (so_set t) x)" for x using plain_lookup [OF t(2), of x] by auto
  have len: "length (s_table (so_set s)) = s_alloc (so_set s)" using s(2) by (simp add: set_wf_def)
  have "all_iter ?body (so_set s) (Self_Iter 0) = Some (\<forall>x\<in>set (set_elems (so_set s)). set_mem ops (so_set t) x)"
    using all_iter_self [OF len, of ?body 0] all_opt_ok [OF body] by simp
  moreover have "(\<forall>x\<in>set (set_elems (so_set s)). set_mem ops (so_set t) x) \<longleftrightarrow> members ops s \<subseteq> members ops t"
    using mem_same [of _ _ "so_set t"] same_refl unfolding members_def set_mem_elems [of "so_set s"] by blast
  ultimately have all: "all_iter ?body (so_set s) (Self_Iter 0) = Some (members ops s \<subseteq> members ops t)" by simp
  have eq: "s_used (so_set s) = s_used (so_set t) \<longleftrightarrow> members ops s = members ops t" if "members ops s \<subseteq> members ops t"
    using subset_used [OF s(2) t(2)] that by (auto simp: members_def)
  show ?thesis
    using s t all eq by (auto simp: set_issubset_internal_def)
qed

lemma set_equal_ok:
  assumes "obj_wf ops s" "obj_wf ops t"
  shows "set_equal ops s t = Some (members ops s = members ops t)"
proof -
  have sub: "set_issubset ops (Set_Arg s) (Set_Arg t) = Some (members ops s \<subseteq> members ops t)"
    using set_issubset_internal_ok [of "Set_Arg s" "Set_Arg t" False s] assms by (simp add: set_issubset_def)
  have "s_used (so_set s) = s_used (so_set t) \<longleftrightarrow> members ops s = members ops t" if "members ops s \<subseteq> members ops t"
    using subset_used [OF assms] that by (auto simp: members_def)
  then show ?thesis using sub by (auto simp: set_equal_def)
qed

lemma binary_new:
  assumes "\<exists>r. f = Some r \<and> obj_wf ops r \<and> P r \<and> members ops r = C" "op_set op (members ops lhs) B = Some C"
    "\<not> (op_in_place op \<and> \<not> frozen lhs)"
  shows "\<exists>lhs' v. fresh lhs f = Some (lhs', v) \<and> binary_spec ops op lhs B lhs' v"
  using assms by (auto simp: fresh_def binary_spec_def)

lemma binary_in_place:
  assumes "\<exists>r. f = Some r \<and> obj_wf ops r \<and> frozen r = frozen lhs \<and> members ops r = C" "op_set op (members ops lhs) B = Some C"
    "op_in_place op" "\<not> frozen lhs"
  shows "\<exists>lhs' v. in_place f = Some (lhs', v) \<and> binary_spec ops op lhs B lhs' v"
  using assms by (auto simp: in_place_def binary_spec_def)

lemma binary_truth:
  assumes "f = Some (op_test op (members ops lhs) B)" "op_set op (members ops lhs) B = None"
  shows "\<exists>lhs' v. truth lhs f = Some (lhs', v) \<and> binary_spec ops op lhs B lhs' v"
  using assms by (simp add: truth_def binary_spec_def)

lemma set_binary_op_ok:
  assumes wf: "obj_wf ops lhs" "arg_wf ops rhs" and set: "is_set_or_frozenset rhs"
  shows "\<exists>lhs' v. set_binary_op ops op lhs rhs = Some (lhs', v) \<and> binary_spec ops op lhs (arg_members ops lhs rhs) lhs' v"
proof -
  let ?B = "arg_members ops lhs rhs" and ?r = "the_set lhs rhs"
  have r: "obj_wf ops ?r" "members ops ?r = ?B" using wf set by (cases rhs; simp)+
  have wfs: "\<forall>a\<in>set [rhs]. arg_wf ops a" using wf by simp
  have copy: "arg_wf ops (for_copy lhs rhs)" "is_set_or_frozenset (for_copy lhs rhs)"
    using wf set by (cases rhs; simp)+
  have union: "\<exists>s. set_union ops lhs rhs = Some s \<and> obj_wf ops s \<and> frozen s = frozen lhs \<and> members ops s = members ops lhs \<union> ?B"
    using set_update_int_ok [OF wf(1) copy(1)] set_copy_eq [OF wf(1)] by (simp add: set_union_def)
  have xor: "\<exists>s. set_symmetric_difference ops lhs rhs = Some s \<and> obj_wf ops s \<and> frozen s = frozen lhs \<and>
      members ops s = (members ops lhs - ?B) \<union> (?B - members ops lhs)"
    using toggle_set_ok [OF wf(1) copy] set_copy_eq [OF wf(1)] by (simp add: set_symmetric_difference_def)
  have diff: "\<exists>s. set_diff_int ops u lhs [rhs] = Some s \<and> obj_wf ops s \<and> frozen s = frozen lhs \<and> members ops s = members ops lhs - ?B" for u
    using set_diff_int_ok [OF wf(1) wfs, of u] by simp
  have upd: "\<exists>s. set_update ops lhs [rhs] = Some s \<and> obj_wf ops s \<and> frozen s = frozen lhs \<and> members ops s = members ops lhs \<union> ?B"
    using set_update_ok [OF wf(1) wfs] by simp
  have sub: "set_issubset_internal ops p (Set_Arg lhs) (Set_Arg ?r) = Some (if p then members ops lhs \<subset> ?B else members ops lhs \<subseteq> ?B)"
    "set_issubset_internal ops p (Set_Arg ?r) (Set_Arg lhs) = Some (if p then ?B \<subset> members ops lhs else ?B \<subseteq> members ops lhs)" for p
    using set_issubset_internal_ok [of "Set_Arg lhs" "Set_Arg ?r" p lhs] set_issubset_internal_ok [of "Set_Arg ?r" "Set_Arg lhs" p lhs] wf r by simp_all
  note inter = set_intersect_int_ok [OF wf]
  note test_defs = set_issubset_def set_issubset_proper_def set_issuperset_def set_issuperset_proper_def
  show ?thesis
  proof (cases op)
    case OP_OR
    then show ?thesis using binary_new [OF union, of op lhs ?B] set by (simp add: set_binary_op_def)
  next
    case OP_XOR
    then show ?thesis using binary_new [OF xor, of op lhs ?B] set by (simp add: set_binary_op_def)
  next
    case OP_AND
    then show ?thesis using inter [of False] set by (auto simp: set_binary_op_def set_intersect_def binary_spec_def fresh_def)
  next
    case OP_SUBTRACT
    then show ?thesis using binary_new [OF diff [of False], of op lhs ?B] set by (simp add: set_binary_op_def set_diff_def)
  next
    case OP_INPLACE_OR
    then show ?thesis
      using binary_new [OF union, of op lhs ?B] binary_in_place [OF upd, of op ?B] set by (simp add: set_binary_op_def del: set_update.simps)
  next
    case OP_INPLACE_XOR
    then show ?thesis
      using binary_new [OF xor, of op lhs ?B] binary_in_place [OF toggle_set_ok [OF wf set], of op ?B] set by (simp add: set_binary_op_def)
  next
    case OP_INPLACE_AND
    then show ?thesis
      using inter [of "\<not> frozen lhs"] set by (cases "frozen lhs") (auto simp: set_binary_op_def binary_spec_def fresh_def in_place_def)
  next
    case OP_INPLACE_SUBTRACT
    then show ?thesis
      using binary_new [OF diff [of False], of op lhs ?B] binary_in_place [OF diff [of True], of op ?B] set by (simp add: set_binary_op_def)
  next
    case OP_LESS
    then show ?thesis using binary_truth [of _ op lhs ?B] sub set by (simp add: set_binary_op_def test_defs)
  next
    case OP_MORE
    then show ?thesis using binary_truth [of _ op lhs ?B] sub set by (simp add: set_binary_op_def test_defs)
  next
    case OP_EQUAL
    then show ?thesis using binary_truth [of _ op lhs ?B] set_equal_ok [OF wf(1) r(1)] r(2) set by (simp add: set_binary_op_def)
  next
    case OP_LESS_EQUAL
    then show ?thesis using binary_truth [of _ op lhs ?B] sub set by (simp add: set_binary_op_def test_defs)
  next
    case OP_MORE_EQUAL
    then show ?thesis using binary_truth [of _ op lhs ?B] sub set by (simp add: set_binary_op_def test_defs)
  qed
qed

lemma foldl_hash:
  "foldl (\<lambda>hash elem. case elem of Obj k \<Rightarrow> hash + of_nat (obj_hash ops k) | _ \<Rightarrow> hash) a es =
    a + (\<Sum>k\<leftarrow>keys_of es. of_nat (obj_hash ops k) :: 32 word)"
proof (induction es arbitrary: a)
  case (Cons e es)
  then show ?case by (cases e) (simp_all add: add.assoc)
qed simp

lemma frozenset_hash_members:
  assumes "obj_wf ops s" "obj_wf ops t" "frozen s" "frozen t" "members ops s = members ops t"
  shows "frozenset_hash ops adr s = frozenset_hash ops adr t"
proof -
  have "(\<Sum>k\<leftarrow>set_elems u. of_nat (obj_hash ops k) :: 32 word) =
      (\<Sum>h\<in>#mset (map (obj_hash ops) (set_elems u)). of_nat h)" for u
    by (simp only: sum_mset_sum_list map_map comp_def mset_map [symmetric])
  moreover have "\<forall>y. set_mem ops (so_set s) y \<longleftrightarrow> set_mem ops (so_set t) y" using assms(5) by (auto simp: members_def)
  ultimately show ?thesis
    using equal_sets_hashes [OF assms(1,2)] assms(3,4) unfolding frozenset_hash_def foldl_hash by metis
qed

lemma set_add_ok:
  assumes "obj_wf ops self"
  shows "\<exists>s'. set_add ops self x = Some s' \<and> obj_wf ops s' \<and> members ops s' = members ops self \<union> {y. same ops x y}"
proof -
  obtain s' where "set_change ops MP_MAP_LOOKUP_ADD_IF_NOT_FOUND x (so_set self) = Some s'" "set_wf ops s'"
    "\<And>y. set_mem ops s' y \<longleftrightarrow> set_mem ops (so_set self) y \<or> same ops x y"
    using set_change_ok [OF assms, of MP_MAP_LOOKUP_ADD_IF_NOT_FOUND x] by (auto simp: after_def)
  then show ?thesis by (auto simp: set_add_def members_def)
qed

lemma set_discard_ok:
  assumes "obj_wf ops self"
  shows "\<exists>s'. set_discard ops self x = Some s' \<and> obj_wf ops s' \<and> members ops s' = members ops self - {y. same ops x y}"
proof -
  obtain s' where "set_change ops MP_MAP_LOOKUP_REMOVE_IF_FOUND x (so_set self) = Some s'" "set_wf ops s'"
    "\<And>y. set_mem ops s' y \<longleftrightarrow> set_mem ops (so_set self) y \<and> \<not> same ops x y"
    using set_change_ok [OF assms, of MP_MAP_LOOKUP_REMOVE_IF_FOUND x] by (auto simp: after_def)
  then show ?thesis by (auto simp: set_discard_def members_def)
qed

lemma set_contains_ok: "obj_wf ops self \<Longrightarrow> set_contains ops self x = Some (x \<in> members ops self)"
  using plain_lookup [of "so_set self" x] by (auto simp: set_contains_def members_def)

lemma set_remove_ok:
  assumes "obj_wf ops self"
  shows "\<exists>s'. set_remove ops self x = Some (s', if x \<in> members ops self then Inr () else Inl (Key_Error_Item x)) \<and>
    obj_wf ops s' \<and> members ops s' = members ops self - {y. same ops x y}"
proof -
  obtain s' r where l: "set_lookup ops MP_MAP_LOOKUP_REMOVE_IF_FOUND x (so_set self) = Some (s', r)"
    "set_spec ops (so_set self) x MP_MAP_LOOKUP_REMOVE_IF_FOUND s' r" using set_lookup_ex [OF assms] .
  then have r: "r = MP_OBJ_NULL \<longleftrightarrow> x \<notin> members ops self" by (auto simp: set_spec_def members_def split: if_splits)
  have m: "set_mem ops s' y \<longleftrightarrow> set_mem ops (so_set self) y \<and> \<not> same ops x y" for y
    using l(2) mem_same [of x y "so_set self"] by (auto simp: set_spec_def split: if_splits)
  have "set_wf ops s'" using l(2) by (simp add: set_spec_def)
  then show ?thesis using l(1) r m by (auto simp: set_remove_def members_def)
qed

lemma members_empty: "members ops self = {} \<longleftrightarrow> set_elems (so_set self) = []"
proof
  assume e: "members ops self = {}"
  have "x \<in> members ops self" if "x \<in> set (set_elems (so_set self))" for x
    unfolding members_def mem_Collect_eq set_mem_elems using that same_refl by blast
  then show "set_elems (so_set self) = []" using e by fastforce
qed (simp add: members_def set_mem_elems)

lemma set_pop_ok:
  assumes "obj_wf ops self"
  shows "\<exists>s' r. set_pop self = (s', r) \<and> obj_wf ops s' \<and>
    (if members ops self = {} then s' = self \<and> r = Inl Key_Error_Pop
     else \<exists>x\<in>members ops self. r = Inr (Obj x) \<and> members ops s' = members ops self - {y. same ops x y})"
proof -
  obtain s' r where rf: "mp_set_remove_first (so_set self) = (s', r)" by (cases "mp_set_remove_first (so_set self)")
  note ok = remove_first_ok [OF assms rf]
  have "s_used (so_set self) = length (set_elems (so_set self))" using assms by (simp add: set_wf_def)
  then have "s_used (so_set self) = 0 \<longleftrightarrow> members ops self = {}" unfolding members_empty by (simp del: length_keys_of)
  then show ?thesis using ok rf by (auto simp: set_pop_def members_def split: if_splits)
qed

end

section \<open>Properties\<close>

text \<open>
  C37. The operators on sets compute union, symmetric difference, intersection, difference and
  the subset relations of the sets of their elements, also when both operands are the same
  object.  In-place operators change a set and make a new object for a frozen set; all others
  leave their operands alone.
\<close>

theorem set_binary_op_correct:
  assumes "hashable ops" "set_wf ops (so_set lhs)" "arg_wf ops rhs" "is_set_or_frozenset rhs"
  shows "\<exists>lhs' v. set_binary_op ops op lhs rhs = Some (lhs', v) \<and> binary_spec ops op lhs (arg_members ops lhs rhs) lhs' v"
  using hashable.set_binary_op_ok [OF assms] .

definition one_two :: "pyobj set_obj" where
  "one_two = \<lparr>frozen = False, so_set = \<lparr>s_used = 2, s_alloc = 2, s_table = [Obj (Small_Int 2), Obj (Small_Int 1)]\<rparr>\<rparr>"

lemma one_two_wf: "set_wf (pyobj_ops adr) (so_set one_two)"
  by (simp add: one_two_def set_wf_def filled_count_def hash_inv_def no_duplicates_def reachable_keys_def
      All_less_Suc numeral_eq_Suc pyobj_ops_def dist_def same_def mp_obj_equal_def)

theorem set_binary_op_correct_witness:
  "\<exists>lhs' v. set_binary_op (pyobj_ops (\<lambda>_. 0)) OP_INPLACE_XOR one_two Same_Set = Some (lhs', v) \<and>
    binary_spec (pyobj_ops (\<lambda>_. 0)) OP_INPLACE_XOR one_two (members (pyobj_ops (\<lambda>_. 0)) one_two) lhs' v"
  using set_binary_op_correct [OF py.hashable_axioms one_two_wf, of "\<lambda>_. 0" Same_Set OP_INPLACE_XOR] by simp

text \<open>
  C38. Methods on one element: \<^verbatim>\<open>add\<close> and \<^verbatim>\<open>discard\<close> change membership of exactly that element,
  \<^verbatim>\<open>remove\<close> raises \<^verbatim>\<open>KeyError\<close> exactly if it is missing, and \<^verbatim>\<open>pop\<close> removes and returns some
  element or raises \<^verbatim>\<open>KeyError\<close> for the empty set, which it leaves as it is.
\<close>

theorem set_methods_correct:
  assumes "hashable ops" "set_wf ops (so_set self)"
  shows "(\<exists>s'. set_add ops self x = Some s' \<and> set_wf ops (so_set s') \<and> members ops s' = members ops self \<union> {y. same ops x y}) \<and>
    (\<exists>s'. set_discard ops self x = Some s' \<and> set_wf ops (so_set s') \<and> members ops s' = members ops self - {y. same ops x y}) \<and>
    set_contains ops self x = Some (x \<in> members ops self) \<and>
    (\<exists>s'. set_remove ops self x = Some (s', if x \<in> members ops self then Inr () else Inl (Key_Error_Item x)) \<and>
      set_wf ops (so_set s') \<and> members ops s' = members ops self - {y. same ops x y}) \<and>
    (\<exists>s' r. set_pop self = (s', r) \<and> set_wf ops (so_set s') \<and>
      (if members ops self = {} then s' = self \<and> r = Inl Key_Error_Pop
       else \<exists>z\<in>members ops self. r = Inr (Obj z) \<and> members ops s' = members ops self - {y. same ops z y}))"
  by (intro conjI hashable.set_add_ok [OF assms] hashable.set_discard_ok [OF assms] hashable.set_contains_ok [OF assms]
      hashable.set_remove_ok [OF assms] hashable.set_pop_ok [OF assms])

theorem set_methods_correct_witness:
  "\<exists>s'. set_remove (pyobj_ops (\<lambda>_. 0)) one_two (Small_Int 7) = Some (s', Inl (Key_Error_Item (Small_Int 7)))"
proof -
  have "Small_Int 7 \<notin> members (pyobj_ops (\<lambda>_. 0)) one_two"
    by (simp add: members_def one_two_def set_mem_def same_def pyobj_ops_def mp_obj_equal_def)
  then show ?thesis using set_methods_correct [OF py.hashable_axioms one_two_wf, of "\<lambda>_. 0" "Small_Int 7"] by auto
qed



text \<open>
  C40. Equal frozen sets have equal hashes, whatever the order of their tables, their size and
  the deletion marks in them.
\<close>

theorem frozenset_hash_respects_equality:
  assumes "hashable ops" "set_wf ops (so_set s)" "set_wf ops (so_set t)" "frozen s" "frozen t" "set_equal ops s t = Some True"
  shows "frozenset_hash ops adr s = frozenset_hash ops adr t"
  using hashable.frozenset_hash_members [OF assms(1-5)] hashable.set_equal_ok [OF assms(1-3)] assms(6) by simp

definition two_one_frozen :: "pyobj set_obj" where
  "two_one_frozen = \<lparr>frozen = True, so_set = \<lparr>s_used = 2, s_alloc = 4,
     s_table = [MP_OBJ_NULL, Obj (Small_Int 1), Obj (Small_Int 2), MP_OBJ_SENTINEL]\<rparr>\<rparr>"

theorem frozenset_hash_respects_equality_witness:
  "frozenset_hash (pyobj_ops (\<lambda>_. 0)) 0x3f400000 (one_two\<lparr>frozen := True\<rparr>) =
   frozenset_hash (pyobj_ops (\<lambda>_. 0)) 0x3f400000 two_one_frozen"
proof (rule frozenset_hash_respects_equality [OF py.hashable_axioms])
  show wf: "set_wf (pyobj_ops (\<lambda>_. 0)) (so_set two_one_frozen)"
    by (simp add: two_one_frozen_def set_wf_def filled_count_def hash_inv_def no_duplicates_def reachable_keys_def
      All_less_Suc pyobj_ops_def dist_def same_def mp_obj_equal_def)
  show "set_equal (pyobj_ops (\<lambda>_. 0)) (one_two\<lparr>frozen := True\<rparr>) two_one_frozen = Some True"
  proof -
    have "set_wf (pyobj_ops (\<lambda>_. 0)) (so_set (one_two\<lparr>frozen := True\<rparr>))" using one_two_wf by simp
    moreover have "members (pyobj_ops (\<lambda>_. 0)) (one_two\<lparr>frozen := True\<rparr>) = members (pyobj_ops (\<lambda>_. 0)) two_one_frozen"
      unfolding members_def set_mem_def one_two_def two_one_frozen_def by simp blast
    ultimately show ?thesis using py.set_equal_ok [OF _ wf] by simp
  qed
qed (simp_all add: one_two_wf two_one_frozen_def)

text \<open>
  An iterable that yields the same item twice toggles it twice: in \<^verbatim>\<open>{1, 2} ^ [3, 3]\<close>, written as
  a method call, the item \<^verbatim>\<open>3\<close> is missing.
\<close>

lemma symmetric_difference_duplicates:
  "\<exists>s. set_symmetric_difference (pyobj_ops (\<lambda>_. 0)) one_two (Iterable [Small_Int 3, Small_Int 3]) = Some s \<and>
    set_contains (pyobj_ops (\<lambda>_. 0)) s (Small_Int 3) = Some False"
proof -
  have new: "Small_Int 3 \<notin> members (pyobj_ops (\<lambda>_. 0)) one_two"
    by (simp add: members_def one_two_def set_mem_def same_def pyobj_ops_def mp_obj_equal_def)
  obtain s where s: "set_symmetric_difference_update (pyobj_ops (\<lambda>_. 0)) one_two (Iterable [Small_Int 3, Small_Int 3]) = Some s"
    "set_wf (pyobj_ops (\<lambda>_. 0)) (so_set s)"
    "members (pyobj_ops (\<lambda>_. 0)) s = {y. y \<in> members (pyobj_ops (\<lambda>_. 0)) one_two \<longleftrightarrow>
      even (occurs (pyobj_ops (\<lambda>_. 0)) [Small_Int 3, Small_Int 3] y)}"
    using py.toggle_items_ok [OF one_two_wf [of "\<lambda>_. 0"], where a = "Iterable [Small_Int 3, Small_Int 3]"] by auto
  have "Small_Int 3 \<notin> members (pyobj_ops (\<lambda>_. 0)) s" using new s(3) by (simp add: occurs_def same_def)
  then show ?thesis
    using s py.set_contains_ok [OF s(2), of "Small_Int 3"] py.set_copy_eq [OF one_two_wf]
    by (simp add: set_symmetric_difference_def)
qed

end
