(* ===== verification/Sequence.thy ===== *)
theory Sequence
  imports Objects
begin

text \<open>
  The helpers that all sequence types share (\<^verbatim>\<open>py/sequence.c\<close>): comparison of byte strings
  and of arrays of objects, resolution of indices (\<^verbatim>\<open>mp_get_index\<close> of \<^verbatim>\<open>py/obj.c\<close>) and of
  slices (\<^verbatim>\<open>mp_obj_slice_indices\<close> of \<^verbatim>\<open>py/objslice.c\<close>), search, count and repetition.  An
  index is a Python integer that fits a machine word, and objects that are not integers are
  rejected before.
\<close>

section \<open>Model\<close>

subsection \<open>Comparison\<close>

datatype cmp_op =
    MP_BINARY_OP_EQUAL
  | MP_BINARY_OP_LESS
  | MP_BINARY_OP_LESS_EQUAL
  | MP_BINARY_OP_MORE
  | MP_BINARY_OP_MORE_EQUAL

fun memcmp :: "nat \<Rightarrow> byte list \<Rightarrow> byte list \<Rightarrow> int" where
  "memcmp (Suc n) (x # xs) (y # ys) = (if x = y then memcmp n xs ys else uint x - uint y)"
| "memcmp _ _ _ = 0"

text \<open>Less and less-or-equal are turned into the opposite relation of the exchanged operands.\<close>

fun swap_op :: "cmp_op \<Rightarrow> cmp_op option" where
  "swap_op MP_BINARY_OP_LESS = Some MP_BINARY_OP_MORE"
| "swap_op MP_BINARY_OP_LESS_EQUAL = Some MP_BINARY_OP_MORE_EQUAL"
| "swap_op _ = None"

text \<open>The decision after a common prefix.\<close>

definition cmp_tie :: "cmp_op \<Rightarrow> nat \<Rightarrow> nat \<Rightarrow> bool" where
  "cmp_tie op len1 len2 =
    (if len1 \<noteq> len2 then \<not> len1 < len2 else op \<noteq> MP_BINARY_OP_MORE)"

definition cmp_bytes_more :: "cmp_op \<Rightarrow> byte list \<Rightarrow> byte list \<Rightarrow> bool" where
  "cmp_bytes_more op data1 data2 =
    (let min_len = min (length data1) (length data2);
         res = memcmp min_len data1 data2
     in if op = MP_BINARY_OP_EQUAL then res = 0
        else if res < 0 then False
        else if res > 0 then True
        else cmp_tie op (length data1) (length data2))"

definition mp_seq_cmp_bytes :: "cmp_op \<Rightarrow> byte list \<Rightarrow> byte list \<Rightarrow> bool" where
  "mp_seq_cmp_bytes op data1 data2 =
    (if op = MP_BINARY_OP_EQUAL \<and> length data1 \<noteq> length data2 then False
     else case swap_op op of
         Some op' \<Rightarrow> cmp_bytes_more op' data2 data1
       | None \<Rightarrow> cmp_bytes_more op data1 data2)"

text \<open>On objects, with their equality and their comparison.\<close>

fun cmp_objs_loop ::
  "('o \<Rightarrow> 'o \<Rightarrow> bool) \<Rightarrow> (cmp_op \<Rightarrow> 'o \<Rightarrow> 'o \<Rightarrow> bool) \<Rightarrow> cmp_op \<Rightarrow> 'o list \<Rightarrow> 'o list \<Rightarrow> bool option" where
  "cmp_objs_loop equal binop op (x # xs) (y # ys) =
    (if equal x y then cmp_objs_loop equal binop op xs ys
     else if op = MP_BINARY_OP_EQUAL then Some False
     else Some (binop op x y))"
| "cmp_objs_loop equal binop op _ _ = None"

definition cmp_objs_more ::
  "('o \<Rightarrow> 'o \<Rightarrow> bool) \<Rightarrow> (cmp_op \<Rightarrow> 'o \<Rightarrow> 'o \<Rightarrow> bool) \<Rightarrow> cmp_op \<Rightarrow> 'o list \<Rightarrow> 'o list \<Rightarrow> bool" where
  "cmp_objs_more equal binop op items1 items2 =
    (case cmp_objs_loop equal binop op items1 items2 of
       Some b \<Rightarrow> b
     | None \<Rightarrow> cmp_tie op (length items1) (length items2))"

definition mp_seq_cmp_objs ::
  "('o \<Rightarrow> 'o \<Rightarrow> bool) \<Rightarrow> (cmp_op \<Rightarrow> 'o \<Rightarrow> 'o \<Rightarrow> bool) \<Rightarrow> cmp_op \<Rightarrow> 'o list \<Rightarrow> 'o list \<Rightarrow> bool" where
  "mp_seq_cmp_objs equal binop op items1 items2 =
    (if op = MP_BINARY_OP_EQUAL \<and> length items1 \<noteq> length items2 then False
     else case swap_op op of
         Some op' \<Rightarrow> cmp_objs_more equal binop op' items2 items1
       | None \<Rightarrow> cmp_objs_more equal binop op items1 items2)"

subsection \<open>Indices and slices\<close>

text \<open>The name of the sequence type is part of the message.\<close>

definition mp_get_index :: "string \<Rightarrow> nat \<Rightarrow> int \<Rightarrow> bool \<Rightarrow> nat result" where
  "mp_get_index type_name len i is_slice =
    (let i = (if i < 0 then i + int len else i)
     in if is_slice
        then Inr (if i < 0 then 0 else if i > int len then len else nat i)
        else if i < 0 \<or> i \<ge> int len then Inl (IndexError (type_name @ '' index out of range''))
        else Inr (nat i))"

record slice_obj =
  sl_start :: "int option"
  sl_stop :: "int option"
  sl_step :: "int option"

record bound_slice =
  bs_start :: int
  bs_stop :: int
  bs_step :: int

text \<open>A negative value counts from the end; then it is limited to a range.\<close>

definition slice_bound :: "int \<Rightarrow> int \<Rightarrow> int \<Rightarrow> int \<Rightarrow> int" where
  "slice_bound len lo hi v = (let v = (if v < 0 then v + len else v) in min hi (max v lo))"

definition mp_obj_slice_indices :: "slice_obj \<Rightarrow> int \<Rightarrow> bound_slice result" where
  "mp_obj_slice_indices self len =
    (if sl_step self = Some 0 then Inl (ValueError ''slice step can't be zero'')
     else
       let step = (case sl_step self of None \<Rightarrow> 1 | Some s \<Rightarrow> s)
       in Inr (if step > 0
               then \<lparr>bs_start = (case sl_start self of None \<Rightarrow> 0 | Some v \<Rightarrow> slice_bound len 0 len v),
                     bs_stop = (case sl_stop self of None \<Rightarrow> len | Some v \<Rightarrow> slice_bound len 0 len v),
                     bs_step = step\<rparr>
               else \<lparr>bs_start = (case sl_start self of None \<Rightarrow> len - 1 | Some v \<Rightarrow> slice_bound len (- 1) (len - 1) v),
                     bs_stop = (case sl_stop self of None \<Rightarrow> - 1 | Some v \<Rightarrow> slice_bound len (- 1) (len - 1) v),
                     bs_step = step\<rparr>))"

text \<open>The result says whether the step is one.\<close>

definition mp_seq_get_fast_slice_indexes :: "nat \<Rightarrow> slice_obj \<Rightarrow> (bool \<times> bound_slice) result" where
  "mp_seq_get_fast_slice_indexes len sl =
    (case mp_obj_slice_indices sl (int len) of
       Inl e \<Rightarrow> Inl e
     | Inr b \<Rightarrow>
         let b = (if bs_step b < 0 then b\<lparr>bs_stop := bs_stop b + 1\<rparr> else b);
             b = (if bs_step b > 0 \<and> bs_start b > bs_stop b then b\<lparr>bs_stop := bs_start b\<rparr>
                  else if bs_step b < 0 \<and> bs_start b < bs_stop b then b\<lparr>bs_stop := bs_start b + 1\<rparr>
                  else b)
         in Inr (bs_step b = 1, b))"

text \<open>
  The loops of \<^verbatim>\<open>mp_seq_extract_slice\<close>, which collect the items.  Positions are signed words;
  \<open>None\<close> is a read outside the array or a loop that does not end.
\<close>

partial_function (option) extract_loop :: "'a list \<Rightarrow> int \<Rightarrow> int \<Rightarrow> int \<Rightarrow> 'a list \<Rightarrow> 'a list option" where
  "extract_loop seq start stop step res =
    (if (if step < 0 then start \<ge> stop else start < stop)
     then if 0 \<le> start \<and> start < int (length seq)
          then extract_loop seq (s32 (start + step)) stop step (res @ [seq ! nat start])
          else None
     else Some res)"

definition mp_seq_extract_slice :: "'a list \<Rightarrow> bound_slice \<Rightarrow> 'a list option" where
  "mp_seq_extract_slice seq b = extract_loop seq (bs_start b) (bs_stop b) (bs_step b) []"

subsection \<open>Search, count and repetition\<close>

fun index_loop :: "('o \<Rightarrow> bool) \<Rightarrow> 'o list \<Rightarrow> nat \<Rightarrow> nat \<Rightarrow> nat option" where
  "index_loop equal items i 0 = None"
| "index_loop equal items i (Suc n) = (if equal (items ! i) then Some i else index_loop equal items (i + 1) n)"

definition mp_seq_index_obj :: "string \<Rightarrow> ('o \<Rightarrow> bool) \<Rightarrow> 'o list \<Rightarrow> int option \<Rightarrow> int option \<Rightarrow> nat result" where
  "mp_seq_index_obj type_name equal items start stop =
    (let len = length items;
         start' = (case start of None \<Rightarrow> Inr 0 | Some i \<Rightarrow> mp_get_index type_name len i True);
         stop' = (case stop of None \<Rightarrow> Inr len | Some i \<Rightarrow> mp_get_index type_name len i True)
     in case start' of
          Inl e \<Rightarrow> Inl e
        | Inr a \<Rightarrow>
            (case stop' of
               Inl e \<Rightarrow> Inl e
             | Inr b \<Rightarrow>
                 (case index_loop equal items a (b - a) of
                    Some i \<Rightarrow> Inr i
                  | None \<Rightarrow> Inl (ValueError ''object not in sequence''))))"

fun mp_seq_count_obj :: "('o \<Rightarrow> bool) \<Rightarrow> 'o list \<Rightarrow> nat" where
  "mp_seq_count_obj equal [] = 0"
| "mp_seq_count_obj equal (x # xs) = (if equal x then 1 + mp_seq_count_obj equal xs else mp_seq_count_obj equal xs)"

fun mp_seq_multiply :: "'a list \<Rightarrow> nat \<Rightarrow> 'a list \<Rightarrow> nat \<Rightarrow> 'a list" where
  "mp_seq_multiply items 0 dest off = dest"
| "mp_seq_multiply items (Suc n) dest off =
    mp_seq_multiply items n (blit dest off items) (off + length items)"

section \<open>Comparison is lexicographic\<close>

lemma memcmp_prefix: "memcmp (min (length xs) (length ys)) xs ys = memcmp (length xs) xs ys"
proof (induction xs arbitrary: ys)
  case (Cons x xs)
  then show ?case by (cases ys) simp_all
qed simp

lemma cmp_bytes_more_Cons:
  assumes "op = MP_BINARY_OP_MORE \<or> op = MP_BINARY_OP_MORE_EQUAL"
  shows "cmp_bytes_more op (x # xs) (y # ys) \<longleftrightarrow> y < x \<or> x = y \<and> cmp_bytes_more op xs ys"
proof -
  have "cmp_tie op (Suc m) (Suc n) = cmp_tie op m n" for m n by (simp add: cmp_tie_def)
  moreover have "uint x - uint y < 0 \<longleftrightarrow> x < y" "0 < uint x - uint y \<longleftrightarrow> y < x" by (simp_all add: word_less_def)
  ultimately show ?thesis
    using assms less_linear [of x y] unfolding cmp_bytes_more_def Let_def memcmp_prefix by auto
qed

lemma cmp_bytes_more_iff:
  "cmp_bytes_more MP_BINARY_OP_MORE xs ys \<longleftrightarrow> ord_class.lexordp ys xs"
  "cmp_bytes_more MP_BINARY_OP_MORE_EQUAL xs ys \<longleftrightarrow> ord_class.lexordp_eq ys xs"
proof (induction xs arbitrary: ys)
  case Nil
  { case 1 show ?case by (cases ys) (simp_all add: cmp_bytes_more_def cmp_tie_def) }
  { case 2 show ?case by (cases ys) (simp_all add: cmp_bytes_more_def cmp_tie_def) }
next
  case (Cons x xs)
  { case 1 show ?case
    proof (cases ys)
      case Nil
      then show ?thesis by (simp add: cmp_bytes_more_def cmp_tie_def)
    next
      case (Cons y zs)
      then show ?thesis using Cons.IH(1) [of zs] by (auto simp: cmp_bytes_more_Cons)
    qed }
  { case 2 show ?case
    proof (cases ys)
      case Nil
      then show ?thesis by (simp add: cmp_bytes_more_def cmp_tie_def)
    next
      case (Cons y zs)
      then show ?thesis using Cons.IH(2) [of zs] by (auto simp: cmp_bytes_more_Cons)
    qed }
qed

lemma memcmp_0: "length xs = length ys \<Longrightarrow> memcmp (length xs) xs ys = 0 \<longleftrightarrow> xs = ys"
  by (induction xs ys rule: list_induct2) (auto simp: word_uint_eq_iff)

text \<open>The relations of sequences are those of the lexicographic order.\<close>

fun lex_rel :: "cmp_op \<Rightarrow> 'a :: linorder list \<Rightarrow> 'a list \<Rightarrow> bool" where
  "lex_rel MP_BINARY_OP_EQUAL xs ys \<longleftrightarrow> xs = ys"
| "lex_rel MP_BINARY_OP_LESS xs ys \<longleftrightarrow> ord_class.lexordp xs ys"
| "lex_rel MP_BINARY_OP_LESS_EQUAL xs ys \<longleftrightarrow> ord_class.lexordp_eq xs ys"
| "lex_rel MP_BINARY_OP_MORE xs ys \<longleftrightarrow> ord_class.lexordp ys xs"
| "lex_rel MP_BINARY_OP_MORE_EQUAL xs ys \<longleftrightarrow> ord_class.lexordp_eq ys xs"

lemma mp_seq_cmp_bytes_iff: "mp_seq_cmp_bytes op xs ys \<longleftrightarrow> lex_rel op xs ys"
proof (cases op)
  case MP_BINARY_OP_EQUAL
  then show ?thesis
    using memcmp_0 [of xs ys] by (auto simp: mp_seq_cmp_bytes_def cmp_bytes_more_def Let_def)
qed (simp_all add: mp_seq_cmp_bytes_def cmp_bytes_more_iff)

fun elem_rel :: "cmp_op \<Rightarrow> 'a :: linorder \<Rightarrow> 'a \<Rightarrow> bool" where
  "elem_rel MP_BINARY_OP_EQUAL x y \<longleftrightarrow> x = y"
| "elem_rel MP_BINARY_OP_LESS x y \<longleftrightarrow> x < y"
| "elem_rel MP_BINARY_OP_LESS_EQUAL x y \<longleftrightarrow> x \<le> y"
| "elem_rel MP_BINARY_OP_MORE x y \<longleftrightarrow> y < x"
| "elem_rel MP_BINARY_OP_MORE_EQUAL x y \<longleftrightarrow> y \<le> x"

lemma cmp_objs_more_iff:
  "cmp_objs_more (=) elem_rel MP_BINARY_OP_MORE xs ys \<longleftrightarrow> ord_class.lexordp ys xs"
  "cmp_objs_more (=) elem_rel MP_BINARY_OP_MORE_EQUAL xs ys \<longleftrightarrow> ord_class.lexordp_eq ys xs"
  "cmp_objs_more (=) elem_rel MP_BINARY_OP_EQUAL xs ys \<longleftrightarrow> length ys \<le> length xs \<and> take (length ys) xs = ys"
proof (induction xs arbitrary: ys)
  case Nil
  { case 1 show ?case by (cases ys) (simp_all add: cmp_objs_more_def cmp_tie_def) }
  { case 2 show ?case by (cases ys) (simp_all add: cmp_objs_more_def cmp_tie_def) }
  { case 3 show ?case by (cases ys) (simp_all add: cmp_objs_more_def cmp_tie_def) }
next
  case (Cons x xs)
  have step: "cmp_objs_more (=) elem_rel op (x # xs) (y # zs) \<longleftrightarrow>
      (if x = y then cmp_objs_more (=) elem_rel op xs zs else op \<noteq> MP_BINARY_OP_EQUAL \<and> elem_rel op x y)" for op y zs
    by (cases "x = y") (simp_all add: cmp_objs_more_def cmp_tie_def split: option.split)
  have empty: "cmp_objs_more (=) elem_rel op (x # xs) []" if "op \<noteq> MP_BINARY_OP_LESS" for op
    by (simp add: cmp_objs_more_def cmp_tie_def)
  { case 1 show ?case using Cons.IH(1) step [of MP_BINARY_OP_MORE] empty by (cases ys) auto }
  { case 2 show ?case using Cons.IH(2) step [of MP_BINARY_OP_MORE_EQUAL] empty by (cases ys) auto }
  { case 3 show ?case using Cons.IH(3) step [of MP_BINARY_OP_EQUAL] empty by (cases ys) auto }
qed

lemma mp_seq_cmp_objs_iff: "mp_seq_cmp_objs (=) elem_rel op xs ys \<longleftrightarrow> lex_rel op xs ys"
  by (cases op) (auto simp: mp_seq_cmp_objs_def cmp_objs_more_iff)

section \<open>Indices and slices\<close>

lemma mp_get_index_ok:
  "mp_get_index type_name n i False =
    (if - int n \<le> i \<and> i < int n then Inr (nat (i mod int n)) else Inl (IndexError (type_name @ '' index out of range'')))"
proof (cases "- int n \<le> i \<and> i < int n")
  case True
  then have "i mod int n = (if i < 0 then i + int n else i)"
    using mod_add_self2 [of i "int n"] mod_pos_pos_trivial [of "i + int n" "int n"] by (cases "i < 0") auto
  then show ?thesis using True by (auto simp: mp_get_index_def Let_def)
qed (auto simp: mp_get_index_def Let_def)

lemma slice_bound_range: "lo \<le> hi \<Longrightarrow> lo \<le> slice_bound len lo hi v \<and> slice_bound len lo hi v \<le> hi"
  by (simp add: slice_bound_def Let_def)

lemma slice_indices_bounds:
  assumes "mp_obj_slice_indices sl len = Inr b" "0 \<le> len"
  shows "bs_step b \<noteq> 0" "bs_step b = (case sl_step sl of None \<Rightarrow> 1 | Some s \<Rightarrow> s)"
    "0 < bs_step b \<Longrightarrow> 0 \<le> bs_start b \<and> bs_start b \<le> len \<and> 0 \<le> bs_stop b \<and> bs_stop b \<le> len"
    "bs_step b < 0 \<Longrightarrow> - 1 \<le> bs_start b \<and> bs_start b < len \<and> - 1 \<le> bs_stop b \<and> bs_stop b < len"
  using assms slice_bound_range [of 0 len len] slice_bound_range [of "- 1" "len - 1" len]
  by (auto simp: mp_obj_slice_indices_def Let_def split: if_splits option.splits)

lemma slice_indexes_cases:
  assumes "mp_seq_get_fast_slice_indexes len sl = Inr (fast, b)"
  shows "fast = (bs_step b = 1)" "bs_step b \<noteq> 0" "bs_step b = (case sl_step sl of None \<Rightarrow> 1 | Some s \<Rightarrow> s)"
    "0 < bs_step b \<Longrightarrow> 0 \<le> bs_start b \<and> bs_start b \<le> bs_stop b \<and> bs_stop b \<le> int len"
    "bs_step b < 0 \<Longrightarrow> - 1 \<le> bs_start b \<and> bs_start b < int len \<and> 0 \<le> bs_stop b \<and> bs_stop b \<le> bs_start b + 1"
proof -
  obtain a where a: "mp_obj_slice_indices sl (int len) = Inr a"
    using assms by (auto simp: mp_seq_get_fast_slice_indexes_def split: sum.splits)
  note bounds = slice_indices_bounds [OF a of_nat_0_le_iff]
  show "fast = (bs_step b = 1)" "bs_step b \<noteq> 0" "bs_step b = (case sl_step sl of None \<Rightarrow> 1 | Some s \<Rightarrow> s)"
    "0 < bs_step b \<Longrightarrow> 0 \<le> bs_start b \<and> bs_start b \<le> bs_stop b \<and> bs_stop b \<le> int len"
    "bs_step b < 0 \<Longrightarrow> - 1 \<le> bs_start b \<and> bs_start b < int len \<and> 0 \<le> bs_stop b \<and> bs_stop b \<le> bs_start b + 1"
    using assms a bounds by (auto simp: mp_seq_get_fast_slice_indexes_def Let_def split: if_splits)
qed

text \<open>The positions that a resolved slice selects, in order.\<close>

definition slice_positions :: "bound_slice \<Rightarrow> int list" where
  "slice_positions b =
    (if bs_step b > 0
     then filter (\<lambda>i. bs_step b dvd (i - bs_start b)) [bs_start b..bs_stop b - 1]
     else rev (filter (\<lambda>i. bs_step b dvd (bs_start b - i)) [bs_stop b..bs_start b]))"

lemma dvd_between: "0 < k \<Longrightarrow> k dvd d \<Longrightarrow> 0 < (d :: int) \<Longrightarrow> k \<le> d"
  by (rule zdvd_imp_le)

lemma filter_up:
  fixes start :: int
  assumes "0 < step" "start < stop"
  shows "filter (\<lambda>i. step dvd (i - start)) [start..stop - 1] =
    start # filter (\<lambda>i. step dvd (i - (start + step))) [start + step..stop - 1]"
proof -
  let ?m = "min (start + step) stop"
  have "[start + 1..stop - 1] = [start + 1..?m - 1] @ [?m..stop - 1]"
    using assms upto_split1 [of "start + 1" ?m "stop - 1"] by (cases "?m \<le> stop - 1") auto
  moreover have "filter (\<lambda>i. step dvd (i - start)) [start + 1..?m - 1] = []"
    using assms by (auto simp: filter_empty_conv dest!: zdvd_imp_le)
  moreover have "[?m..stop - 1] = [start + step..stop - 1]" by (cases "start + step \<le> stop") (simp_all add: min_def)
  moreover have "(\<lambda>i. step dvd (i - start)) = (\<lambda>i. step dvd (i - (start + step)))"
  proof
    fix i
    have "i - (start + step) = (i - start) - step" by simp
    then show "step dvd (i - start) \<longleftrightarrow> step dvd (i - (start + step))" by (metis dvd_diff_left_iff dvd_refl)
  qed
  moreover have "[start..stop - 1] = start # [start + 1..stop - 1]" using assms by (simp add: upto_rec1)
  ultimately show ?thesis by (metis (no_types, lifting) append_Nil cancel_comm_monoid_add_class.diff_cancel dvd_0_right filter.simps(2) filter_append)
qed

lemma filter_down:
  fixes start :: int
  assumes "step < 0" "stop \<le> start"
  shows "rev (filter (\<lambda>i. step dvd (start - i)) [stop..start]) =
    start # rev (filter (\<lambda>i. step dvd (start + step - i)) [stop..start + step])"
proof -
  let ?m = "max (start + step) (stop - 1)"
  have e1: "[stop..start - 1] = [stop..?m] @ [?m + 1..start - 1]"
    using assms upto_split2 [of stop ?m "start - 1"] by (cases "stop \<le> ?m") auto
  have e2: "filter (\<lambda>i. step dvd (start - i)) [?m + 1..start - 1] = []"
    using assms zdvd_imp_le [of "- step"] by (fastforce simp: filter_empty_conv)
  have e3: "[stop..?m] = [stop..start + step]" by (cases "stop - 1 \<le> start + step") (simp_all add: max_def)
  have e4: "(\<lambda>i. step dvd (start - i)) = (\<lambda>i. step dvd (start + step - i))"
  proof
    fix i
    have "start + step - i = (start - i) + step" by simp
    then show "step dvd (start - i) \<longleftrightarrow> step dvd (start + step - i)" by (metis dvd_add_left_iff dvd_refl)
  qed
  have e5: "[stop..start] = [stop..start - 1] @ [start]" using assms by (simp add: upto_rec2)
  have "rev (filter (\<lambda>i. step dvd (start - i)) [stop..start]) = start # rev (filter (\<lambda>i. step dvd (start - i)) [stop..start + step])"
    unfolding e5 e1 filter_append e2 e3 by simp
  then show ?thesis unfolding e4 .
qed

lemma extract_up:
  assumes "0 \<le> start" "stop \<le> int (length seq)" "0 < step" "step \<le> 2 ^ 30" "length seq < 2 ^ 30"
  shows "extract_loop seq start stop step res =
    Some (res @ map (\<lambda>i. seq ! nat i) (filter (\<lambda>i. step dvd (i - start)) [start..stop - 1]))"
  using assms(1)
proof (induction "nat (stop - start)" arbitrary: start res rule: less_induct)
  case less
  show ?case
  proof (cases "start < stop")
    case True
    have "s32 (start + step) = start + step" using True assms less.prems by (intro s32_id) simp_all
    moreover have "extract_loop seq (start + step) stop step (res @ [seq ! nat start]) =
        Some ((res @ [seq ! nat start]) @ map (\<lambda>i. seq ! nat i) (filter (\<lambda>i. step dvd (i - (start + step))) [start + step..stop - 1]))"
      using True assms(3) less.prems by (intro less.hyps) simp_all
    ultimately show ?thesis
      using True assms less.prems filter_up [OF assms(3) True] by (subst extract_loop.simps) simp
  qed (use assms(3) in \<open>subst extract_loop.simps, simp\<close>)
qed

lemma extract_down:
  assumes "0 \<le> stop" "start < int (length seq)" "step < 0" "- (2 ^ 30) \<le> step" "length seq < 2 ^ 30"
  shows "extract_loop seq start stop step res =
    Some (res @ map (\<lambda>i. seq ! nat i) (rev (filter (\<lambda>i. step dvd (start - i)) [stop..start])))"
  using assms(2)
proof (induction "nat (start - stop + 1)" arbitrary: start res rule: less_induct)
  case less
  show ?case
  proof (cases "stop \<le> start")
    case True
    have "s32 (start + step) = start + step" using True assms less.prems by (intro s32_id) simp_all
    moreover have "extract_loop seq (start + step) stop step (res @ [seq ! nat start]) =
        Some ((res @ [seq ! nat start]) @ map (\<lambda>i. seq ! nat i) (rev (filter (\<lambda>i. step dvd (start + step - i)) [stop..start + step])))"
      using True assms(3) less.prems by (intro less.hyps) simp_all
    ultimately show ?thesis
      using True assms less.prems filter_down [OF assms(3) True] by (subst extract_loop.simps) simp
  qed (use assms(3) in \<open>subst extract_loop.simps, simp\<close>)
qed

lemma mp_seq_extract_slice_ok:
  assumes "mp_seq_get_fast_slice_indexes (length seq) sl = Inr (fast, b)" "length seq < 2 ^ 30" "\<bar>bs_step b\<bar> \<le> 2 ^ 30"
  shows "mp_seq_extract_slice seq b = Some (map (\<lambda>i. seq ! nat i) (slice_positions b))"
proof (cases "0 < bs_step b")
  case True
  then show ?thesis
    using slice_indexes_cases [OF assms(1)] assms(2,3) extract_up [of "bs_start b" "bs_stop b" seq "bs_step b" "[]"]
    by (simp add: mp_seq_extract_slice_def slice_positions_def)
next
  case False
  then show ?thesis
    using slice_indexes_cases [OF assms(1)] assms(2,3) extract_down [of "bs_stop b" "bs_start b" seq "bs_step b" "[]"]
    by (simp add: mp_seq_extract_slice_def slice_positions_def)
qed

text \<open>
  With a step of the size of a word the position overflows: \<^verbatim>\<open>[1, 2][1::2147483647]\<close> reads far
  outside the list.
\<close>

lemma extract_slice_overflow:
  "mp_seq_get_fast_slice_indexes 2 \<lparr>sl_start = Some 1, sl_stop = None, sl_step = Some 2147483647\<rparr> =
     Inr (False, \<lparr>bs_start = 1, bs_stop = 2, bs_step = 2147483647\<rparr>)"
  "mp_seq_extract_slice [1 :: nat, 2] \<lparr>bs_start = 1, bs_stop = 2, bs_step = 2147483647\<rparr> = None"
proof -
  show "mp_seq_get_fast_slice_indexes 2 \<lparr>sl_start = Some 1, sl_stop = None, sl_step = Some 2147483647\<rparr> =
     Inr (False, \<lparr>bs_start = 1, bs_stop = 2, bs_step = 2147483647\<rparr>)" 
    by (simp add: mp_seq_get_fast_slice_indexes_def mp_obj_slice_indices_def slice_bound_def Let_def)
  show "mp_seq_extract_slice [1 :: nat, 2] \<lparr>bs_start = 1, bs_stop = 2, bs_step = 2147483647\<rparr> = None"
    unfolding mp_seq_extract_slice_def
    by (simp add: extract_loop.simps [of _ 1] extract_loop.simps [of _ "- 2147483648"] s32_def)
qed

section \<open>Search, count and repetition\<close>

lemma index_loop_find: "index_loop equal items i n = find (\<lambda>j. equal (items ! j)) [i..<i + n]"
proof (induction n arbitrary: i)
  case (Suc n)
  have "[i..<i + Suc n] = i # [i + 1..<i + 1 + n]" by (simp add: upt_rec)
  then show ?case using Suc.IH [of "i + 1"] by simp
qed simp

lemma count_filter: "mp_seq_count_obj equal xs = length (filter equal xs)"
  by (induction xs) simp_all

lemma mp_seq_multiply_eq:
  "off + n * length items \<le> length dest \<Longrightarrow>
    mp_seq_multiply items n dest off = take off dest @ concat (replicate n items) @ drop (off + n * length items) dest"
proof (induction n arbitrary: dest off)
  case (Suc n)
  have len: "length (blit dest off items) = length dest" using Suc.prems by (intro length_blit) simp
  have "mp_seq_multiply items n (blit dest off items) (off + length items) =
      take (off + length items) (blit dest off items) @ concat (replicate n items) @
      drop (off + length items + n * length items) (blit dest off items)"
    using Suc.prems len by (intro Suc.IH) simp
  then show ?case using Suc.prems by (simp add: blit_def ac_simps)
qed simp

section \<open>Properties\<close>

text \<open>
  C35. The comparison of byte strings and of arrays of objects, which exchanges the operands of
  less and less-or-equal and stops at the first difference, is the lexicographic order with its
  five relations.
\<close>

theorem seq_cmp_lexicographic:
  "(mp_seq_cmp_bytes op data1 data2 \<longleftrightarrow> lex_rel op data1 data2) \<and>
   (mp_seq_cmp_objs (=) elem_rel op items1 items2 \<longleftrightarrow> lex_rel op items1 items2)"
  by (simp add: mp_seq_cmp_bytes_iff mp_seq_cmp_objs_iff)

end
