(* ===== verification/List_Obj.thy ===== *)
theory List_Obj
  imports Sequence
begin

text \<open>
  The list type of \<^verbatim>\<open>py/objlist.c\<close>: an array of object pointers with a length and an
  allocated size.  New memory holds arbitrary values, which are the argument \<open>junk\<close> of the
  operations that allocate.  Free slots are cleared, so that the garbage collector does not
  keep objects alive through them.
\<close>

section \<open>Model\<close>

record 'o mp_list =
  l_alloc :: nat
  l_len :: nat
  l_items :: "'o obj list"

definition LIST_MIN_ALLOC :: nat where "LIST_MIN_ALLOC = 4"

text \<open>\<^verbatim>\<open>m_renew\<close>, and \<^verbatim>\<open>mp_seq_clear(items, from, till)\<close>, which needs \<open>from \<le> till\<close>.\<close>

definition m_renew :: "'o obj \<Rightarrow> 'o obj list \<Rightarrow> nat \<Rightarrow> 'o obj list" where
  "m_renew junk items n = take n items @ replicate (n - length items) junk"

definition mp_seq_clear :: "'o obj list \<Rightarrow> nat \<Rightarrow> nat \<Rightarrow> 'o obj list" where
  "mp_seq_clear items from till = blit items from (replicate (till - from) MP_OBJ_NULL)"

subsection \<open>Construction\<close>

definition mp_obj_list_init :: "'o obj \<Rightarrow> nat \<Rightarrow> 'o mp_list" where
  "mp_obj_list_init junk n =
    (let alloc = (if n < LIST_MIN_ALLOC then LIST_MIN_ALLOC else n)
     in \<lparr>l_alloc = alloc, l_len = n, l_items = mp_seq_clear (replicate alloc junk) n alloc\<rparr>)"

definition list_new :: "'o obj \<Rightarrow> nat \<Rightarrow> 'o mp_list" where
  "list_new junk n = mp_obj_list_init junk n"

definition mp_obj_new_list :: "'o obj \<Rightarrow> nat \<Rightarrow> 'o obj list option \<Rightarrow> 'o mp_list" where
  "mp_obj_new_list junk n items =
    (let l = list_new junk n
     in case items of
          None \<Rightarrow> l
        | Some xs \<Rightarrow> l\<lparr>l_items := foldl (\<lambda>a i. a[i := xs ! i]) (l_items l) [0..<n]\<rparr>)"

subsection \<open>Growing and shrinking\<close>

definition mp_obj_list_append :: "'o obj \<Rightarrow> 'o mp_list \<Rightarrow> 'o obj \<Rightarrow> 'o mp_list" where
  "mp_obj_list_append junk self arg =
    (let self = (if l_len self \<ge> l_alloc self
                 then let items = m_renew junk (l_items self) (l_alloc self * 2);
                          alloc = l_alloc self * 2
                      in self\<lparr>l_alloc := alloc, l_items := mp_seq_clear items (l_len self + 1) alloc\<rparr>
                 else self)
     in self\<lparr>l_items := (l_items self)[l_len self := arg], l_len := l_len self + 1\<rparr>)"

fun list_extend_from_iter :: "'o obj \<Rightarrow> 'o mp_list \<Rightarrow> 'o obj list \<Rightarrow> 'o mp_list" where
  "list_extend_from_iter junk l [] = l"
| "list_extend_from_iter junk l (item # items) = list_extend_from_iter junk (mp_obj_list_append junk l item) items"

text \<open>The argument of an extension: the list itself, another list, or the items of an iterable.\<close>

datatype 'o list_arg = Same_List | List_Arg "'o mp_list" | Iter_Arg "'o obj list"

definition extend_items :: "'o obj \<Rightarrow> 'o mp_list \<Rightarrow> nat \<Rightarrow> ('o mp_list \<Rightarrow> 'o obj list) \<Rightarrow> 'o mp_list" where
  "extend_items junk self arg_len arg_items =
    (let self = (if l_len self + arg_len > l_alloc self
                 then let alloc = l_len self + arg_len + 4;
                          items = m_renew junk (l_items self) alloc
                      in self\<lparr>l_alloc := alloc, l_items := mp_seq_clear items (l_len self + arg_len) alloc\<rparr>
                 else self)
     in self\<lparr>l_items := blit (l_items self) (l_len self) (take arg_len (arg_items self)),
             l_len := l_len self + arg_len\<rparr>)"

definition list_extend :: "'o obj \<Rightarrow> 'o mp_list \<Rightarrow> 'o list_arg \<Rightarrow> 'o mp_list" where
  "list_extend junk self arg =
    (case arg of
       Same_List \<Rightarrow> extend_items junk self (l_len self) l_items
     | List_Arg a \<Rightarrow> extend_items junk self (l_len a) (\<lambda>_. l_items a)
     | Iter_Arg xs \<Rightarrow> list_extend_from_iter junk self xs)"

definition mp_obj_list_make_new :: "'o obj \<Rightarrow> 'o obj list option \<Rightarrow> 'o mp_list" where
  "mp_obj_list_make_new junk arg =
    (case arg of
       None \<Rightarrow> mp_obj_new_list junk 0 None
     | Some xs \<Rightarrow> list_extend_from_iter junk (mp_obj_new_list junk 0 None) xs)"

definition list_pop :: "'o mp_list \<Rightarrow> int option \<Rightarrow> 'o mp_list \<times> 'o obj result" where
  "list_pop self arg =
    (if l_len self = 0 then (self, Inl (IndexError ''pop from empty list''))
     else case mp_get_index ''list'' (l_len self) (case arg of None \<Rightarrow> - 1 | Some i \<Rightarrow> i) False of
         Inl e \<Rightarrow> (self, Inl e)
       | Inr index \<Rightarrow>
           let ret = l_items self ! index;
               len = l_len self - 1;
               items = blit (l_items self) index (take (len - index) (drop (index + 1) (l_items self)));
               items = items[len := MP_OBJ_NULL];
               self = self\<lparr>l_len := len, l_items := items\<rparr>
           in (if l_alloc self > LIST_MIN_ALLOC \<and> l_alloc self > 2 * l_len self
               then self\<lparr>l_items := m_renew MP_OBJ_NULL (l_items self) (l_alloc self div 2), l_alloc := l_alloc self div 2\<rparr>
               else self, Inr ret))"

definition list_clear :: "'o obj \<Rightarrow> 'o mp_list \<Rightarrow> 'o mp_list" where
  "list_clear junk self =
    self\<lparr>l_len := 0, l_alloc := LIST_MIN_ALLOC,
      l_items := mp_seq_clear (m_renew junk (l_items self) LIST_MIN_ALLOC) 0 LIST_MIN_ALLOC\<rparr>"

definition list_copy :: "'o obj \<Rightarrow> 'o mp_list \<Rightarrow> 'o mp_list" where
  "list_copy junk self = mp_obj_new_list junk (l_len self) (Some (l_items self))"

subsection \<open>Other methods\<close>

text \<open>Equality of objects is the argument \<open>equal\<close>.\<close>

definition list_count :: "('o obj \<Rightarrow> 'o obj \<Rightarrow> bool) \<Rightarrow> 'o mp_list \<Rightarrow> 'o obj \<Rightarrow> nat" where
  "list_count equal self v = mp_seq_count_obj (\<lambda>x. equal x v) (take (l_len self) (l_items self))"

definition list_index ::
  "('o obj \<Rightarrow> 'o obj \<Rightarrow> bool) \<Rightarrow> 'o mp_list \<Rightarrow> 'o obj \<Rightarrow> int option \<Rightarrow> int option \<Rightarrow> nat result" where
  "list_index equal self v start stop = mp_seq_index_obj ''list'' (\<lambda>x. equal x v) (take (l_len self) (l_items self)) start stop"

definition insert_index :: "nat \<Rightarrow> int \<Rightarrow> nat" where
  "insert_index len index =
    (let index = (if index < 0 then index + int len else index);
         index = (if index < 0 then 0 else index)
     in nat (if index > int len then int len else index))"

definition list_insert :: "'o obj \<Rightarrow> 'o obj \<Rightarrow> 'o mp_list \<Rightarrow> int \<Rightarrow> 'o obj \<Rightarrow> 'o mp_list" where
  "list_insert junk none self idx obj =
    (let index = insert_index (l_len self) idx;
         self = mp_obj_list_append junk self none;
         items = foldl (\<lambda>a i. a[i := a ! (i - 1)]) (l_items self) (rev [index + 1..<l_len self])
     in self\<lparr>l_items := items[index := obj]\<rparr>)"

definition mp_obj_list_remove :: "('o obj \<Rightarrow> 'o obj \<Rightarrow> bool) \<Rightarrow> 'o mp_list \<Rightarrow> 'o obj \<Rightarrow> 'o mp_list \<times> unit result" where
  "mp_obj_list_remove equal self v =
    (case list_index equal self v None None of
       Inl e \<Rightarrow> (self, Inl e)
     | Inr i \<Rightarrow>
         (case list_pop self (Some (int i)) of
            (self, Inl e) \<Rightarrow> (self, Inl e)
          | (self, Inr _) \<Rightarrow> (self, Inr ())))"

definition list_reverse :: "'o mp_list \<Rightarrow> 'o mp_list" where
  "list_reverse self =
    (let len = l_len self
     in self\<lparr>l_items := foldl (\<lambda>a i. a[i := a ! (len - i - 1), len - i - 1 := a ! i]) (l_items self) [0..<len div 2]\<rparr>)"

definition mp_obj_list_get :: "'o mp_list \<Rightarrow> nat \<times> 'o obj list" where
  "mp_obj_list_get self = (l_len self, l_items self)"

definition mp_obj_list_set_len :: "'o mp_list \<Rightarrow> nat \<Rightarrow> 'o mp_list" where
  "mp_obj_list_set_len self len = self\<lparr>l_len := len\<rparr>"

definition mp_obj_list_store :: "'o mp_list \<Rightarrow> int \<Rightarrow> 'o obj \<Rightarrow> 'o mp_list \<times> unit result" where
  "mp_obj_list_store self index v =
    (case mp_get_index ''list'' (l_len self) index False of
       Inl e \<Rightarrow> (self, Inl e)
     | Inr i \<Rightarrow> (self\<lparr>l_items := (l_items self)[i := v]\<rparr>, Inr ()))"

definition list_it_iternext :: "'o mp_list \<Rightarrow> nat \<Rightarrow> ('o obj \<times> nat) option" where
  "list_it_iternext l cur = (if cur < l_len l then Some (l_items l ! cur, cur + 1) else None)"

subsection \<open>Operators and subscription\<close>

definition list_bool :: "'o mp_list \<Rightarrow> bool" where
  "list_bool self = (l_len self \<noteq> 0)"

definition list_len :: "'o mp_list \<Rightarrow> nat" where
  "list_len self = l_len self"

definition list_add :: "'o obj \<Rightarrow> 'o mp_list \<Rightarrow> 'o mp_list \<Rightarrow> 'o mp_list" where
  "list_add junk o1 p =
    (let s = list_new junk (l_len o1 + l_len p)
     in s\<lparr>l_items := blit (blit (l_items s) 0 (take (l_len o1) (l_items o1))) (l_len o1) (take (l_len p) (l_items p))\<rparr>)"

definition list_multiply :: "'o obj \<Rightarrow> 'o mp_list \<Rightarrow> int \<Rightarrow> 'o mp_list" where
  "list_multiply junk self n =
    (let n = nat (if n < 0 then 0 else n);
         s = list_new junk (l_len self * n)
     in s\<lparr>l_items := mp_seq_multiply (take (l_len self) (l_items self)) n (l_items s) 0\<rparr>)"

definition list_compare ::
  "('o obj \<Rightarrow> 'o obj \<Rightarrow> bool) \<Rightarrow> (cmp_op \<Rightarrow> 'o obj \<Rightarrow> 'o obj \<Rightarrow> bool) \<Rightarrow> cmp_op \<Rightarrow> 'o mp_list \<Rightarrow> 'o mp_list \<Rightarrow> bool" where
  "list_compare equal binop op o1 another =
    mp_seq_cmp_objs equal binop op (take (l_len o1) (l_items o1)) (take (l_len another) (l_items another))"

definition mp_seq_replace_slice_no_grow :: "'a list \<Rightarrow> nat \<Rightarrow> nat \<Rightarrow> nat \<Rightarrow> 'a list \<Rightarrow> 'a list" where
  "mp_seq_replace_slice_no_grow dest dest_len beg fin new_items =
    (let dest = blit dest beg new_items
     in blit dest (beg + length new_items) (take (dest_len - fin) (drop fin dest)))"

definition mp_seq_replace_slice_grow_inplace :: "'a list \<Rightarrow> nat \<Rightarrow> nat \<Rightarrow> nat \<Rightarrow> 'a list \<Rightarrow> nat \<Rightarrow> 'a list" where
  "mp_seq_replace_slice_grow_inplace dest dest_len beg fin new_items len_adj =
    (let dest = blit dest (beg + length new_items)
                  (take (dest_len + len_adj - (beg + length new_items)) (drop fin dest))
     in blit dest beg new_items)"

definition assign_slice :: "'o obj \<Rightarrow> 'o mp_list \<Rightarrow> nat \<Rightarrow> nat \<Rightarrow> 'o obj list \<Rightarrow> 'o mp_list" where
  "assign_slice junk self start stop value_items =
    (let len_adj = int (length value_items) - int (stop - start)
     in if len_adj > 0
        then let adj = nat len_adj;
                 self = (if l_len self + adj > l_alloc self
                         then self\<lparr>l_items := m_renew junk (l_items self) (l_len self + adj), l_alloc := l_len self + adj\<rparr>
                         else self)
             in self\<lparr>l_items := mp_seq_replace_slice_grow_inplace (l_items self) (l_len self) start stop value_items adj,
                     l_len := l_len self + adj\<rparr>
        else let len = nat (int (l_len self) + len_adj);
                 items = mp_seq_replace_slice_no_grow (l_items self) (l_len self) start stop value_items
             in self\<lparr>l_items := mp_seq_clear items len (l_len self), l_len := len\<rparr>)"

text \<open>
  The index is an integer or a slice.  A value to be stored is an object; if it is a list or a
  tuple, a slice can be replaced by its items, which are in another array.
\<close>

datatype list_key = Index int | Slice slice_obj

datatype 'o list_value = Delete | Load | Store "'o obj" "'o obj list option"

datatype 'o list_ret = Ret_None | Ret_Obj "'o obj" | Ret_List "'o mp_list"

definition list_subscr ::
  "'o obj \<Rightarrow> 'o mp_list \<Rightarrow> list_key \<Rightarrow> 'o list_value \<Rightarrow> ('o mp_list \<times> 'o list_ret result) option" where
  "list_subscr junk self key v =
    (case key of
       Slice sl \<Rightarrow>
         (case mp_seq_get_fast_slice_indexes (l_len self) sl of
            Inl e \<Rightarrow> Some (self, Inl e)
          | Inr (fast, b) \<Rightarrow>
              (case v of
                 Load \<Rightarrow>
                   if \<not> fast
                   then map_option (\<lambda>xs. (self, Inr (Ret_List (list_extend_from_iter junk (mp_obj_new_list junk 0 None) xs))))
                          (mp_seq_extract_slice (take (l_len self) (l_items self)) b)
                   else let n = nat (bs_stop b - bs_start b); res = list_new junk n
                        in Some (self, Inr (Ret_List (res\<lparr>l_items :=
                             blit (l_items res) 0 (take n (drop (nat (bs_start b)) (l_items self)))\<rparr>)))
               | _ \<Rightarrow>
                   if \<not> fast then Some (self, Inl NotImplementedError)
                   else case (case v of Store _ arr \<Rightarrow> arr | _ \<Rightarrow> Some []) of
                       None \<Rightarrow> Some (self, Inl (TypeError ''expected tuple/list''))
                     | Some value_items \<Rightarrow>
                         Some (assign_slice junk self (nat (bs_start b)) (nat (bs_stop b)) value_items, Inr Ret_None)))
     | Index i \<Rightarrow>
         (case v of
            Delete \<Rightarrow>
              (case list_pop self (Some i) of
                 (self, Inl e) \<Rightarrow> Some (self, Inl e)
               | (self, Inr _) \<Rightarrow> Some (self, Inr Ret_None))
          | Load \<Rightarrow>
              (case mp_get_index ''list'' (l_len self) i False of
                 Inl e \<Rightarrow> Some (self, Inl e)
               | Inr j \<Rightarrow> Some (self, Inr (Ret_Obj (l_items self ! j))))
          | Store x _ \<Rightarrow>
              (case mp_obj_list_store self i x of
                 (self, Inl e) \<Rightarrow> Some (self, Inl e)
               | (self, Inr _) \<Rightarrow> Some (self, Inr Ret_None))))"

section \<open>Representation\<close>

text \<open>A list object represents a sequence: its items, followed by cleared slots.\<close>

definition list_rep :: "'o mp_list \<Rightarrow> 'o obj list \<Rightarrow> bool" where
  "list_rep l xs \<longleftrightarrow> (\<exists>k. l_items l = xs @ replicate k MP_OBJ_NULL \<and> l_alloc l = length xs + k \<and>
     l_len l = length xs \<and> 0 < l_alloc l)"

named_theorems list_simps \<open>block operations on the array of a list\<close>

lemma list_repI:
  "l_items l = xs @ replicate k MP_OBJ_NULL \<Longrightarrow> l_alloc l = length xs + k \<Longrightarrow> l_len l = length xs \<Longrightarrow> 0 < l_alloc l \<Longrightarrow>
    list_rep l xs"
  by (auto simp: list_rep_def)

lemma list_repE:
  assumes "list_rep l xs"
  obtains k where "l_items l = xs @ replicate k MP_OBJ_NULL" "l_alloc l = length xs + k" "l_len l = length xs" "0 < length xs + k"
  using assms by (auto simp: list_rep_def)

lemma list_rep_unique: "list_rep l xs \<Longrightarrow> list_rep l ys \<Longrightarrow> xs = ys"
  by (auto simp: list_rep_def append_eq_append_conv)

lemma list_rep_take: "list_rep l xs \<Longrightarrow> take (l_len l) (l_items l) = xs"
  by (auto simp: list_rep_def)

lemma seq_clear_tail: "mp_seq_clear (xs @ ys) (length xs) (length xs + length ys) = xs @ replicate (length ys) MP_OBJ_NULL"
  by (simp add: mp_seq_clear_def blit_def)

lemma renew_tail:
  "length ys \<le> h \<Longrightarrow> h \<le> length ys + k \<Longrightarrow>
    m_renew junk (ys @ replicate k z) h = ys @ replicate (h - length ys) z"
  by (simp add: m_renew_def min_absorb1)

lemma list_new_items:
  "l_items (list_new junk n) = replicate n junk @ replicate (l_alloc (list_new junk n) - n) MP_OBJ_NULL"
  "l_len (list_new junk n) = n" "n \<le> l_alloc (list_new junk n)" "0 < l_alloc (list_new junk n)"
  using seq_clear_tail [of "replicate n junk" "replicate (4 - n) junk"]
  by (auto simp: list_new_def mp_obj_list_init_def Let_def LIST_MIN_ALLOC_def replicate_add [symmetric] mp_seq_clear_def blit_def)

text \<open>Overwriting the first slots of a new list.\<close>

lemma list_rep_filled:
  assumes "length xs = n" "l_items l = xs @ drop n (l_items (list_new junk n))" "l_len l = n" "l_alloc l = l_alloc (list_new junk n)"
  shows "list_rep l xs"
  using assms list_new_items [where n = n and junk = junk] by (intro list_repI [of _ _ "l_alloc (list_new junk n) - n"]) simp_all

lemma copy_loop_eq:
  "n \<le> length a \<Longrightarrow> n \<le> length xs \<Longrightarrow> foldl (\<lambda>a i. a[i := xs ! i]) a [0..<n] = take n xs @ drop n a"
proof (induction n)
  case (Suc n)
  then have "foldl (\<lambda>a i. a[i := xs ! i]) a [0..<Suc n] = (take n xs @ drop n a)[n := xs ! n]" by simp
  also have "\<dots> = take (Suc n) xs @ drop (Suc n) a"
    using Suc.prems by (simp add: list_update_append take_Suc_conv_app_nth Cons_nth_drop_Suc [symmetric])
  finally show ?case .
qed simp

lemma new_list_ok: "n \<le> length xs \<Longrightarrow> list_rep (mp_obj_new_list junk n (Some xs)) (take n xs)"
  using list_new_items [where n = n and junk = junk] copy_loop_eq [of n "l_items (list_new junk n)" xs]
  by (intro list_rep_filled [of _ n _ junk]) (simp_all add: mp_obj_new_list_def Let_def)

lemma new_empty_ok: "list_rep (mp_obj_new_list junk 0 None) []"
  using list_new_items [where n = 0 and junk = junk] by (intro list_rep_filled [of _ 0 _ junk]) (simp_all add: mp_obj_new_list_def Let_def)

section \<open>Append\<close>

lemma append_ok:
  assumes "list_rep l xs"
  shows "list_rep (mp_obj_list_append junk l x) (xs @ [x])"
  using assms
proof (rule list_repE)
  fix k
  assume l: "l_items l = xs @ replicate k MP_OBJ_NULL" "l_alloc l = length xs + k" "l_len l = length xs" "0 < length xs + k"
  show ?thesis
  proof (cases k)
    case 0
    let ?n = "length xs"
    have "m_renew junk (l_items l) (l_alloc l * 2) = (xs @ [junk]) @ replicate (?n - 1) junk"
      using l 0 by (cases xs) (simp_all add: m_renew_def)
    then have "mp_seq_clear (m_renew junk (l_items l) (l_alloc l * 2)) (?n + 1) (l_alloc l * 2) =
        xs @ [junk] @ replicate (?n - 1) MP_OBJ_NULL"
      using seq_clear_tail [of "xs @ [junk]" "replicate (?n - 1) junk"] l 0 by (simp add: mult_2_right)
    then show ?thesis
      using l 0 by (intro list_repI [of _ _ "?n - 1"]) (simp_all add: mp_obj_list_append_def Let_def)
  next
    case (Suc j)
    then show ?thesis
      using l by (intro list_repI [of _ _ j]) (simp_all add: mp_obj_list_append_def Let_def)
  qed
qed

text \<open>What the clients of lists rely on.\<close>

locale growing =
  fixes append :: "'l \<Rightarrow> 'x \<Rightarrow> 'l"
    and rep :: "'l \<Rightarrow> 'x list \<Rightarrow> bool"
  assumes rep_append: "rep l xs \<Longrightarrow> rep (append l x) (xs @ [x])"
begin

lemma rep_appends: "rep l xs \<Longrightarrow> rep (foldl append l ys) (xs @ ys)"
proof (induction ys arbitrary: l xs)
  case (Cons y ys)
  then show ?case using rep_append [of l xs y] Cons.IH [of "append l y" "xs @ [y]"] by simp
qed simp

end

interpretation lists: growing "mp_obj_list_append junk" list_rep for junk
  by unfold_locales (rule append_ok)

lemma extend_from_iter_ok: "list_rep l xs \<Longrightarrow> list_rep (list_extend_from_iter junk l ys) (xs @ ys)"
proof -
  have "list_extend_from_iter junk l ys = foldl (mp_obj_list_append junk) l ys"
    by (induction ys arbitrary: l) simp_all
  then show "list_rep l xs \<Longrightarrow> list_rep (list_extend_from_iter junk l ys) (xs @ ys)" using lists.rep_appends by simp
qed

section \<open>Other operations\<close>

lemma extend_items_ok:
  assumes "list_rep l xs" "\<And>self. take (length xs) (l_items self) = xs \<Longrightarrow> take (length ys) (f self) = ys"
  shows "list_rep (extend_items junk l (length ys) f) (xs @ ys)"
  using assms(1)
proof (rule list_repE)
  fix k
  assume l: "l_items l = xs @ replicate k MP_OBJ_NULL" "l_alloc l = length xs + k" "l_len l = length xs" "0 < length xs + k"
  let ?n = "length xs" and ?m = "length ys"
  show ?thesis
  proof (cases "k < ?m")
    case True
    let ?alloc = "?n + ?m + 4"
    have "m_renew junk (l_items l) ?alloc = (xs @ replicate k MP_OBJ_NULL @ replicate (?m - k) junk) @ replicate 4 junk"
      using l True by (simp add: m_renew_def replicate_add [symmetric])
    then have "mp_seq_clear (m_renew junk (l_items l) ?alloc) (?n + ?m) ?alloc =
        xs @ replicate k MP_OBJ_NULL @ replicate (?m - k) junk @ replicate 4 MP_OBJ_NULL"
      using seq_clear_tail [of "xs @ replicate k MP_OBJ_NULL @ replicate (?m - k) junk" "replicate 4 junk"] True by simp
    moreover define self where "self = l\<lparr>l_alloc := ?alloc, l_items := mp_seq_clear (m_renew junk (l_items l) ?alloc) (?n + ?m) ?alloc\<rparr>"
    ultimately have items: "l_items self = xs @ replicate k MP_OBJ_NULL @ replicate (?m - k) junk @ replicate 4 MP_OBJ_NULL" by simp
    then have t: "take ?m (f self) = ys" by (intro assms(2)) simp
    have "extend_items junk l ?m f = self\<lparr>l_items := blit (l_items self) ?n (take ?m (f self)), l_len := ?n + ?m\<rparr>"
      using l True by (simp add: extend_items_def Let_def self_def)
    moreover have "blit (l_items self) ?n ys = (xs @ ys) @ replicate 4 MP_OBJ_NULL" using True by (simp add: items blit_def)
    ultimately show ?thesis unfolding t by (intro list_repI [of _ _ 4]) (simp_all add: self_def)
  next
    case False
    have t: "take ?m (f l) = ys" using l by (intro assms(2)) simp
    have "extend_items junk l ?m f = l\<lparr>l_items := blit (l_items l) ?n (take ?m (f l)), l_len := ?n + ?m\<rparr>"
      using l False by (simp add: extend_items_def Let_def)
    moreover have "blit (l_items l) ?n ys = (xs @ ys) @ replicate (k - ?m) MP_OBJ_NULL" using l by (simp add: blit_def)
    ultimately show ?thesis unfolding t using l False by (intro list_repI [of _ _ "k - ?m"]) simp_all
  qed
qed

fun list_arg_rep :: "'o obj list \<Rightarrow> 'o list_arg \<Rightarrow> 'o obj list \<Rightarrow> bool" where
  "list_arg_rep xs Same_List ys \<longleftrightarrow> ys = xs"
| "list_arg_rep xs (List_Arg a) ys \<longleftrightarrow> list_rep a ys"
| "list_arg_rep xs (Iter_Arg zs) ys \<longleftrightarrow> ys = zs"

lemma list_extend_ok:
  assumes "list_rep l xs" "list_arg_rep xs arg ys"
  shows "list_rep (list_extend junk l arg) (xs @ ys)"
proof (cases arg)
  case Same_List
  have "l_len l = length xs" using assms(1) by (auto simp: list_rep_def)
  then show ?thesis
    using extend_items_ok [OF assms(1), of ys l_items junk] assms(2) Same_List by (simp add: list_extend_def)
next
  case (List_Arg a)
  then have "l_len a = length ys" "take (length ys) (l_items a) = ys" using assms(2) by (auto simp: list_rep_def)
  then show ?thesis
    using extend_items_ok [OF assms(1), of ys "\<lambda>_. l_items a" junk] List_Arg by (simp add: list_extend_def)
next
  case (Iter_Arg zs)
  then show ?thesis using extend_from_iter_ok [OF assms(1)] assms(2) by (simp add: list_extend_def)
qed

text \<open>The index of Python: negative values count from the end.\<close>

definition py_index :: "'a list \<Rightarrow> int \<Rightarrow> nat option" where
  "py_index xs i = (if - int (length xs) \<le> i \<and> i < int (length xs) then Some (nat (i mod int (length xs))) else None)"

lemma py_index_less: "py_index xs i = Some j \<Longrightarrow> j < length xs"
  by (cases xs) (auto simp: py_index_def nat_less_iff split: if_splits)

lemma get_index_py: "mp_get_index ''list'' (length xs) i False =
    (case py_index xs i of None \<Rightarrow> Inl (IndexError ''list index out of range'') | Some j \<Rightarrow> Inr j)"
  by (simp add: mp_get_index_ok py_index_def)

lemma remove_item:
  assumes "j < length xs"
  shows "(blit (xs @ R) j (take (length xs - 1 - j) (drop (j + 1) (xs @ R))))[length xs - 1 := y] =
    take j xs @ drop (j + 1) xs @ y # R"
proof -
  have "take (length xs - 1 - j) (drop (j + 1) (xs @ R)) = drop (j + 1) xs" using assms by simp
  moreover have "drop (length xs - 1) (xs @ R) = xs ! (length xs - 1) # R"
    using assms Cons_nth_drop_Suc [of "length xs - 1" xs] by simp
  ultimately have "blit (xs @ R) j (take (length xs - 1 - j) (drop (j + 1) (xs @ R))) =
      (take j xs @ drop (j + 1) xs) @ xs ! (length xs - 1) # R"
    using assms by (simp add: blit_def)
  moreover have "length (take j xs @ drop (j + 1) xs) = length xs - 1" using assms by simp
  ultimately show ?thesis by (metis append.assoc list_update_length)
qed

lemma list_pop_ok:
  assumes "list_rep l xs"
  shows "case py_index xs (case arg of None \<Rightarrow> - 1 | Some i \<Rightarrow> i) of
      None \<Rightarrow> list_pop l arg = (l, Inl (IndexError (if xs = [] then ''pop from empty list'' else ''list index out of range'')))
    | Some j \<Rightarrow> \<exists>l'. list_pop l arg = (l', Inr (xs ! j)) \<and> list_rep l' (take j xs @ drop (j + 1) xs)"
  using assms
proof (rule list_repE)
  fix k
  assume l: "l_items l = xs @ replicate k MP_OBJ_NULL" "l_alloc l = length xs + k" "l_len l = length xs" "0 < length xs + k"
  let ?i = "case arg of None \<Rightarrow> - 1 | Some i \<Rightarrow> i"
  show ?thesis
  proof (cases "py_index xs ?i")
    case None
    then show ?thesis using l get_index_py [of xs ?i] by (auto simp: list_pop_def)
  next
    case (Some j)
    then have j: "j < length xs" using py_index_less by blast
    let ?ys = "take j xs @ drop (j + 1) xs" and ?n = "length xs - 1"
    let ?items = "?ys @ replicate (Suc k) MP_OBJ_NULL"
    define l1 where "l1 = l\<lparr>l_len := ?n, l_items := ?items\<rparr>"
    define l2 where "l2 = (if l_alloc l1 > LIST_MIN_ALLOC \<and> l_alloc l1 > 2 * l_len l1
      then l1\<lparr>l_items := m_renew MP_OBJ_NULL (l_items l1) (l_alloc l1 div 2), l_alloc := l_alloc l1 div 2\<rparr> else l1)"
    have "list_pop l arg = (l2, Inr (xs ! j))"
      using l j Some get_index_py [of xs ?i] remove_item [OF j, of "replicate k MP_OBJ_NULL" MP_OBJ_NULL]
      by (auto simp: list_pop_def Let_def l2_def l1_def nth_append)
    moreover have "list_rep l2 ?ys"
    proof (cases "l_alloc l1 > LIST_MIN_ALLOC \<and> l_alloc l1 > 2 * l_len l1")
      case True
      let ?h = "l_alloc l1 div 2"
      have h: "?n \<le> ?h" "?h \<le> ?n + Suc k" "0 < ?h" using True l j by (auto simp: l1_def LIST_MIN_ALLOC_def)
      then have "m_renew MP_OBJ_NULL ?items ?h = ?ys @ replicate (?h - ?n) MP_OBJ_NULL"
        using renew_tail [of ?ys ?h "Suc k"] j by simp
      then show ?thesis
        using True h j by (intro list_repI [of _ _ "?h - ?n"]) (simp_all add: l2_def, simp_all add: l1_def)
    next
      case False
      then show ?thesis using l j by (intro list_repI [of _ _ "Suc k"]) (auto simp: l2_def l1_def)
    qed
    ultimately show ?thesis using Some by simp
  qed
qed

lemma list_clear_ok: "list_rep (list_clear junk l) []"
proof -
  have "length (m_renew junk (l_items l) 4) = 4" by (simp add: m_renew_def)
  then show ?thesis
    using seq_clear_tail [of "[]" "m_renew junk (l_items l) 4"]
    by (intro list_repI [of _ _ 4]) (simp_all add: list_clear_def LIST_MIN_ALLOC_def)
qed

lemma list_copy_ok: "list_rep l xs \<Longrightarrow> list_rep (list_copy junk l) xs"
  using new_list_ok [of "l_len l" "l_items l" junk] list_rep_take [of l xs] by (auto simp: list_copy_def list_rep_def)

lemma list_store_ok:
  assumes "list_rep l xs"
  shows "case py_index xs i of
      None \<Rightarrow> mp_obj_list_store l i v = (l, Inl (IndexError ''list index out of range''))
    | Some j \<Rightarrow> \<exists>l'. mp_obj_list_store l i v = (l', Inr ()) \<and> list_rep l' (xs[j := v])"
  using assms
proof (rule list_repE)
  fix k
  assume l: "l_items l = xs @ replicate k MP_OBJ_NULL" "l_alloc l = length xs + k" "l_len l = length xs" "0 < length xs + k"
  show ?thesis
  proof (cases "py_index xs i")
    case (Some j)
    then show ?thesis
      using l get_index_py [of xs i] py_index_less [OF Some]
      by (auto simp: mp_obj_list_store_def list_update_append intro!: list_repI [of _ _ k])
  qed (use l get_index_py [of xs i] in \<open>simp add: mp_obj_list_store_def\<close>)
qed

text \<open>The loops of \<^verbatim>\<open>insert\<close> and \<^verbatim>\<open>reverse\<close>.\<close>

lemma shift_loop:
  assumes "n \<le> length a"
  shows "length (foldl (\<lambda>a j. a[j := a ! (j - 1)]) a (rev [i + 1..<n])) = length a"
    "p < length a \<Longrightarrow> foldl (\<lambda>a j. a[j := a ! (j - 1)]) a (rev [i + 1..<n]) ! p = (if i < p \<and> p < n then a ! (p - 1) else a ! p)"
  using assms
proof (induction n arbitrary: a)
  case (Suc m)
  { case 1
    let ?f = "\<lambda>a j. a[j := a ! (j - 1)]" and ?b = "a[m := a ! (m - 1)]"
    have "length (foldl ?f ?b (rev [i + 1..<m])) = length ?b" using 1 by (intro Suc.IH) (auto intro: Suc_leD)
    then show ?case using Suc.IH(1) [of a] 1 by (auto simp: upt_Suc) }
  { case 2
    let ?f = "\<lambda>a j. a[j := a ! (j - 1)]" and ?b = "a[m := a ! (m - 1)]"
    show ?case
    proof (cases "i + 1 \<le> m")
      case True
      have "foldl ?f ?b (rev [i + 1..<m]) ! p = (if i < p \<and> p < m then ?b ! (p - 1) else ?b ! p)"
        using 2 by (intro Suc.IH) simp_all
      then show ?thesis using True 2 by (auto simp: nth_list_update less_Suc_eq)
    next
      case False
      then show ?thesis by auto
    qed }
qed simp_all

lemma insert_index_eq: "insert_index n i = nat (min (int n) (max 0 (if i < 0 then i + int n else i)))"
  by (auto simp: insert_index_def Let_def min_def max_def)

lemma list_insert_ok:
  assumes "list_rep l xs"
  shows "list_rep (list_insert junk none l idx x)
    (take (insert_index (length xs) idx) xs @ [x] @ drop (insert_index (length xs) idx) xs)"
proof -
  define j where "j = insert_index (length xs) idx"
  have len: "l_len l = length xs" using assms by (auto simp: list_rep_def)
  have j: "j \<le> length xs" by (simp add: j_def insert_index_eq)
  obtain k where a: "l_items (mp_obj_list_append junk l none) = (xs @ [none]) @ replicate k MP_OBJ_NULL"
    "l_alloc (mp_obj_list_append junk l none) = length xs + 1 + k" "l_len (mp_obj_list_append junk l none) = length xs + 1"
    using append_ok [OF assms, of junk none] by (rule list_repE) auto
  let ?a = "(xs @ [none]) @ replicate k MP_OBJ_NULL" and ?n = "length xs + 1"
  let ?s = "foldl (\<lambda>a j. a[j := a ! (j - 1)]) ?a (rev [j + 1..<?n])"
  have n: "?n \<le> length ?a" by simp
  have "?s[j := x] = (take j xs @ [x] @ drop j xs) @ replicate k MP_OBJ_NULL"
  proof (rule nth_equalityI)
    show "length (?s[j := x]) = length ((take j xs @ [x] @ drop j xs) @ replicate k MP_OBJ_NULL)"
      using shift_loop(1) [OF n, of j] j by simp
    fix p
    assume p: "p < length (?s[j := x])"
    then have p': "p < length ?a" using shift_loop(1) [OF n, of j] by simp
    consider "p < j" | "p = j" | "j < p" "p < ?n" | "?n \<le> p" by linarith
    then show "?s[j := x] ! p = ((take j xs @ [x] @ drop j xs) @ replicate k MP_OBJ_NULL) ! p"
      using p p' j shift_loop(2) [OF n p', of j] by cases (auto simp: nth_append nth_Cons' split: if_splits)
  qed
  moreover have "list_insert junk none l idx x = (mp_obj_list_append junk l none)\<lparr>l_items := ?s[j := x]\<rparr>"
    using a len by (simp add: list_insert_def Let_def j_def [symmetric])
  ultimately show ?thesis
    using a j by (intro list_repI [of _ _ k]) (simp_all add: j_def [symmetric])
qed

lemma reverse_loop:
  assumes "m \<le> n div 2" "n \<le> length a"
  shows "length (foldl (\<lambda>a i. a[i := a ! (n - i - 1), n - i - 1 := a ! i]) a [0..<m]) = length a"
    "p < length a \<Longrightarrow> foldl (\<lambda>a i. a[i := a ! (n - i - 1), n - i - 1 := a ! i]) a [0..<m] ! p =
      (if p < n \<and> (p < m \<or> n - m \<le> p) then a ! (n - p - 1) else a ! p)"
  using assms
proof (induction m arbitrary: p)
  case (Suc m)
  { case 1 then show ?case using Suc.IH(1) by simp }
  { case 2
    let ?b = "foldl (\<lambda>a i. a[i := a ! (n - i - 1), n - i - 1 := a ! i]) a [0..<m]"
    have len: "length ?b = length a" using 2 by (intro Suc.IH(1)) simp_all
    have nth: "?b ! q = (if q < n \<and> (q < m \<or> n - m \<le> q) then a ! (n - q - 1) else a ! q)" if "q < length a" for q
      using 2 that by (intro Suc.IH(2)) simp_all
    have m: "m < n - m - 1 \<or> m = n - m - 1" "n - m - 1 < n" "m < n" using 2 by auto
    then have ends: "?b ! (n - m - 1) = a ! (n - m - 1)" "?b ! m = a ! m" using 2 nth [of m] nth [of "n - m - 1"] by auto
    consider "p = m" | "p = n - m - 1" "p \<noteq> m" | "p \<noteq> m" "p \<noteq> n - m - 1" by blast
    then show ?case
    proof cases
      case 1
      then show ?thesis using ends m 2 len by (auto simp: nth_list_update)
    next
      case 2
      then show ?thesis using ends m \<open>p < length a\<close> len by (auto simp: nth_list_update)
    next
      case 3
      then have "p < Suc m \<longleftrightarrow> p < m" "p < n \<Longrightarrow> n - Suc m \<le> p \<longleftrightarrow> n - m \<le> p" by auto
      then show ?thesis using 3 nth [of p] \<open>p < length a\<close> len by (auto simp: nth_list_update)
    qed }
qed auto

lemma list_reverse_ok:
  assumes "list_rep l xs"
  shows "list_rep (list_reverse l) (rev xs)"
  using assms
proof (rule list_repE)
  fix k
  assume l: "l_items l = xs @ replicate k MP_OBJ_NULL" "l_alloc l = length xs + k" "l_len l = length xs" "0 < length xs + k"
  let ?n = "length xs" and ?a = "xs @ replicate k MP_OBJ_NULL"
  let ?b = "foldl (\<lambda>a i. a[i := a ! (?n - i - 1), ?n - i - 1 := a ! i]) ?a [0..<?n div 2]"
  have n: "?n \<le> length ?a" by simp
  have "?b = rev xs @ replicate k MP_OBJ_NULL"
  proof (rule nth_equalityI)
    show "length ?b = length (rev xs @ replicate k MP_OBJ_NULL)" using reverse_loop(1) [OF order_refl n] by simp
    fix p
    assume "p < length ?b"
    then have p: "p < length ?a" using reverse_loop(1) [OF order_refl n] by simp
    have "?n - p - 1 = p" if "p < ?n" "\<not> (p < ?n div 2 \<or> ?n - ?n div 2 \<le> p)" using that by linarith
    then show "?b ! p = (rev xs @ replicate k MP_OBJ_NULL) ! p"
      using reverse_loop(2) [OF order_refl n p] p by (auto simp: nth_append rev_nth)
  qed
  then show ?thesis using l by (intro list_repI [of _ _ k]) (simp_all add: list_reverse_def Let_def)
qed

lemma list_index_ok:
  assumes "list_rep l xs"
  shows "case list_index equal l v None None of
      Inr i \<Rightarrow> i < length xs \<and> equal (xs ! i) v \<and> (\<forall>j<i. \<not> equal (xs ! j) v)
    | Inl e \<Rightarrow> e = ValueError ''object not in sequence'' \<and> (\<forall>x\<in>set xs. \<not> equal x v)"
proof -
  have eq: "list_index equal l v None None = (case find (\<lambda>j. equal (xs ! j) v) [0..<length xs] of
      Some i \<Rightarrow> Inr i | None \<Rightarrow> Inl (ValueError ''object not in sequence''))"
    using list_rep_take [OF assms] by (simp add: list_index_def mp_seq_index_obj_def index_loop_find Let_def)
  show ?thesis
  proof (cases "find (\<lambda>j. equal (xs ! j) v) [0..<length xs]")
    case None
    then have "\<forall>j<length xs. \<not> equal (xs ! j) v" by (auto simp: find_None_iff)
    then show ?thesis unfolding eq None by (auto simp: in_set_conv_nth)
  next
    case (Some i)
    then obtain n where "n < length xs" "i = n" "equal (xs ! n) v" "\<forall>j<n. \<not> equal (xs ! j) v" by (auto simp: find_Some_iff)
    then show ?thesis using eq Some by simp
  qed
qed

lemma list_remove_ok:
  assumes "list_rep l xs"
  shows "if \<exists>x\<in>set xs. equal x v
    then \<exists>l' i. mp_obj_list_remove equal l v = (l', Inr ()) \<and> list_rep l' (take i xs @ drop (i + 1) xs) \<and>
      i < length xs \<and> equal (xs ! i) v \<and> (\<forall>j<i. \<not> equal (xs ! j) v)
    else mp_obj_list_remove equal l v = (l, Inl (ValueError ''object not in sequence''))"
proof (cases "list_index equal l v None None")
  case (Inl e)
  then show ?thesis using list_index_ok [OF assms, of equal v] by (auto simp: mp_obj_list_remove_def)
next
  case (Inr i)
  then have i: "i < length xs" "equal (xs ! i) v" "\<forall>j<i. \<not> equal (xs ! j) v"
    using list_index_ok [OF assms, of equal v] by auto
  then have "py_index xs (int i) = Some i" by (simp add: py_index_def zmod_int [symmetric])
  then obtain l' where "list_pop l (Some (int i)) = (l', Inr (xs ! i))" "list_rep l' (take i xs @ drop (i + 1) xs)"
    using list_pop_ok [OF assms, of "Some (int i)"] by auto
  moreover have "\<exists>x\<in>set xs. equal x v" using i by (metis nth_mem)
  ultimately show ?thesis using Inr i by (auto simp: mp_obj_list_remove_def)
qed

lemma list_add_ok:
  assumes "list_rep l xs" "list_rep p ys"
  shows "list_rep (list_add junk l p) (xs @ ys)"
proof -
  let ?n = "length xs + length ys"
  have len: "l_len l = length xs" "l_len p = length ys" using assms by (auto simp: list_rep_def)
  let ?s = "list_new junk ?n"
  have "blit (blit (l_items ?s) 0 xs) (length xs) ys = (xs @ ys) @ drop ?n (l_items ?s)"
    using list_new_items(1) [where n = ?n and junk = junk] by (simp add: blit_def)
  then show ?thesis
    using len list_rep_take [OF assms(1)] list_rep_take [OF assms(2)] list_new_items [where n = ?n and junk = junk]
    by (intro list_rep_filled [of _ ?n _ junk]) (simp_all add: list_add_def Let_def)
qed

lemma list_multiply_ok:
  assumes "list_rep l xs"
  shows "list_rep (list_multiply junk l n) (concat (replicate (nat n) xs))"
proof -
  let ?m = "nat n" let ?s = "list_new junk (length xs * ?m)"
  have len: "l_len l = length xs" using assms by (auto simp: list_rep_def)
  have c: "length (concat (replicate ?m xs)) = length xs * ?m" by (simp add: length_concat sum_list_replicate)
  have "0 + ?m * length xs \<le> length (l_items ?s)"
    using list_new_items [where n = "length xs * ?m" and junk = junk] by (simp add: mult.commute)
  from mp_seq_multiply_eq [OF this] have "mp_seq_multiply xs ?m (l_items ?s) 0 = concat (replicate ?m xs) @ drop (length xs * ?m) (l_items ?s)"
    by (simp add: mult.commute)
  moreover have "nat (if n < 0 then 0 else n) = ?m" by simp
  ultimately have "list_multiply junk l n = ?s\<lparr>l_items := concat (replicate ?m xs) @ drop (length xs * ?m) (l_items ?s)\<rparr>"
    unfolding list_multiply_def Let_def using len list_rep_take [OF assms] by simp
  then show ?thesis
    using c list_new_items(2) [where n = "length xs * ?m" and junk = junk]
    by (intro list_rep_filled [of _ "length xs * ?m" _ junk]) simp_all
qed

section \<open>Slices\<close>

lemma replace_grow:
  assumes "start \<le> stop" "stop \<le> length xs" "length vs = stop - start + adj" "adj \<le> length R"
  shows "mp_seq_replace_slice_grow_inplace (xs @ R) (length xs) start stop vs adj = take start xs @ vs @ drop stop xs @ drop adj R"
proof -
  have "length xs + adj - (start + length vs) = length xs - stop" using assms by simp
  moreover have "start + length vs - length xs \<le> adj" "start + length vs + (length xs - stop) = length xs + adj" using assms by simp_all
  ultimately show ?thesis using assms by (simp add: mp_seq_replace_slice_grow_inplace_def blit_def Let_def add.assoc)
qed

lemma replace_no_grow:
  assumes "start \<le> stop" "stop \<le> length xs" "length vs \<le> stop - start"
  shows "mp_seq_clear (mp_seq_replace_slice_no_grow (xs @ R) (length xs) start stop vs) (length xs - (stop - start - length vs)) (length xs) =
    (take start xs @ vs @ drop stop xs) @ replicate (stop - start - length vs) MP_OBJ_NULL @ R"
proof -
  let ?d = "stop - start - length vs"
  have b: "blit (xs @ R) start vs = take start xs @ vs @ drop (start + length vs) xs @ R" using assms by (simp add: blit_def)
  have "drop stop (blit (xs @ R) start vs) = drop stop xs @ R" unfolding b using assms by simp
  then have "mp_seq_replace_slice_no_grow (xs @ R) (length xs) start stop vs =
      take (start + length vs) (blit (xs @ R) start vs) @ drop stop xs @ drop (start + length vs + (length xs - stop)) (blit (xs @ R) start vs)"
    using assms by (simp add: mp_seq_replace_slice_no_grow_def blit_def [of "blit (xs @ R) start vs"] Let_def)
  also have "take (start + length vs) (blit (xs @ R) start vs) = take start xs @ vs" unfolding b using assms by simp
  also have "drop (start + length vs + (length xs - stop)) (blit (xs @ R) start vs) = drop (length xs - ?d) xs @ R"
    unfolding b using assms by (simp add: add.commute)
  finally have r: "mp_seq_replace_slice_no_grow (xs @ R) (length xs) start stop vs =
      (take start xs @ vs @ drop stop xs) @ drop (length xs - ?d) xs @ R" by simp
  have "length (take start xs @ vs @ drop stop xs) = length xs - ?d" "length (drop (length xs - ?d) xs) = ?d" using assms by simp_all
  then show ?thesis unfolding r using assms by (simp add: mp_seq_clear_def blit_def)
qed

lemma assign_slice_ok:
  assumes "list_rep l xs" "start \<le> stop" "stop \<le> length xs"
  shows "list_rep (assign_slice junk l start stop vs) (take start xs @ vs @ drop stop xs)"
  using assms(1)
proof (rule list_repE)
  fix k
  assume l: "l_items l = xs @ replicate k MP_OBJ_NULL" "l_alloc l = length xs + k" "l_len l = length xs" "0 < length xs + k"
  let ?ys = "take start xs @ vs @ drop stop xs"
  show ?thesis
  proof (cases "stop - start < length vs")
    case True
    define adj where "adj = length vs - (stop - start)"
    have a: "length vs = stop - start + adj" "0 < adj" using True by (simp_all add: adj_def)
    have adj: "nat (int (length vs) - int (stop - start)) = adj" "0 < int (length vs) - int (stop - start)" using a by auto
    have ys: "length ?ys = length xs + adj" using assms a(1) by simp
    show ?thesis
    proof (cases "k < adj")
      case True
      let ?R = "replicate k MP_OBJ_NULL @ replicate (adj - k) junk"
      have "m_renew junk (l_items l) (length xs + adj) = xs @ ?R" using l True by (simp add: m_renew_def)
      moreover have "mp_seq_replace_slice_grow_inplace (xs @ ?R) (length xs) start stop vs adj = ?ys @ drop adj ?R"
        using replace_grow [OF assms(2,3) a(1), of ?R] True by simp
      ultimately have "assign_slice junk l start stop vs = l\<lparr>l_items := ?ys @ drop adj ?R, l_alloc := length xs + adj, l_len := length xs + adj\<rparr>"
        unfolding assign_slice_def Let_def adj(1) using adj(2) l True by simp
      then show ?thesis using ys a(2) True by (intro list_repI [of _ _ 0]) simp_all
    next
      case False
      have "mp_seq_replace_slice_grow_inplace (l_items l) (length xs) start stop vs adj = ?ys @ replicate (k - adj) MP_OBJ_NULL"
        using replace_grow [OF assms(2,3) a(1), of "replicate k MP_OBJ_NULL"] False l by simp
      then have "assign_slice junk l start stop vs = l\<lparr>l_items := ?ys @ replicate (k - adj) MP_OBJ_NULL, l_len := length xs + adj\<rparr>"
        unfolding assign_slice_def Let_def adj(1) using adj(2) l False by simp
      then show ?thesis using ys l False by (intro list_repI [of _ _ "k - adj"]) simp_all
    qed
  next
    case False
    let ?d = "stop - start - length vs"
    have "nat (int (length xs) + (int (length vs) - int (stop - start))) = length xs - ?d" "\<not> 0 < int (length vs) - int (stop - start)"
      using False assms by auto
    then have "assign_slice junk l start stop vs =
        l\<lparr>l_items := ?ys @ replicate ?d MP_OBJ_NULL @ replicate k MP_OBJ_NULL, l_len := length xs - ?d\<rparr>"
      using l False assms replace_no_grow [OF assms(2,3), of vs "replicate k MP_OBJ_NULL"] by (simp add: assign_slice_def Let_def)
    moreover have "length ?ys = length xs - ?d" "length xs - ?d + (?d + k) = length xs + k" using False assms by simp_all
    ultimately show ?thesis using l by (intro list_repI [of _ _ "?d + k"]) (simp_all add: replicate_add)
  qed
qed

lemma fast_positions:
  assumes "0 \<le> bs_start b" "bs_stop b \<le> int (length xs)" "bs_step b = 1"
  shows "map (\<lambda>i. xs ! nat i) (slice_positions b) = take (nat (bs_stop b - bs_start b)) (drop (nat (bs_start b)) xs)"
proof (rule nth_equalityI)
  show "length (map (\<lambda>i. xs ! nat i) (slice_positions b)) = length (take (nat (bs_stop b - bs_start b)) (drop (nat (bs_start b)) xs))"
    using assms by (auto simp: slice_positions_def)
  fix p
  assume "p < length (map (\<lambda>i. xs ! nat i) (slice_positions b))"
  then have "p < nat (bs_stop b - bs_start b)" using assms(3) by (simp add: slice_positions_def)
  then show "map (\<lambda>i. xs ! nat i) (slice_positions b) ! p = take (nat (bs_stop b - bs_start b)) (drop (nat (bs_start b)) xs) ! p"
    using assms by (simp add: slice_positions_def nat_add_distrib)
qed

lemma slice_load_ok:
  assumes "list_rep l xs" "mp_seq_get_fast_slice_indexes (length xs) sl = Inr (fast, b)" "length xs < 2 ^ 30" "\<bar>bs_step b\<bar> \<le> 2 ^ 30"
  shows "\<exists>r. list_subscr junk l (Slice sl) Load = Some (l, Inr (Ret_List r)) \<and>
    list_rep r (map (\<lambda>i. xs ! nat i) (slice_positions b))"
proof -
  have len: "l_len l = length xs" using assms(1) by (auto simp: list_rep_def)
  note b = slice_indexes_cases [OF assms(2)]
  show ?thesis
  proof (cases fast)
    case True
    let ?n = "nat (bs_stop b - bs_start b)" and ?s = "nat (bs_start b)"
    let ?ys = "take ?n (drop ?s xs)"
    have bounds: "0 \<le> bs_start b" "bs_start b \<le> bs_stop b" "bs_stop b \<le> int (length xs)" "bs_step b = 1" using True b by auto
    have ys: "length ?ys = ?n" using bounds by auto
    have "take ?n (drop ?s (l_items l)) = ?ys"
      using assms(1) bounds by (auto simp: list_rep_def)
    then have "list_subscr junk l (Slice sl) Load =
        Some (l, Inr (Ret_List ((list_new junk ?n)\<lparr>l_items := blit (l_items (list_new junk ?n)) 0 ?ys\<rparr>)))"
      using True assms(2) len by (simp add: list_subscr_def Let_def)
    moreover have "list_rep ((list_new junk ?n)\<lparr>l_items := blit (l_items (list_new junk ?n)) 0 ?ys\<rparr>) ?ys"
      using ys list_new_items(2) [where n = ?n and junk = junk] by (intro list_rep_filled [of _ ?n _ junk]) (simp_all add: blit_def)
    ultimately show ?thesis using fast_positions [OF bounds(1,3,4)] by simp
  next
    case False
    have "mp_seq_extract_slice xs b = Some (map (\<lambda>i. xs ! nat i) (slice_positions b))"
      by (rule mp_seq_extract_slice_ok [OF assms(2-4)])
    then show ?thesis
      using False assms(2) len list_rep_take [OF assms(1)] extend_from_iter_ok [OF new_empty_ok [of junk], of junk]
      by (auto simp: list_subscr_def)
  qed
qed

lemma slice_store_ok:
  assumes "list_rep l xs" "mp_seq_get_fast_slice_indexes (length xs) sl = Inr (fast, b)" "v = Delete \<and> vs = [] \<or> v = Store x (Some vs)"
  shows "\<exists>l'. list_subscr junk l (Slice sl) v = Some (l', if fast then Inr Ret_None else Inl NotImplementedError) \<and>
    list_rep l' (if fast then take (nat (bs_start b)) xs @ vs @ drop (nat (bs_stop b)) xs else xs)"
proof -
  have len: "l_len l = length xs" using assms(1) by (auto simp: list_rep_def)
  note b = slice_indexes_cases [OF assms(2)]
  show ?thesis
  proof (cases fast)
    case True
    then have "nat (bs_start b) \<le> nat (bs_stop b)" "nat (bs_stop b) \<le> length xs" using b by auto
    then show ?thesis
      using True assms(2,3) len assign_slice_ok [OF assms(1), of "nat (bs_start b)" "nat (bs_stop b)" junk vs]
      by (auto simp: list_subscr_def)
  next
    case False
    then show ?thesis using assms len by (auto simp: list_subscr_def)
  qed
qed

lemma index_subscr_ok:
  assumes "list_rep l xs"
  shows "case py_index xs i of
      None \<Rightarrow> list_subscr junk l (Index i) Load = Some (l, Inl (IndexError ''list index out of range'')) \<and>
        list_subscr junk l (Index i) (Store v arr) = Some (l, Inl (IndexError ''list index out of range''))
    | Some j \<Rightarrow> list_subscr junk l (Index i) Load = Some (l, Inr (Ret_Obj (xs ! j))) \<and>
        (\<exists>l'. list_subscr junk l (Index i) (Store v arr) = Some (l', Inr Ret_None) \<and> list_rep l' (xs[j := v])) \<and>
        (\<exists>l'. list_subscr junk l (Index i) Delete = Some (l', Inr Ret_None) \<and> list_rep l' (take j xs @ drop (j + 1) xs))"
proof (cases "py_index xs i")
  case None
  then show ?thesis
    using get_index_py [of xs i] list_store_ok [OF assms, of i v] assms by (auto simp: list_subscr_def list_rep_def)
next
  case (Some j)
  have "l_items l ! j = xs ! j" using assms py_index_less [OF Some] by (auto simp: list_rep_def nth_append)
  then show ?thesis
    using Some get_index_py [of xs i] list_store_ok [OF assms, of i v] list_pop_ok [OF assms, of "Some i"] assms
    by (auto simp: list_subscr_def list_rep_def)
qed

section \<open>Properties\<close>





end
