(* ===== verification/List_Sort.thy ===== *)
theory List_Sort
  imports List_Obj
begin

text \<open>
  The in-place quicksort of lists (\<^verbatim>\<open>mp_quicksort\<close> and \<^verbatim>\<open>mp_obj_list_sort\<close> of \<^verbatim>\<open>py/objlist.c\<close>).
  Pointers into the array are integers, as the code steps one below its start.  The comparison
  \<open>lt\<close> of two keys is \<^verbatim>\<open>mp_binary_op(MP_BINARY_OP_LESS, ...) == mp_const_true\<close>, taken not to raise.
\<close>

section \<open>Model\<close>

definition key_of :: "('a \<Rightarrow> 'a) option \<Rightarrow> 'a \<Rightarrow> 'a" where
  "key_of key x = (case key of None \<Rightarrow> x | Some f \<Rightarrow> f x)"

definition exchange :: "'a list \<Rightarrow> int \<Rightarrow> int \<Rightarrow> 'a list" where
  "exchange items i j = items[nat i := items ! nat j, nat j := items ! nat i]"

text \<open>\<^verbatim>\<open>do { ++h; } while (h < t && ...)\<close> and \<^verbatim>\<open>do { --t; } while (h < t && ...)\<close>.\<close>

function scan_up :: "(int \<Rightarrow> bool) \<Rightarrow> int \<Rightarrow> int \<Rightarrow> int" where
  "scan_up go h t = (let h = h + 1 in if h < t \<and> go h then scan_up go h t else h)"
  by auto
termination by (relation "measure (\<lambda>(go, h, t). nat (t - h))") auto

function scan_down :: "(int \<Rightarrow> bool) \<Rightarrow> int \<Rightarrow> int \<Rightarrow> int" where
  "scan_down go h t = (let t = t - 1 in if h < t \<and> go t then scan_down go h t else t)"
  by auto
termination by (relation "measure (\<lambda>(go, h, t). nat (t - h))") auto

declare scan_up.simps [simp del] scan_down.simps [simp del]

text \<open>Where the scans stop, and what they have passed.\<close>

lemma scan_up_ok:
  "h < scan_up go h t \<and> (h < t \<longrightarrow> scan_up go h t \<le> t) \<and> (\<forall>i. h < i \<longrightarrow> i < scan_up go h t \<longrightarrow> go i) \<and>
    (scan_up go h t < t \<longrightarrow> \<not> go (scan_up go h t))"
proof (induction go h t rule: scan_up.induct)
  case (1 go h t)
  show ?case
  proof (cases "h + 1 < t \<and> go (h + 1)")
    case True
    have "scan_up go h t = scan_up go (h + 1) t" using True by (subst scan_up.simps) simp
    moreover have "go i" if "h < i" "i < scan_up go (h + 1) t" for i
      using 1 [OF refl True] True that by (cases "i = h + 1") auto
    ultimately show ?thesis using 1 [OF refl True] True by auto
  next
    case False
    then have "scan_up go h t = h + 1" by (subst scan_up.simps) auto
    then show ?thesis using False by auto
  qed
qed

lemma scan_down_ok:
  "scan_down go h t < t \<and> (h < t \<longrightarrow> h \<le> scan_down go h t) \<and> (h = t \<longrightarrow> scan_down go h t = h - 1) \<and>
    (\<forall>i. scan_down go h t < i \<longrightarrow> i < t \<longrightarrow> go i) \<and> (h < scan_down go h t \<longrightarrow> \<not> go (scan_down go h t))"
proof (induction go h t rule: scan_down.induct)
  case (1 go h t)
  show ?case
  proof (cases "h < t - 1 \<and> go (t - 1)")
    case True
    have "scan_down go h t = scan_down go h (t - 1)" using True by (subst scan_down.simps) simp
    moreover have "go i" if "scan_down go h (t - 1) < i" "i < t" for i
      using 1 [OF refl True] True that by (cases "i = t - 1") auto
    ultimately show ?thesis using 1 [OF refl True] True by auto
  next
    case False
    then have "scan_down go h t = t - 1" by (subst scan_down.simps) auto
    then show ?thesis using False by auto
  qed
qed

function partition_loop ::
  "('a \<Rightarrow> 'a \<Rightarrow> bool) \<Rightarrow> ('a \<Rightarrow> 'a) option \<Rightarrow> bool \<Rightarrow> 'a \<Rightarrow> 'a list \<Rightarrow> int \<Rightarrow> int \<Rightarrow> 'a list \<times> int \<times> int" where
  "partition_loop lt key binop_less_result v items h t =
    (let h = scan_up (\<lambda>i. lt (key_of key (items ! nat i)) v = binop_less_result) h t;
         t = scan_down (\<lambda>i. lt v (key_of key (items ! nat i)) = binop_less_result) h t
     in if h \<ge> t then (items, h, t)
        else partition_loop lt key binop_less_result v (exchange items h t) h t)"
  by auto
termination
proof (relation "measure (\<lambda>(lt, key, blr, v, items, h, t). nat (t - h))", goal_cases)
  case (2 lt key blr v items h t h' t')
  have "h < h'" using 2(1) scan_up_ok by metis
  moreover have "t' < t" using 2(2) scan_down_ok by metis
  ultimately show ?case using 2(3) by simp
qed simp

declare partition_loop.simps [simp del]

partial_function (option) mp_quicksort ::
  "('a \<Rightarrow> 'a \<Rightarrow> bool) \<Rightarrow> ('a \<Rightarrow> 'a) option \<Rightarrow> bool \<Rightarrow> 'a list \<Rightarrow> int \<Rightarrow> int \<Rightarrow> 'a list option" where
  "mp_quicksort lt key binop_less_result items head tail =
    (if head < tail
     then case partition_loop lt key binop_less_result (key_of key (items ! nat tail)) items (head - 1) tail of
         (items, h, t) \<Rightarrow>
           (if t - head < tail - h - 1
            then Option.bind (mp_quicksort lt key binop_less_result (exchange items h tail) head t)
                   (\<lambda>items. mp_quicksort lt key binop_less_result items (h + 1) tail)
            else Option.bind (mp_quicksort lt key binop_less_result (exchange items h tail) (h + 1) tail)
                   (\<lambda>items. mp_quicksort lt key binop_less_result items head t))
     else Some items)"

definition mp_obj_list_sort ::
  "('o obj \<Rightarrow> 'o obj \<Rightarrow> bool) \<Rightarrow> ('o obj \<Rightarrow> 'o obj) option \<Rightarrow> bool \<Rightarrow> 'o mp_list \<Rightarrow> 'o mp_list option" where
  "mp_obj_list_sort lt key reverse self =
    (if l_len self > 1
     then map_option (\<lambda>items. self\<lparr>l_items := items\<rparr>)
            (mp_quicksort lt key (\<not> reverse) (l_items self) 0 (int (l_len self) - 1))
     else Some self)"

section \<open>Rearrangement of a range\<close>

definition rearranged :: "int \<Rightarrow> int \<Rightarrow> 'a list \<Rightarrow> 'a list \<Rightarrow> bool" where
  "rearranged lo hi xs ys \<longleftrightarrow> mset ys = mset xs \<and>
    (\<forall>i. 0 \<le> i \<longrightarrow> i < int (length xs) \<longrightarrow> i < lo \<or> hi < i \<longrightarrow> ys ! nat i = xs ! nat i) \<and>
    (\<forall>i. lo \<le> i \<longrightarrow> i \<le> hi \<longrightarrow> (\<exists>j. lo \<le> j \<and> j \<le> hi \<and> ys ! nat i = xs ! nat j))"

lemma rearranged_length: "rearranged lo hi xs ys \<Longrightarrow> length ys = length xs"
  by (auto simp: rearranged_def dest: mset_eq_length)

lemma rearranged_refl: "rearranged lo hi xs xs"
  by (auto simp: rearranged_def)

lemma rearranged_outside: "rearranged lo hi xs ys \<Longrightarrow> 0 \<le> i \<Longrightarrow> i < int (length xs) \<Longrightarrow> i < lo \<or> hi < i \<Longrightarrow> ys ! nat i = xs ! nat i"
  by (auto simp: rearranged_def)

lemma rearranged_inside:
  "rearranged lo hi xs ys \<Longrightarrow> (\<And>i. lo \<le> i \<Longrightarrow> i \<le> hi \<Longrightarrow> P (xs ! nat i)) \<Longrightarrow> lo \<le> i \<Longrightarrow> i \<le> hi \<Longrightarrow> P (ys ! nat i)"
  unfolding rearranged_def by metis

lemma rearranged_trans:
  assumes "rearranged lo hi xs ys" "rearranged lo hi ys zs"
  shows "rearranged lo hi xs zs"
  unfolding rearranged_def
proof (intro conjI allI impI)
  show "mset zs = mset xs" using assms by (simp add: rearranged_def)
  show "zs ! nat i = xs ! nat i" if "0 \<le> i" "i < int (length xs)" "i < lo \<or> hi < i" for i
    using assms that rearranged_length [OF assms(1)] by (simp add: rearranged_outside)
  show "\<exists>j. lo \<le> j \<and> j \<le> hi \<and> zs ! nat i = xs ! nat j" if "lo \<le> i" "i \<le> hi" for i
    using assms that unfolding rearranged_def by metis
qed

lemma rearranged_mono:
  assumes "rearranged lo hi xs ys" "lo' \<le> lo" "hi \<le> hi'" "0 \<le> lo'" "hi' < int (length xs)"
  shows "rearranged lo' hi' xs ys"
  unfolding rearranged_def
proof (intro conjI allI impI)
  show "mset ys = mset xs" using assms(1) by (simp add: rearranged_def)
  show "ys ! nat i = xs ! nat i" if "0 \<le> i" "i < int (length xs)" "i < lo' \<or> hi' < i" for i
    using that assms by (intro rearranged_outside [OF assms(1)]) auto
  show "\<exists>j. lo' \<le> j \<and> j \<le> hi' \<and> ys ! nat i = xs ! nat j" if "lo' \<le> i" "i \<le> hi'" for i
  proof (cases "lo \<le> i \<and> i \<le> hi")
    case True
    then obtain j where "lo \<le> j" "j \<le> hi" "ys ! nat i = xs ! nat j" using assms(1) unfolding rearranged_def by blast
    then show ?thesis using assms(2,3) by (intro exI [of _ j]) auto
  next
    case False
    then have "ys ! nat i = xs ! nat i" using that assms by (intro rearranged_outside [OF assms(1)]) auto
    then show ?thesis using that by blast
  qed
qed

lemma exchange_nth:
  assumes "0 \<le> i" "i < int (length xs)" "0 \<le> j" "j < int (length xs)" "0 \<le> p"
  shows "exchange xs i j ! nat p = (if p = i then xs ! nat j else if p = j then xs ! nat i else xs ! nat p)"
  using assms by (auto simp: exchange_def nth_list_update nat_eq_iff)

lemma rearranged_exchange:
  assumes "0 \<le> lo" "hi < int (length xs)" "lo \<le> i" "i \<le> hi" "lo \<le> j" "j \<le> hi"
  shows "rearranged lo hi xs (exchange xs i j)"
  unfolding rearranged_def
proof (intro conjI allI impI)
  show "mset (exchange xs i j) = mset xs" using assms mset_swap [of "nat j" xs "nat i"] by (simp add: exchange_def nat_less_iff)
  have nth: "exchange xs i j ! nat p = (if p = i then xs ! nat j else if p = j then xs ! nat i else xs ! nat p)" if "0 \<le> p" for p
    using assms that by (intro exchange_nth) simp_all
  show "exchange xs i j ! nat p = xs ! nat p" if "0 \<le> p" "p < int (length xs)" "p < lo \<or> hi < p" for p
    using that assms nth [of p] by auto
  show "\<exists>q. lo \<le> q \<and> q \<le> hi \<and> exchange xs i j ! nat p = xs ! nat q" if "lo \<le> p" "p \<le> hi" for p
    using that assms nth [of p] by auto
qed

section \<open>Order\<close>

text \<open>
  What sorting asks of the comparison: on the keys that occur it is a strict weak order.
\<close>

locale sortable =
  fixes lt :: "'a \<Rightarrow> 'a \<Rightarrow> bool" and keys :: "'a set"
  assumes asym: "a \<in> keys \<Longrightarrow> b \<in> keys \<Longrightarrow> lt a b \<Longrightarrow> \<not> lt b a"
    and neg_trans: "a \<in> keys \<Longrightarrow> b \<in> keys \<Longrightarrow> c \<in> keys \<Longrightarrow> \<not> lt a b \<Longrightarrow> \<not> lt b c \<Longrightarrow> \<not> lt a c"

text \<open>\<open>b\<close> may follow \<open>a\<close>, in ascending order or in descending order.\<close>

definition in_order :: "('a \<Rightarrow> 'a \<Rightarrow> bool) \<Rightarrow> bool \<Rightarrow> 'a \<Rightarrow> 'a \<Rightarrow> bool" where
  "in_order lt ascending a b \<longleftrightarrow> (if ascending then \<not> lt b a else \<not> lt a b)"

definition range_ok :: "('a \<Rightarrow> bool) \<Rightarrow> int \<Rightarrow> int \<Rightarrow> 'a list \<Rightarrow> bool" where
  "range_ok P lo hi xs \<longleftrightarrow> (\<forall>i. lo \<le> i \<longrightarrow> i \<le> hi \<longrightarrow> P (xs ! nat i))"

lemma range_ok_rearranged:
  assumes "range_ok P lo hi xs" "rearranged lo hi xs ys"
  shows "range_ok P lo hi ys"
  unfolding range_ok_def
proof (intro allI impI)
  fix i
  assume "lo \<le> i" "i \<le> hi"
  then obtain j where "lo \<le> j" "j \<le> hi" "ys ! nat i = xs ! nat j" using assms(2) unfolding rearranged_def by blast
  then show "P (ys ! nat i)" using assms(1) by (simp add: range_ok_def)
qed

lemma range_ok_outside:
  assumes "range_ok P lo hi xs" "rearranged lo' hi' xs ys" "0 \<le> lo" "hi < int (length xs)" "hi < lo' \<or> hi' < lo"
  shows "range_ok P lo hi ys"
  unfolding range_ok_def
proof (intro allI impI)
  fix i
  assume i: "lo \<le> i" "i \<le> hi"
  then have "ys ! nat i = xs ! nat i" using assms by (intro rearranged_outside [OF assms(2)]) auto
  then show "P (ys ! nat i)" using assms(1) i by (simp add: range_ok_def)
qed

lemma range_ok_mono: "range_ok P lo hi xs \<Longrightarrow> lo \<le> lo' \<Longrightarrow> hi' \<le> hi \<Longrightarrow> range_ok P lo' hi' xs"
  by (auto simp: range_ok_def)

lemma range_ok_last:
  assumes "range_ok P lo (hi - 1) xs" "P (xs ! nat hi)"
  shows "range_ok P lo hi xs"
  unfolding range_ok_def
proof (intro allI impI)
  fix i
  assume "lo \<le> i" "i \<le> hi"
  then show "P (xs ! nat i)" using assms by (cases "i = hi") (auto simp: range_ok_def)
qed

lemma range_ok_first:
  assumes "range_ok P (lo + 1) hi xs" "P (xs ! nat lo)"
  shows "range_ok P lo hi xs"
  unfolding range_ok_def
proof (intro allI impI)
  fix i
  assume "lo \<le> i" "i \<le> hi"
  then show "P (xs ! nat i)" using assms by (cases "i = lo") (auto simp: range_ok_def)
qed

definition range_sorted :: "('a \<Rightarrow> 'a \<Rightarrow> bool) \<Rightarrow> ('a \<Rightarrow> 'a) option \<Rightarrow> bool \<Rightarrow> int \<Rightarrow> int \<Rightarrow> 'a list \<Rightarrow> bool" where
  "range_sorted lt key asc lo hi xs \<longleftrightarrow> (\<forall>i j. lo \<le> i \<longrightarrow> i < j \<longrightarrow> j \<le> hi \<longrightarrow>
     in_order lt asc (key_of key (xs ! nat i)) (key_of key (xs ! nat j)))"

lemma range_sorted_outside:
  assumes "range_sorted lt key asc lo hi xs" "rearranged lo' hi' xs ys" "0 \<le> lo" "hi < int (length xs)" "hi < lo' \<or> hi' < lo"
  shows "range_sorted lt key asc lo hi ys"
proof -
  have "ys ! nat i = xs ! nat i" if "lo \<le> i" "i \<le> hi" for i
    using that assms by (intro rearranged_outside [OF assms(2)]) auto
  then show ?thesis using assms(1) by (simp add: range_sorted_def)
qed

context sortable
begin

lemma in_order_trans:
  "a \<in> keys \<Longrightarrow> b \<in> keys \<Longrightarrow> c \<in> keys \<Longrightarrow> in_order lt asc a b \<Longrightarrow> in_order lt asc b c \<Longrightarrow> in_order lt asc a c"
  unfolding in_order_def using neg_trans [of a b c] neg_trans [of c b a] by (cases asc) simp_all

lemma passed_order:
  assumes "a \<in> keys" "b \<in> keys"
  shows "lt a b = asc \<Longrightarrow> in_order lt asc a b" "lt b a \<noteq> asc \<Longrightarrow> in_order lt asc a b"
proof -
  show "lt a b = asc \<Longrightarrow> in_order lt asc a b" unfolding in_order_def using asym [OF assms] by (cases asc) simp_all
  show "lt b a \<noteq> asc \<Longrightarrow> in_order lt asc a b" unfolding in_order_def using asym [OF assms(2,1)] by (cases asc) simp_all
qed

text \<open>The partition: what is left of \<open>h\<close> may precede the pivot, the rest may follow it.\<close>

lemma partition_ok:
  assumes "0 \<le> head" "tail < int (length items)" "head - 1 \<le> h" "h < t" "t \<le> tail" "v \<in> keys"
    and "range_ok (\<lambda>x. key_of key x \<in> keys) head tail items"
    and "range_ok (\<lambda>x. in_order lt asc (key_of key x) v) head h items"
    and "range_ok (\<lambda>x. in_order lt asc v (key_of key x)) t (tail - 1) items"
    and "partition_loop lt key asc v items h t = (items', h', t')"
  shows "rearranged head (tail - 1) items items' \<and> head \<le> h' \<and> h' \<le> tail \<and> (t' = h' \<or> t' = h' - 1) \<and> t' < tail \<and>
    range_ok (\<lambda>x. in_order lt asc (key_of key x) v) head (h' - 1) items' \<and>
    range_ok (\<lambda>x. in_order lt asc v (key_of key x)) h' (tail - 1) items'"
  using assms(3-5,7-10) assms(2)
proof (induction "nat (t - h)" arbitrary: items h t rule: less_induct)
  case less
  note pre = less.prems
  let ?key = "\<lambda>i. key_of key (items ! nat i)"
  let ?up = "\<lambda>i. lt (?key i) v = asc" and ?down = "\<lambda>i. lt v (?key i) = asc"
  define h1 where "h1 = scan_up ?up h t"
  define t1 where "t1 = scan_down ?down h1 t"
  have up: "h < h1" "h1 \<le> t" "\<And>i. h < i \<Longrightarrow> i < h1 \<Longrightarrow> ?up i" "h1 < t \<Longrightarrow> \<not> ?up h1"
    using scan_up_ok [of h ?up t] pre(2) unfolding h1_def by blast+
  have down: "t1 < t" "h1 < t \<Longrightarrow> h1 \<le> t1" "h1 = t \<Longrightarrow> t1 = h1 - 1" "\<And>i. t1 < i \<Longrightarrow> i < t \<Longrightarrow> ?down i" "h1 < t1 \<Longrightarrow> \<not> ?down t1"
    using scan_down_ok [of ?down h1 t] unfolding t1_def by blast+
  have key: "?key i \<in> keys" if "head \<le> i" "i \<le> tail" for i using pre(4) that by (simp add: range_ok_def)
  have left: "range_ok (\<lambda>x. in_order lt asc (key_of key x) v) head (h1 - 1) items"
    unfolding range_ok_def
  proof (intro allI impI)
    fix i
    assume i: "head \<le> i" "i \<le> h1 - 1"
    show "in_order lt asc (?key i) v"
    proof (cases "i \<le> h")
      case False
      then show ?thesis using up(2,3) i pre(3) passed_order(1) [OF key \<open>v \<in> keys\<close>, of i asc] by simp
    qed (use pre(5) i in \<open>simp add: range_ok_def\<close>)
  qed
  have right: "range_ok (\<lambda>x. in_order lt asc v (key_of key x)) (t1 + 1) (tail - 1) items"
    unfolding range_ok_def
  proof (intro allI impI)
    fix i
    assume i: "t1 + 1 \<le> i" "i \<le> tail - 1"
    show "in_order lt asc v (?key i)"
    proof (cases "t \<le> i")
      case False
      then have "head \<le> i" using i down(2,3) up pre(1) by linarith
      then show ?thesis using False down(4) i passed_order(1) [OF \<open>v \<in> keys\<close> key, of i asc] by simp
    qed (use pre(6) i in \<open>simp add: range_ok_def\<close>)
  qed
  have stop: "in_order lt asc v (?key h1)" if "h1 < t"
    using up(4) [OF that] that up(1) pre(1,3) passed_order(2) [OF \<open>v \<in> keys\<close> key, of h1 asc] by simp
  have step: "partition_loop lt key asc v items h t =
      (if h1 \<ge> t1 then (items, h1, t1) else partition_loop lt key asc v (exchange items h1 t1) h1 t1)"
    by (subst partition_loop.simps) (simp add: Let_def h1_def [symmetric] t1_def [symmetric])
  show ?case
  proof (cases "h1 \<ge> t1")
    case True
    then have r: "items' = items" "h' = h1" "t' = t1" using step pre(7) by simp_all
    have "range_ok (\<lambda>x. in_order lt asc v (key_of key x)) h1 (tail - 1) items"
    proof (cases "h1 = t")
      case True
      then show ?thesis using right down(3) by simp
    next
      case False
      then have "t1 = h1" "h1 < t" using True up(2) down(2) by auto
      then show ?thesis using range_ok_first [of _ h1 "tail - 1" items] right stop by simp
    qed
    moreover have "t1 = h1 \<or> t1 = h1 - 1" using True up(2) down(2,3) by linarith
    ultimately show ?thesis using r left rearranged_refl up pre(1,3) down(1) by simp
  next
    case False
    then have ht: "h1 < t1" "h1 < t" using down(1) by auto
    let ?items = "exchange items h1 t1"
    have ex: "rearranged head (tail - 1) items ?items"
      using ht up pre(1,3,8) down(1) assms(1) by (intro rearranged_exchange) auto
    have nth: "?items ! nat p = (if p = h1 then items ! nat t1 else if p = t1 then items ! nat h1 else items ! nat p)" if "0 \<le> p" for p
      using ht up pre(1,3,8) down(1) assms(1) that by (intro exchange_nth) auto
    have "range_ok (\<lambda>x. key_of key x \<in> keys) head tail ?items"
      using range_ok_rearranged [OF pre(4)] rearranged_mono [OF ex, of head tail] assms(1) pre(8) by simp
    moreover have "range_ok (\<lambda>x. in_order lt asc (key_of key x) v) head h1 ?items"
      unfolding range_ok_def
    proof (intro allI impI)
      fix i
      assume i: "head \<le> i" "i \<le> h1"
      have "in_order lt asc (?key t1) v"
        using down(5) ht up(1) down(1) pre(1,3) passed_order(2) [OF key \<open>v \<in> keys\<close>, of t1 asc] by simp
      then show "in_order lt asc (key_of key (?items ! nat i)) v"
        using nth [of i] i left ht(1) assms(1) by (cases "i = h1") (auto simp: range_ok_def)
    qed
    moreover have "range_ok (\<lambda>x. in_order lt asc v (key_of key x)) t1 (tail - 1) ?items"
      unfolding range_ok_def
    proof (intro allI impI)
      fix i
      assume i: "t1 \<le> i" "i \<le> tail - 1"
      have "0 \<le> i" using i ht up(1) pre(1) assms(1) by linarith
      then show "in_order lt asc v (key_of key (?items ! nat i))"
        using nth [of i] i right stop [OF ht(2)] ht(1) by (cases "i = t1") (auto simp: range_ok_def)
    qed
    moreover have "partition_loop lt key asc v ?items h1 t1 = (items', h', t')" using step False pre(7) by simp
    ultimately have "rearranged head (tail - 1) ?items items' \<and> head \<le> h' \<and> h' \<le> tail \<and> (t' = h' \<or> t' = h' - 1) \<and> t' < tail \<and>
        range_ok (\<lambda>x. in_order lt asc (key_of key x) v) head (h' - 1) items' \<and>
        range_ok (\<lambda>x. in_order lt asc v (key_of key x)) h' (tail - 1) items'"
      using ht up(1) down(1) pre(1-3,8) rearranged_length [OF ex] by (intro less.hyps) auto
    then show ?thesis using rearranged_trans [OF ex] by blast
  qed
qed

text \<open>The pivot goes to its place, between the two parts.\<close>

lemma pivot_ok:
  assumes "0 \<le> head" "head < tail" "tail < int (length items)" "range_ok (\<lambda>x. key_of key x \<in> keys) head tail items"
    and "v = key_of key (items ! nat tail)" "partition_loop lt key asc v items (head - 1) tail = (items1, h, t)"
  shows "rearranged head tail items (exchange items1 h tail) \<and> head \<le> h \<and> h \<le> tail \<and> (t = h \<or> t = h - 1) \<and> t < tail \<and>
    range_ok (\<lambda>x. in_order lt asc (key_of key x) v) head (h - 1) (exchange items1 h tail) \<and>
    key_of key (exchange items1 h tail ! nat h) = v \<and>
    range_ok (\<lambda>x. in_order lt asc v (key_of key x)) (h + 1) tail (exchange items1 h tail)"
proof -
  have v: "v \<in> keys" using assms(2,4,5) by (simp add: range_ok_def)
  have "range_ok (\<lambda>x. in_order lt asc (key_of key x) v) head (head - 1) items"
    "range_ok (\<lambda>x. in_order lt asc v (key_of key x)) tail (tail - 1) items" by (simp_all add: range_ok_def)
  then have p: "rearranged head (tail - 1) items items1" "head \<le> h" "h \<le> tail" "t = h \<or> t = h - 1" "t < tail"
    "range_ok (\<lambda>x. in_order lt asc (key_of key x) v) head (h - 1) items1"
    "range_ok (\<lambda>x. in_order lt asc v (key_of key x)) h (tail - 1) items1"
    using partition_ok [OF assms(1,3) _ _ _ v assms(4) _ _ assms(6)] assms(2) by simp_all
  have len: "length items1 = length items" using p(1) by (rule rearranged_length)
  have pivot: "items1 ! nat tail = items ! nat tail" using assms(1-3) by (intro rearranged_outside [OF p(1)]) auto
  let ?items = "exchange items1 h tail"
  have nth: "?items ! nat q = (if q = h then items1 ! nat tail else if q = tail then items1 ! nat h else items1 ! nat q)" if "0 \<le> q" for q
    using p(2,3) assms(1-3) len that by (intro exchange_nth) auto
  have "rearranged head tail items1 ?items" using p(2,3) assms(1-3) len by (intro rearranged_exchange) auto
  moreover have "rearranged head tail items items1" using assms by (intro rearranged_mono [OF p(1)]) auto
  moreover have "range_ok (\<lambda>x. in_order lt asc (key_of key x) v) head (h - 1) ?items"
    using p(3,6) nth assms(1) by (auto simp: range_ok_def)
  moreover have "key_of key (?items ! nat h) = v" using nth [of h] p(2) assms(1,5) pivot by simp
  moreover have "range_ok (\<lambda>x. in_order lt asc v (key_of key x)) (h + 1) tail ?items"
    unfolding range_ok_def
  proof (intro allI impI)
    fix i
    assume "h + 1 \<le> i" "i \<le> tail"
    then show "in_order lt asc v (key_of key (?items ! nat i))"
      using p(2,7) nth [of i] assms(1) by (cases "i = tail") (auto simp: range_ok_def)
  qed
  ultimately show ?thesis using p(2-5) rearranged_trans by blast
qed

text \<open>Two sorted parts around the pivot are a sorted whole.\<close>

lemma sorted_join:
  assumes "range_sorted lt key asc head t xs" "range_sorted lt key asc (h + 1) tail xs" "t = h \<or> t = h - 1" "head \<le> h" "h \<le> tail"
    and "range_ok (\<lambda>x. key_of key x \<in> keys) head tail xs" "v \<in> keys"
    and "range_ok (\<lambda>x. in_order lt asc (key_of key x) v) head h xs"
    and "range_ok (\<lambda>x. in_order lt asc v (key_of key x)) (t + 1) tail xs"
  shows "range_sorted lt key asc head tail xs"
  unfolding range_sorted_def
proof (intro allI impI)
  fix i j
  assume ij: "head \<le> i" "i < j" "j \<le> tail"
  consider "j \<le> t" | "h + 1 \<le> i" | "i \<le> h" "t + 1 \<le> j" using assms(3) ij by linarith
  then show "in_order lt asc (key_of key (xs ! nat i)) (key_of key (xs ! nat j))"
  proof cases
    case 3
    then have "in_order lt asc (key_of key (xs ! nat i)) v" "in_order lt asc v (key_of key (xs ! nat j))"
      "key_of key (xs ! nat i) \<in> keys" "key_of key (xs ! nat j) \<in> keys"
      using assms(6,8,9) ij by (auto simp: range_ok_def)
    then show ?thesis using in_order_trans assms(7) by blast
  qed (use assms(1,2) ij in \<open>auto simp: range_sorted_def\<close>)
qed

lemma divided_rearranged:
  assumes "range_ok (\<lambda>x. key_of key x \<in> keys) head tail xs" "range_ok (\<lambda>x. in_order lt asc (key_of key x) v) head h xs"
    "range_ok (\<lambda>x. in_order lt asc v (key_of key x)) (t + 1) tail xs" "t = h \<or> t = h - 1" "head \<le> h" "h \<le> tail" "t < tail"
    "0 \<le> head" "tail < int (length xs)" "rearranged lo hi xs ys" "lo = head \<and> hi = t \<or> lo = h + 1 \<and> hi = tail"
  shows "rearranged head tail xs ys" "range_ok (\<lambda>x. key_of key x \<in> keys) head tail ys"
    "range_ok (\<lambda>x. in_order lt asc (key_of key x) v) head h ys" "range_ok (\<lambda>x. in_order lt asc v (key_of key x)) (t + 1) tail ys"
proof -
  show all: "rearranged head tail xs ys" using assms(4-9,11) by (intro rearranged_mono [OF assms(10)]) auto
  show "range_ok (\<lambda>x. key_of key x \<in> keys) head tail ys" by (rule range_ok_rearranged [OF assms(1) all])
  have left: "rearranged head h xs ys" if "lo = head" "hi = t"
    using that assms(4-9) by (intro rearranged_mono [OF assms(10)]) auto
  have right: "rearranged (t + 1) tail xs ys" if "lo = h + 1" "hi = tail"
    using that assms(4-9) by (intro rearranged_mono [OF assms(10)]) auto
  show "range_ok (\<lambda>x. in_order lt asc (key_of key x) v) head h ys"
    using assms(11)
  proof
    assume "lo = head \<and> hi = t"
    then show ?thesis using range_ok_rearranged [OF assms(2)] left by simp
  next
    assume "lo = h + 1 \<and> hi = tail"
    then show ?thesis using assms(4-9) by (intro range_ok_outside [OF assms(2,10)]) auto
  qed
  show "range_ok (\<lambda>x. in_order lt asc v (key_of key x)) (t + 1) tail ys"
    using assms(11)
  proof
    assume "lo = head \<and> hi = t"
    then show ?thesis using assms(4-9) by (intro range_ok_outside [OF assms(3,10)]) auto
  next
    assume "lo = h + 1 \<and> hi = tail"
    then show ?thesis using range_ok_rearranged [OF assms(3)] right by simp
  qed
qed

lemma quicksort_ok:
  assumes "0 \<le> head" "tail < int (length xs)" "range_ok (\<lambda>x. key_of key x \<in> keys) head tail xs"
  shows "\<exists>ys. mp_quicksort lt key asc xs head tail = Some ys \<and> rearranged head tail xs ys \<and> range_sorted lt key asc head tail ys"
  using assms
proof (induction "nat (tail - head)" arbitrary: xs head tail rule: less_induct)
  case less
  show ?case
  proof (cases "head < tail")
    case False
    then show ?thesis by (subst mp_quicksort.simps) (auto simp: rearranged_refl range_sorted_def)
  next
    case True
    define v where "v = key_of key (xs ! nat tail)"
    obtain xs1 h t where p: "partition_loop lt key asc v xs (head - 1) tail = (xs1, h, t)" by (cases "partition_loop lt key asc v xs (head - 1) tail")
    let ?a = "exchange xs1 h tail"
    have piv: "rearranged head tail xs ?a" "head \<le> h" "h \<le> tail" "t = h \<or> t = h - 1" "t < tail"
      "range_ok (\<lambda>x. in_order lt asc (key_of key x) v) head (h - 1) ?a" "key_of key (?a ! nat h) = v"
      "range_ok (\<lambda>x. in_order lt asc v (key_of key x)) (h + 1) tail ?a"
      using pivot_ok [OF less.prems(1) True less.prems(2,3) v_def p] by blast+
    have v: "v \<in> keys" using less.prems(3) True by (simp add: v_def range_ok_def)
    have vv: "in_order lt asc v v" using passed_order [OF v v] by blast
    have len: "tail < int (length ?a)" using rearranged_length [OF piv(1)] less.prems(2) by simp
    have a: "range_ok (\<lambda>x. key_of key x \<in> keys) head tail ?a" by (rule range_ok_rearranged [OF less.prems(3) piv(1)])
    have al: "range_ok (\<lambda>x. in_order lt asc (key_of key x) v) head h ?a"
      using range_ok_last [OF piv(6)] piv(7) vv by simp
    have ar: "range_ok (\<lambda>x. in_order lt asc v (key_of key x)) (t + 1) tail ?a"
      using piv(4) range_ok_first [OF piv(8)] piv(7,8) vv by auto
    note divided = divided_rearranged [OF _ _ _ piv(4,2,3,5) less.prems(1)]
    have step: "mp_quicksort lt key asc xs head tail =
        (if t - head < tail - h - 1
         then Option.bind (mp_quicksort lt key asc ?a head t) (\<lambda>items. mp_quicksort lt key asc items (h + 1) tail)
         else Option.bind (mp_quicksort lt key asc ?a (h + 1) tail) (\<lambda>items. mp_quicksort lt key asc items head t))"
      using True p by (subst mp_quicksort.simps) (simp add: v_def)
    have sort_left: "\<exists>ys. mp_quicksort lt key asc zs head t = Some ys \<and> rearranged head t zs ys \<and> range_sorted lt key asc head t ys"
      if "range_ok (\<lambda>x. key_of key x \<in> keys) head tail zs" "tail < int (length zs)" for zs
      using that True piv(5) less.prems(1) range_ok_mono [OF that(1), of head t] by (intro less.hyps) auto
    have sort_right: "\<exists>ys. mp_quicksort lt key asc zs (h + 1) tail = Some ys \<and> rearranged (h + 1) tail zs ys \<and> range_sorted lt key asc (h + 1) tail ys"
      if "range_ok (\<lambda>x. key_of key x \<in> keys) head tail zs" "tail < int (length zs)" for zs
      using that True piv(2) less.prems(1) range_ok_mono [OF that(1), of "h + 1" tail] by (intro less.hyps) auto
    show ?thesis
    proof (cases "t - head < tail - h - 1")
      case True
      obtain b where b: "mp_quicksort lt key asc ?a head t = Some b" "rearranged head t ?a b" "range_sorted lt key asc head t b"
        using sort_left [OF a len] by blast
      note db = divided [OF a al ar len b(2)]
      have lenb: "tail < int (length b)" using rearranged_length [OF b(2)] len by simp
      obtain c where c: "mp_quicksort lt key asc b (h + 1) tail = Some c" "rearranged (h + 1) tail b c" "range_sorted lt key asc (h + 1) tail c"
        using sort_right [OF db(2) lenb] by blast
      note dc = divided [OF db(2-4) lenb c(2)]
      have "range_sorted lt key asc head t c"
        using b(3) c(2) less.prems(1) lenb piv(4,5) by (intro range_sorted_outside [OF b(3) c(2)]) auto
      then have "range_sorted lt key asc head tail c" using sorted_join [OF _ c(3) piv(4,2,3) dc(2) v dc(3,4)] by simp
      then show ?thesis using step True b(1) c(1) rearranged_trans [OF piv(1) rearranged_trans [OF db(1) dc(1)]] by simp
    next
      case False
      obtain b where b: "mp_quicksort lt key asc ?a (h + 1) tail = Some b" "rearranged (h + 1) tail ?a b" "range_sorted lt key asc (h + 1) tail b"
        using sort_right [OF a len] by blast
      note db = divided [OF a al ar len b(2)]
      have lenb: "tail < int (length b)" using rearranged_length [OF b(2)] len by simp
      obtain c where c: "mp_quicksort lt key asc b head t = Some c" "rearranged head t b c" "range_sorted lt key asc head t c"
        using sort_left [OF db(2) lenb] by blast
      note dc = divided [OF db(2-4) lenb c(2)]
      have "range_sorted lt key asc (h + 1) tail c"
        using less.prems(1) lenb piv(2,4) by (intro range_sorted_outside [OF b(3) c(2)]) auto
      then have "range_sorted lt key asc head tail c" using sorted_join [OF c(3) _ piv(4,2,3) dc(2) v dc(3,4)] by simp
      then show ?thesis using step False b(1) c(1) rearranged_trans [OF piv(1) rearranged_trans [OF db(1) dc(1)]] by simp
    qed
  qed
qed

end

text \<open>Sorting a list object: it returns, for every input, a sorted permutation.\<close>

lemma sort_ok:
  assumes "list_rep l xs" "\<And>x. x \<in> set xs \<Longrightarrow> key_of key x \<in> keys" "sortable lt keys"
  shows "\<exists>l' ys. mp_obj_list_sort lt key reverse l = Some l' \<and> list_rep l' ys \<and> mset ys = mset xs \<and>
    sorted_wrt (\<lambda>x y. in_order lt (\<not> reverse) (key_of key x) (key_of key y)) ys"
proof (cases "length xs > 1")
  case False
  then have "sorted_wrt (\<lambda>x y. in_order lt (\<not> reverse) (key_of key x) (key_of key y)) xs"
    by (cases xs) auto
  moreover have "l_len l = length xs" using assms(1) by (auto simp: list_rep_def)
  ultimately show ?thesis using False assms(1) by (auto simp: mp_obj_list_sort_def)
next
  case True
  from assms(1) obtain k where l: "l_items l = xs @ replicate k MP_OBJ_NULL" "l_alloc l = length xs + k"
    "l_len l = length xs" "0 < length xs + k" by (rule list_repE)
  let ?n = "length xs" and ?last = "int (length xs) - 1"
  have "range_ok (\<lambda>x. key_of key x \<in> keys) 0 ?last (l_items l)"
    using assms(2) by (auto simp: range_ok_def l nth_append nat_less_iff)
  then obtain zs where z: "mp_quicksort lt key (\<not> reverse) (l_items l) 0 ?last = Some zs"
    "rearranged 0 ?last (l_items l) zs" "range_sorted lt key (\<not> reverse) 0 ?last zs"
    using sortable.quicksort_ok [OF assms(3), of 0 ?last "l_items l" key "\<not> reverse"] l(1) by auto
  have len: "length zs = ?n + k" using rearranged_length [OF z(2)] l(1) by simp
  have "drop ?n zs = replicate k MP_OBJ_NULL"
  proof (rule nth_equalityI)
    fix i
    assume "i < length (drop ?n zs)"
    then show "drop ?n zs ! i = replicate k MP_OBJ_NULL ! i"
      using rearranged_outside [OF z(2), of "int (?n + i)"] len l(1) by (simp add: nth_append nat_add_distrib)
  qed (simp add: len)
  then have zs: "zs = take ?n zs @ replicate k MP_OBJ_NULL" by (metis append_take_drop_id)
  have "mset (take ?n zs) + mset (replicate k MP_OBJ_NULL) = mset zs" using zs by (metis mset_append)
  also have "\<dots> = mset xs + mset (replicate k MP_OBJ_NULL)" using z(2) l(1) by (simp add: rearranged_def)
  finally have perm: "mset (take ?n zs) = mset xs" by simp
  have "sorted_wrt (\<lambda>x y. in_order lt (\<not> reverse) (key_of key x) (key_of key y)) (take ?n zs)"
    unfolding sorted_wrt_iff_nth_less
  proof (intro allI impI)
    fix i j
    assume "i < j" "j < length (take ?n zs)"
    then have "0 \<le> int i" "int i < int j" "int j \<le> ?last" "i < ?n" "j < ?n" by auto
    then have "in_order lt (\<not> reverse) (key_of key (zs ! nat (int i))) (key_of key (zs ! nat (int j)))"
      using z(3) unfolding range_sorted_def by blast
    then show "in_order lt (\<not> reverse) (key_of key (take ?n zs ! i)) (key_of key (take ?n zs ! j))"
      using \<open>i < ?n\<close> \<open>j < ?n\<close> by simp
  qed
  moreover have "list_rep (l\<lparr>l_items := zs\<rparr>) (take ?n zs)"
    using l len by (intro list_repI [of _ _ k]) (simp_all add: zs [symmetric])
  ultimately show ?thesis using z(1) True perm l(3) by (auto simp: mp_obj_list_sort_def)
qed

section \<open>Integers and strings\<close>

text \<open>
  The comparison of small integers (\<^verbatim>\<open>mp_binary_op\<close>) and of strings (\<^verbatim>\<open>mp_obj_str_binary_op\<close>).  \<open>None\<close> is
  the \<^verbatim>\<open>TypeError\<close> for operands of different types.
\<close>

definition str_less :: "pyobj \<Rightarrow> pyobj \<Rightarrow> bool" where
  "str_less lhs rhs = mp_seq_cmp_bytes MP_BINARY_OP_LESS (str_data lhs) (str_data rhs)"

fun binary_op_less :: "pyobj \<Rightarrow> pyobj \<Rightarrow> bool option" where
  "binary_op_less (Small_Int lhs_val) (Small_Int rhs_val) = Some (lhs_val < rhs_val)"
| "binary_op_less (Small_Int lhs_val) rhs = None"
| "binary_op_less lhs (Small_Int rhs_val) = None"
| "binary_op_less lhs rhs = Some (str_less lhs rhs)"

fun is_less :: "pyobj obj \<Rightarrow> pyobj obj \<Rightarrow> bool" where
  "is_less (Obj a) (Obj b) = (binary_op_less a b = Some True)"
| "is_less a b = False"

fun int_key :: "pyobj obj \<Rightarrow> bool" where
  "int_key (Obj (Small_Int i)) = True"
| "int_key x = False"

fun str_key :: "pyobj obj \<Rightarrow> bool" where
  "str_key (Obj (Qstr d)) = True"
| "str_key (Obj (Str a h d)) = True"
| "str_key x = False"

lemma int_key_less: "int_key a \<Longrightarrow> int_key b \<Longrightarrow> \<exists>i j. a = Obj (Small_Int i) \<and> b = Obj (Small_Int j) \<and> is_less a b = (i < j)"
  by (cases a rule: int_key.cases; cases b rule: int_key.cases) auto

lemma str_key_less:
  "str_key a \<Longrightarrow> str_key b \<Longrightarrow>
    \<exists>s t. a = Obj s \<and> b = Obj t \<and> is_less a b = ord_class.lexordp (str_data s) (str_data t)"
  by (cases a rule: str_key.cases; cases b rule: str_key.cases) (auto simp: str_less_def mp_seq_cmp_bytes_iff)

lemma lexordp_neg_trans:
  fixes x y z :: "byte list"
  assumes "\<not> ord_class.lexordp x y" "\<not> ord_class.lexordp y z"
  shows "\<not> ord_class.lexordp x z"
proof -
  have "y = x \<or> ord_class.lexordp y x" using lexordp_linear [of x y] assms(1) by auto
  then show ?thesis using lexordp_trans [of y x z] assms by auto
qed

interpretation int_sort: sortable is_less "{x. int_key x}"
proof
  fix a b c
  assume k: "a \<in> {x. int_key x}" "b \<in> {x. int_key x}"
  show "\<not> is_less b a" if "is_less a b" using that k int_key_less [of a b] int_key_less [of b a] by auto
  show "\<not> is_less a c" if "c \<in> {x. int_key x}" "\<not> is_less a b" "\<not> is_less b c"
    using that k int_key_less [of a b] int_key_less [of b c] int_key_less [of a c] by auto
qed

interpretation str_sort: sortable is_less "{x. str_key x}"
proof
  fix a b c
  assume k: "a \<in> {x. str_key x}" "b \<in> {x. str_key x}"
  show "\<not> is_less b a" if "is_less a b" using that k str_key_less [of a b] str_key_less [of b a] lexordp_antisym by auto
  show "\<not> is_less a c" if "c \<in> {x. str_key x}" "\<not> is_less a b" "\<not> is_less b c"
    using that k str_key_less [of a b] str_key_less [of b c] str_key_less [of a c] lexordp_neg_trans by auto
qed

section \<open>Properties\<close>

text \<open>
  C33. \<^verbatim>\<open>list.sort\<close> returns for every list whose keys are all integers or all strings: the list
  then holds the same items with the same multiplicities, in ascending or descending order of
  their keys, and its free slots are still cleared.
\<close>

theorem list_sort_correct:
  assumes "list_rep l xs" "(\<forall>x\<in>set xs. int_key (key_of key x)) \<or> (\<forall>x\<in>set xs. str_key (key_of key x))"
  shows "\<exists>l' ys. mp_obj_list_sort is_less key reverse l = Some l' \<and> list_rep l' ys \<and> mset ys = mset xs \<and>
    sorted_wrt (\<lambda>x y. if reverse then \<not> is_less (key_of key x) (key_of key y) else \<not> is_less (key_of key y) (key_of key x)) ys"
proof -
  have order: "(\<lambda>x y. in_order is_less (\<not> reverse) (key_of key x) (key_of key y)) =
      (\<lambda>x y. if reverse then \<not> is_less (key_of key x) (key_of key y) else \<not> is_less (key_of key y) (key_of key x))"
    by (auto simp: in_order_def fun_eq_iff)
  from assms(2) show ?thesis
  proof
    assume "\<forall>x\<in>set xs. int_key (key_of key x)"
    then show ?thesis using sort_ok [OF assms(1) _ int_sort.sortable_axioms, of key reverse] unfolding order by simp
  next
    assume "\<forall>x\<in>set xs. str_key (key_of key x)"
    then show ?thesis using sort_ok [OF assms(1) _ str_sort.sortable_axioms, of key reverse] unfolding order by simp
  qed
qed

theorem list_sort_correct_witness:
  "\<exists>l' ys. mp_obj_list_sort is_less None True (mp_obj_new_list MP_OBJ_NULL 2 (Some [Obj (Small_Int 1), Obj (Small_Int 2)])) = Some l' \<and>
    list_rep l' ys \<and> mset ys = {#Obj (Small_Int 1), Obj (Small_Int 2)#} \<and> sorted_wrt (\<lambda>x y. \<not> is_less x y) ys"
proof -
  have "list_rep (mp_obj_new_list MP_OBJ_NULL 2 (Some [Obj (Small_Int 1), Obj (Small_Int 2)])) [Obj (Small_Int 1), Obj (Small_Int 2)]"
    using new_list_ok [of 2 "[Obj (Small_Int 1), Obj (Small_Int 2)]" MP_OBJ_NULL] by simp
  from list_sort_correct [OF this, of None True] show ?thesis by (simp add: key_of_def)
qed

end
