(* ===== verification/Heapq.thy ===== *)
theory Heapq
  imports List_Sort
begin

text \<open>
  The heap queue module (\<^verbatim>\<open>extmod/modheapq.c\<close>): a binary heap in the array of a list object.
  The loops work on the array itself, so the slots behind the list's length are part of the
  model.  As for sorting, \<open>lt\<close> is the comparison \<^verbatim>\<open>MP_BINARY_OP_LESS\<close>, taken not to raise.
\<close>

section \<open>Model\<close>

definition parent_pos :: "nat \<Rightarrow> nat" where
  "parent_pos pos = (pos - 1) div 2"

function siftdown_loop :: "('a \<Rightarrow> 'a \<Rightarrow> bool) \<Rightarrow> 'a \<Rightarrow> nat \<Rightarrow> 'a list \<Rightarrow> nat \<Rightarrow> 'a list \<times> nat" where
  "siftdown_loop lt item start_pos items pos =
    (if pos > start_pos
     then let parent = items ! parent_pos pos
          in if lt item parent then siftdown_loop lt item start_pos (items[pos := parent]) (parent_pos pos)
             else (items, pos)
     else (items, pos))"
  by auto
termination by (relation "measure (\<lambda>(lt, item, s, items, pos). pos)") (auto simp: parent_pos_def)

declare siftdown_loop.simps [simp del]

definition heapq_heap_siftdown :: "('a \<Rightarrow> 'a \<Rightarrow> bool) \<Rightarrow> 'a list \<Rightarrow> nat \<Rightarrow> nat \<Rightarrow> 'a list" where
  "heapq_heap_siftdown lt items start_pos pos =
    (let item = items ! pos
     in case siftdown_loop lt item start_pos items pos of (items, pos) \<Rightarrow> items[pos := item])"

text \<open>The right child if it is not larger than the left one.\<close>

definition smaller_child :: "('a \<Rightarrow> 'a \<Rightarrow> bool) \<Rightarrow> 'a list \<Rightarrow> nat \<Rightarrow> nat \<Rightarrow> nat" where
  "smaller_child lt items end_pos child_pos =
    (if child_pos + 1 < end_pos \<and> \<not> lt (items ! child_pos) (items ! (child_pos + 1)) then child_pos + 1 else child_pos)"

function siftup_loop :: "('a \<Rightarrow> 'a \<Rightarrow> bool) \<Rightarrow> nat \<Rightarrow> 'a list \<Rightarrow> nat \<Rightarrow> 'a list \<times> nat" where
  "siftup_loop lt end_pos items pos =
    (let child_pos = 2 * pos + 1
     in if child_pos < end_pos
        then let child_pos = smaller_child lt items end_pos child_pos
             in siftup_loop lt end_pos (items[pos := items ! child_pos]) child_pos
        else (items, pos))"
  by auto
termination by (relation "measure (\<lambda>(lt, end_pos, items, pos). end_pos - pos)") (auto simp: smaller_child_def split: if_splits)

declare siftup_loop.simps [simp del]

definition heapq_heap_siftup :: "('a \<Rightarrow> 'a \<Rightarrow> bool) \<Rightarrow> nat \<Rightarrow> 'a list \<Rightarrow> nat \<Rightarrow> 'a list" where
  "heapq_heap_siftup lt end_pos items pos =
    (let start_pos = pos; item = items ! pos
     in case siftup_loop lt end_pos items pos of
         (items, pos) \<Rightarrow> heapq_heap_siftdown lt (items[pos := item]) start_pos pos)"

definition mod_heapq_heappush ::
  "'o obj \<Rightarrow> ('o obj \<Rightarrow> 'o obj \<Rightarrow> bool) \<Rightarrow> 'o mp_list \<Rightarrow> 'o obj \<Rightarrow> 'o mp_list" where
  "mod_heapq_heappush junk lt heap item =
    (let heap = mp_obj_list_append junk heap item
     in heap\<lparr>l_items := heapq_heap_siftdown lt (l_items heap) 0 (l_len heap - 1)\<rparr>)"

definition mod_heapq_heappop ::
  "('o obj \<Rightarrow> 'o obj \<Rightarrow> bool) \<Rightarrow> 'o mp_list \<Rightarrow> 'o mp_list \<times> (mp_error + 'o obj)" where
  "mod_heapq_heappop lt heap =
    (if l_len heap = 0 then (heap, Inl (IndexError ''empty heap''))
     else let item = l_items heap ! 0; n = l_len heap - 1;
              items = (l_items heap)[0 := l_items heap ! n, n := MP_OBJ_NULL];
              items = (if n \<noteq> 0 then heapq_heap_siftup lt n items 0 else items)
          in (heap\<lparr>l_len := n, l_items := items\<rparr>, Inr item))"

primrec heapify_loop :: "('a \<Rightarrow> 'a \<Rightarrow> bool) \<Rightarrow> nat \<Rightarrow> 'a list \<Rightarrow> nat \<Rightarrow> 'a list" where
  "heapify_loop lt end_pos items 0 = items"
| "heapify_loop lt end_pos items (Suc i) = heapify_loop lt end_pos (heapq_heap_siftup lt end_pos items i) i"

definition mod_heapq_heapify :: "('o obj \<Rightarrow> 'o obj \<Rightarrow> bool) \<Rightarrow> 'o mp_list \<Rightarrow> 'o mp_list" where
  "mod_heapq_heapify lt heap = heap\<lparr>l_items := heapify_loop lt (l_len heap) (l_items heap) (l_len heap div 2)\<rparr>"

section \<open>The slots behind the heap\<close>

text \<open>The loops touch only the first \<open>end_pos\<close> items.\<close>

lemma parent_less: "0 < p \<Longrightarrow> parent_pos p < p"
  by (simp add: parent_pos_def)

lemma smaller_child_less: "c < n \<Longrightarrow> smaller_child lt xs n c < n"
  by (auto simp: smaller_child_def)

lemma siftdown_loop_append:
  "p < length xs \<Longrightarrow> siftdown_loop lt x s (xs @ zs) p =
    (case siftdown_loop lt x s xs p of (ys, q) \<Rightarrow> (ys @ zs, q)) \<and>
    length (fst (siftdown_loop lt x s xs p)) = length xs \<and> snd (siftdown_loop lt x s xs p) < length xs"
proof (induction lt x s xs p rule: siftdown_loop.induct)
  case (1 lt x s xs p)
  show ?case
  proof (cases "p > s \<and> lt x (xs ! parent_pos p)")
    case True
    then have "parent_pos p < length xs" using 1(2) parent_less [of p] by simp
    then show ?thesis
      using True 1(1) [OF _ refl] 1(2) siftdown_loop.simps [of lt x s xs p] siftdown_loop.simps [of lt x s "xs @ zs" p]
      by (simp add: nth_append list_update_append Let_def)
  next
    case False
    moreover have "parent_pos p < length xs" if "s < p" using that 1(2) parent_less [of p] by simp
    ultimately show ?thesis
      using 1(2) siftdown_loop.simps [of lt x s xs p] siftdown_loop.simps [of lt x s "xs @ zs" p]
      by (auto simp: nth_append Let_def)
  qed
qed

lemma siftdown_append:
  assumes "p < length xs"
  shows "heapq_heap_siftdown lt (xs @ zs) s p = heapq_heap_siftdown lt xs s p @ zs"
    "length (heapq_heap_siftdown lt xs s p) = length xs"
  using assms siftdown_loop_append [of p xs lt "xs ! p" s zs]
  by (auto simp: heapq_heap_siftdown_def nth_append Let_def list_update_append split: prod.splits)

lemma siftup_loop_append:
  "p < length xs \<Longrightarrow> n = length xs \<Longrightarrow> siftup_loop lt n (xs @ zs) p =
    (case siftup_loop lt n xs p of (ys, q) \<Rightarrow> (ys @ zs, q)) \<and>
    length (fst (siftup_loop lt n xs p)) = length xs \<and> snd (siftup_loop lt n xs p) < length xs"
proof (induction lt n xs p rule: siftup_loop.induct)
  case (1 lt n xs p)
  show ?case
  proof (cases "2 * p + 1 < n")
    case True
    let ?c = "smaller_child lt xs n (2 * p + 1)"
    have c: "?c < length xs" "smaller_child lt (xs @ zs) n (2 * p + 1) = ?c"
      using smaller_child_less [OF True, of lt xs] 1(3) True by (auto simp: smaller_child_def nth_append)
    have "siftup_loop lt n (xs @ zs) p = siftup_loop lt n (xs[p := xs ! ?c] @ zs) ?c"
      "siftup_loop lt n xs p = siftup_loop lt n (xs[p := xs ! ?c]) ?c"
      using True c 1(2) siftup_loop.simps [of lt n xs p] siftup_loop.simps [of lt n "xs @ zs" p]
      by (simp_all add: nth_append list_update_append Let_def)
    then show ?thesis using 1(1) [OF refl True refl] c 1(3) by simp
  next
    case False
    then show ?thesis using 1(2) siftup_loop.simps [of lt n xs p] siftup_loop.simps [of lt n "xs @ zs" p] by (simp add: Let_def)
  qed
qed

lemma siftup_append:
  assumes "p < length xs"
  shows "heapq_heap_siftup lt (length xs) (xs @ zs) p = heapq_heap_siftup lt (length xs) xs p @ zs"
    "length (heapq_heap_siftup lt (length xs) xs p) = length xs"
proof -
  obtain ys q where q: "siftup_loop lt (length xs) xs p = (ys, q)" by (cases "siftup_loop lt (length xs) xs p")
  then have "length ys = length xs" "q < length xs" "siftup_loop lt (length xs) (xs @ zs) p = (ys @ zs, q)"
    using siftup_loop_append [OF assms refl, of lt zs] by auto
  then show "heapq_heap_siftup lt (length xs) (xs @ zs) p = heapq_heap_siftup lt (length xs) xs p @ zs"
    "length (heapq_heap_siftup lt (length xs) xs p) = length xs"
    using q assms siftdown_append(1) [of q "ys[q := xs ! p]" lt zs p] siftdown_append(2) [of q "ys[q := xs ! p]" lt p]
    by (simp_all add: heapq_heap_siftup_def nth_append Let_def list_update_append)
qed

lemma heapify_append:
  "i \<le> length xs \<Longrightarrow> n = length xs \<Longrightarrow> heapify_loop lt n (xs @ zs) i = heapify_loop lt n xs i @ zs \<and>
    length (heapify_loop lt n xs i) = length xs"
proof (induction i arbitrary: xs)
  case (Suc i)
  then show ?case
    using siftup_append(1) [of i xs lt zs] siftup_append(2) [of i xs lt] Suc.IH [of "heapq_heap_siftup lt n xs i"] by simp
qed simp

section \<open>Heap order\<close>

text \<open>
  \<open>heap_from lt s xs\<close>: every item whose parent is at \<open>s\<close> or behind is not less than its parent.
  \<open>hole lt s p xs\<close>: the same but for the item at \<open>p\<close>, over which its children and its parent are
  still in order.
\<close>

definition heap_from :: "('a \<Rightarrow> 'a \<Rightarrow> bool) \<Rightarrow> nat \<Rightarrow> 'a list \<Rightarrow> bool" where
  "heap_from lt s xs \<longleftrightarrow> (\<forall>i. 0 < i \<longrightarrow> i < length xs \<longrightarrow> s \<le> parent_pos i \<longrightarrow> \<not> lt (xs ! i) (xs ! parent_pos i))"

definition hole :: "('a \<Rightarrow> 'a \<Rightarrow> bool) \<Rightarrow> nat \<Rightarrow> nat \<Rightarrow> 'a list \<Rightarrow> bool" where
  "hole lt s p xs \<longleftrightarrow>
    (\<forall>i. 0 < i \<longrightarrow> i < length xs \<longrightarrow> s \<le> parent_pos i \<longrightarrow> i \<noteq> p \<longrightarrow> parent_pos i \<noteq> p \<longrightarrow> \<not> lt (xs ! i) (xs ! parent_pos i)) \<and>
    (\<forall>i. 0 < i \<longrightarrow> i < length xs \<longrightarrow> parent_pos i = p \<longrightarrow> 0 < p \<longrightarrow> s \<le> parent_pos p \<longrightarrow> \<not> lt (xs ! i) (xs ! parent_pos p))"

lemma heap_edge:
  "heap_from lt s xs \<Longrightarrow> 0 < i \<Longrightarrow> i < length xs \<Longrightarrow> s \<le> parent_pos i \<Longrightarrow> \<not> lt (xs ! i) (xs ! parent_pos i)"
  by (simp add: heap_from_def)

lemma hole_edge:
  "hole lt s p xs \<Longrightarrow> 0 < i \<Longrightarrow> i < length xs \<Longrightarrow> s \<le> parent_pos i \<Longrightarrow> i \<noteq> p \<Longrightarrow> parent_pos i \<noteq> p \<Longrightarrow> \<not> lt (xs ! i) (xs ! parent_pos i)"
  by (simp add: hole_def)

lemma hole_over:
  "hole lt s p xs \<Longrightarrow> 0 < i \<Longrightarrow> i < length xs \<Longrightarrow> parent_pos i = p \<Longrightarrow> 0 < p \<Longrightarrow> s \<le> parent_pos p \<Longrightarrow> \<not> lt (xs ! i) (xs ! parent_pos p)"
  by (simp add: hole_def)

lemma children: "0 < i \<Longrightarrow> parent_pos i = p \<longleftrightarrow> i = 2 * p + 1 \<or> i = 2 * p + 2"
  by (auto simp: parent_pos_def)

text \<open>\<open>p\<close> is \<open>s\<close> or a descendant of it.\<close>

fun below :: "nat \<Rightarrow> nat \<Rightarrow> bool" where
  "below s p \<longleftrightarrow> (if s < p then below s ((p - 1) div 2) else p = s)"

declare below.simps [simp del]

lemma below_refl: "below s s"
  by (simp add: below.simps)

lemma below_parent: "below s p \<Longrightarrow> s < p \<Longrightarrow> below s (parent_pos p)"
  using below.simps [of s p] by (simp add: parent_pos_def)

lemma below_ge: "below s p \<Longrightarrow> s \<le> p"
  by (cases "s < p") (simp_all add: below.simps [of s p])

lemma below_child:
  assumes "below s p" "0 < i" "parent_pos i = p"
  shows "below s i"
  using assms below_ge [OF assms(1)] parent_less [OF assms(2)] by (subst below.simps) (simp add: parent_pos_def)

lemma mset_move:
  assumes "p < length xs" "q < length xs" "p \<noteq> q"
  shows "mset (xs[p := xs ! q, q := x]) = mset (xs[p := x])"
  using mset_swap [of q "xs[p := x]" p] assms by (simp add: list_update_swap [of p q])

section \<open>Sifting\<close>

context sortable
begin

lemma le_trans: "a \<in> keys \<Longrightarrow> b \<in> keys \<Longrightarrow> c \<in> keys \<Longrightarrow> \<not> lt b a \<Longrightarrow> \<not> lt c b \<Longrightarrow> \<not> lt c a"
  using neg_trans by blast

text \<open>One step down: the hole moves to the smaller child.\<close>

lemma hole_down:
  assumes "hole lt s p xs" "below s p" "2 * p + 1 < length xs" "set xs \<subseteq> keys" "c = smaller_child lt xs (length xs) (2 * p + 1)"
  shows "hole lt s c (xs[p := xs ! c])"
proof -
  have c: "0 < c" "c < length xs" "parent_pos c = p" "p < c"
    using assms(3,5) smaller_child_less [OF assms(3)] by (auto simp: smaller_child_def parent_pos_def)
  have least: "\<not> lt (xs ! i) (xs ! c)" if "0 < i" "i < length xs" "parent_pos i = p" for i
  proof -
    have in_keys: "xs ! (2 * p + 1) \<in> keys" using assms(3,4) by (meson nth_mem subsetD)
    have "i = 2 * p + 1 \<or> i = 2 * p + 2" using that children [of i p] by simp
    then show ?thesis
    proof
      assume "i = 2 * p + 1"
      then show ?thesis using assms(5) asym [OF in_keys in_keys] by (auto simp: smaller_child_def)
    next
      assume i: "i = 2 * p + 2"
      then have "xs ! (2 * p + 2) \<in> keys" using that assms(4) by (meson nth_mem subsetD)
      then show ?thesis using assms(5) i that asym [OF in_keys] asym [of "xs ! (2 * p + 2)" "xs ! (2 * p + 2)"]
        by (auto simp: smaller_child_def)
    qed
  qed
  show ?thesis
    unfolding hole_def
  proof (intro conjI allI impI)
    fix i
    assume i: "0 < i" "i < length (xs[p := xs ! c])" "s \<le> parent_pos i" "i \<noteq> c" "parent_pos i \<noteq> c"
    show "\<not> lt (xs[p := xs ! c] ! i) (xs[p := xs ! c] ! parent_pos i)"
    proof (cases "parent_pos i = p")
      case True
      then show ?thesis using least [of i] i c parent_less [OF i(1)] by (simp add: nth_list_update)
    next
      case False
      show ?thesis
      proof (cases "i = p")
        case True
        then show ?thesis using hole_over [OF assms(1) c(1,2,3)] i parent_less [OF i(1)] by simp
      next
        case np: False
        then show ?thesis using hole_edge [OF assms(1) i(1)] i False by simp
      qed
    qed
  next
    fix i
    assume i: "0 < i" "i < length (xs[p := xs ! c])" "parent_pos i = c" "0 < c" "s \<le> parent_pos c"
    then have "s \<le> c" "i \<noteq> p" using c parent_less [OF i(1)] by auto
    then show "\<not> lt (xs[p := xs ! c] ! i) (xs[p := xs ! c] ! parent_pos c)"
      using hole_edge [OF assms(1) i(1)] i c by simp
  qed
qed

text \<open>One step up: the parent takes the place of the hole.\<close>

lemma hole_up:
  assumes "hole lt s p xs" "below s p" "s < p" "p < length xs" "set xs \<subseteq> keys" "x \<in> keys" "lt x (xs ! parent_pos p)"
  shows "hole lt s (parent_pos p) (xs[p := xs ! parent_pos p])"
    "\<And>i. 0 < i \<Longrightarrow> i < length xs \<Longrightarrow> parent_pos i = parent_pos p \<Longrightarrow> \<not> lt (xs[p := xs ! parent_pos p] ! i) x"
proof -
  let ?q = "parent_pos p" and ?ys = "xs[p := xs ! parent_pos p]"
  have q: "?q < p" "s \<le> ?q" using parent_less [of p] assms(3) below_ge [OF below_parent [OF assms(2,3)]] by auto
  have qk: "xs ! ?q \<in> keys" using assms(4,5) q by (meson less_trans nth_mem subsetD)
  have sibling: "\<not> lt (?ys ! i) (xs ! ?q)" if "0 < i" "i < length xs" "parent_pos i = ?q" for i
  proof (cases "i = p")
    case True
    then show ?thesis using assms(4) asym [OF qk qk] by auto
  next
    case False
    then show ?thesis using hole_edge [OF assms(1) that(1,2)] that q by simp
  qed
  have key: "?ys ! i \<in> keys" if "i < length xs" for i
    using that assms(4,5) qk by (cases "i = p") (auto simp: nth_list_update dest: nth_mem)
  show "\<not> lt (?ys ! i) x" if "0 < i" "i < length xs" "parent_pos i = ?q" for i
    using le_trans [OF assms(6) qk key [OF that(2)]] sibling [OF that] asym [OF assms(6) qk assms(7)] by blast
  show "hole lt s ?q ?ys"
    unfolding hole_def
  proof (intro conjI allI impI)
    fix i
    assume i: "0 < i" "i < length ?ys" "s \<le> parent_pos i" "i \<noteq> ?q" "parent_pos i \<noteq> ?q"
    show "\<not> lt (?ys ! i) (?ys ! parent_pos i)"
    proof (cases "parent_pos i = p")
      case True
      then show ?thesis using hole_over [OF assms(1) i(1)] i q assms(3,4) parent_less [OF i(1)] by simp
    next
      case False
      then have "i \<noteq> p" using i by auto
      then show ?thesis using hole_edge [OF assms(1) i(1)] i False by simp
    qed
  next
    fix i
    assume i: "0 < i" "i < length ?ys" "parent_pos i = ?q" "0 < ?q" "s \<le> parent_pos ?q"
    have qq: "parent_pos ?q < ?q" using parent_less [OF i(4)] .
    have "\<not> lt (xs ! ?q) (xs ! parent_pos ?q)" using hole_edge [OF assms(1) i(4)] i q qq assms(4) by simp
    moreover have "xs ! parent_pos ?q \<in> keys" using key [of "parent_pos ?q"] qq q assms(4) by simp
    ultimately show "\<not> lt (?ys ! i) (?ys ! parent_pos ?q)"
      using le_trans [OF _ qk key [of i]] sibling [of i] i qq q by simp
  qed
qed

text \<open>The hole is filled.\<close>

lemma hole_fill:
  assumes "hole lt s p xs" "p < length xs" "0 < p \<Longrightarrow> s \<le> parent_pos p \<Longrightarrow> \<not> lt x (xs ! parent_pos p)"
    "\<And>i. 0 < i \<Longrightarrow> i < length xs \<Longrightarrow> parent_pos i = p \<Longrightarrow> \<not> lt (xs ! i) x"
  shows "heap_from lt s (xs[p := x])"
  unfolding heap_from_def
proof (intro allI impI)
  fix i
  assume i: "0 < i" "i < length (xs[p := x])" "s \<le> parent_pos i"
  then have ne: "parent_pos i < i" using parent_less by simp
  show "\<not> lt (xs[p := x] ! i) (xs[p := x] ! parent_pos i)"
  proof (cases "i = p \<or> parent_pos i = p")
    case True
    then show ?thesis using assms(2,3) assms(4) [of i] i ne by auto
  next
    case False
    then show ?thesis using hole_edge [OF assms(1) i(1)] i by simp
  qed
qed

lemma siftdown_loop_ok:
  assumes "hole lt s p xs" "below s p" "p < length xs" "set xs \<subseteq> keys" "x \<in> keys"
    "\<And>i. 0 < i \<Longrightarrow> i < length xs \<Longrightarrow> parent_pos i = p \<Longrightarrow> \<not> lt (xs ! i) x"
  shows "\<exists>ys q. siftdown_loop lt x s xs p = (ys, q) \<and> heap_from lt s (ys[q := x]) \<and> mset (ys[q := x]) = mset (xs[p := x])"
  using assms
proof (induction p arbitrary: xs rule: less_induct)
  case (less p)
  note pre = less.prems
  show ?case
  proof (cases "s < p \<and> lt x (xs ! parent_pos p)")
    case True
    let ?ys = "xs[p := xs ! parent_pos p]"
    have q: "parent_pos p < p" "parent_pos p < length xs" using True parent_less [of p] pre(3) by auto
    then have "set ?ys \<subseteq> keys" using pre(4) nth_mem [of "parent_pos p" xs] set_update_subset_insert [of xs p] by blast
    then obtain zs r where z: "siftdown_loop lt x s ?ys (parent_pos p) = (zs, r)" "heap_from lt s (zs[r := x])"
      "mset (zs[r := x]) = mset (?ys[parent_pos p := x])"
      using less.IH [OF q(1), of ?ys] hole_up [OF pre(1,2) _ pre(3,4,5)] True below_parent [OF pre(2)] pre(5) q by auto
    moreover have "siftdown_loop lt x s xs p = siftdown_loop lt x s ?ys (parent_pos p)"
      using True by (subst siftdown_loop.simps) (simp add: Let_def)
    ultimately show ?thesis using mset_move [OF pre(3) q(2), of x] q(1) by auto
  next
    case False
    then have "siftdown_loop lt x s xs p = (xs, p)" by (subst siftdown_loop.simps) (auto simp: Let_def)
    moreover have "\<not> lt x (xs ! parent_pos p)" if "0 < p" "s \<le> parent_pos p"
      using False that parent_less [of p] by simp
    ultimately show ?thesis using hole_fill [OF pre(1,3)] pre(6) by auto
  qed
qed

lemma siftdown_ok:
  assumes "hole lt s p xs" "below s p" "p < length xs" "set xs \<subseteq> keys"
    "\<And>i. 0 < i \<Longrightarrow> i < length xs \<Longrightarrow> parent_pos i \<noteq> p"
  shows "heap_from lt s (heapq_heap_siftdown lt xs s p) \<and> mset (heapq_heap_siftdown lt xs s p) = mset xs"
proof -
  have "xs ! p \<in> keys" using assms(3,4) by (meson nth_mem subsetD)
  then show ?thesis using siftdown_loop_ok [OF assms(1-4), of "xs ! p"] assms(5) by (auto simp: heapq_heap_siftdown_def Let_def)
qed

lemma siftup_loop_ok:
  assumes "hole lt s p xs" "below s p" "p < length xs" "set xs \<subseteq> keys"
  shows "\<exists>ys q. siftup_loop lt (length xs) xs p = (ys, q) \<and> hole lt s q ys \<and> below s q \<and> q < length xs \<and> length ys = length xs \<and>
    length xs \<le> 2 * q + 1 \<and> set ys \<subseteq> keys \<and> (\<forall>x. mset (ys[q := x]) = mset (xs[p := x]))"
  using assms
proof (induction "length xs - p" arbitrary: xs p rule: less_induct)
  case less
  note pre = less.prems
  show ?case
  proof (cases "2 * p + 1 < length xs")
    case True
    define c where "c = smaller_child lt xs (length xs) (2 * p + 1)"
    let ?ys = "xs[p := xs ! c]"
    have c: "0 < c" "c < length xs" "parent_pos c = p" "p < c"
      using True smaller_child_less [OF True] by (auto simp: c_def smaller_child_def parent_pos_def)
    have "set ?ys \<subseteq> keys" using pre(4) nth_mem [OF c(2)] set_update_subset_insert [of xs p] by blast
    then obtain zs r where z: "siftup_loop lt (length ?ys) ?ys c = (zs, r)" "hole lt s r zs" "below s r" "r < length ?ys"
      "length zs = length ?ys" "length ?ys \<le> 2 * r + 1" "set zs \<subseteq> keys" "\<forall>x. mset (zs[r := x]) = mset (?ys[c := x])"
      using less.hyps [of ?ys c] hole_down [OF pre(1,2) True pre(4) c_def] below_child [OF pre(2) c(1,3)] c by fastforce
    moreover have "siftup_loop lt (length xs) xs p = siftup_loop lt (length ?ys) ?ys c"
      using True by (subst siftup_loop.simps) (simp add: Let_def c_def)
    ultimately show ?thesis using mset_move [OF pre(3) c(2)] c(4) by simp
  next
    case False
    then have "siftup_loop lt (length xs) xs p = (xs, p)" by (subst siftup_loop.simps) (simp add: Let_def)
    then show ?thesis using pre False by auto
  qed
qed

lemma siftup_ok:
  assumes "heap_from lt (Suc s) xs" "s < length xs" "set xs \<subseteq> keys"
  shows "heap_from lt s (heapq_heap_siftup lt (length xs) xs s) \<and> mset (heapq_heap_siftup lt (length xs) xs s) = mset xs"
proof -
  have "hole lt s s xs" using assms(1) parent_less [of s] by (auto simp: hole_def heap_from_def)
  then obtain ys q where y: "siftup_loop lt (length xs) xs s = (ys, q)" "hole lt s q ys" "below s q" "q < length xs"
    "length ys = length xs" "length xs \<le> 2 * q + 1" "\<forall>x. mset (ys[q := x]) = mset (xs[s := x])"
    using siftup_loop_ok [OF _ below_refl assms(2,3)] by blast
  let ?zs = "ys[q := xs ! s]"
  have m: "mset ?zs = mset xs" using y(7) by simp
  have leaf: "parent_pos i \<noteq> q" if "0 < i" "i < length ?zs" for i using that y(5,6) children [OF that(1), of q] by auto
  have same: "ys[q := xs ! s] ! j = ys ! j" if "j \<noteq> q" for j using that by simp
  have "hole lt s q ?zs"
    unfolding hole_def
  proof (intro conjI allI impI)
    fix i
    assume i: "0 < i" "i < length ?zs" "s \<le> parent_pos i" "i \<noteq> q" "parent_pos i \<noteq> q"
    then show "\<not> lt (?zs ! i) (?zs ! parent_pos i)" using hole_edge [OF y(2)] same by simp
  next
    fix i
    assume "0 < i" "i < length ?zs" "parent_pos i = q"
    then show "\<not> lt (?zs ! i) (?zs ! parent_pos q)" using leaf by blast
  qed
  then show ?thesis
    using siftdown_ok [OF _ y(3), of ?zs] y(1,4,5) leaf m assms(3) mset_eq_setD [OF m] by (simp add: heapq_heap_siftup_def Let_def)
qed

lemma heapify_ok:
  assumes "heap_from lt i xs" "i \<le> length xs" "set xs \<subseteq> keys"
  shows "heap_from lt 0 (heapify_loop lt (length xs) xs i) \<and> mset (heapify_loop lt (length xs) xs i) = mset xs"
  using assms
proof (induction i arbitrary: xs)
  case (Suc i)
  let ?ys = "heapq_heap_siftup lt (length xs) xs i"
  have y: "heap_from lt i ?ys" "mset ?ys = mset xs" using siftup_ok [OF Suc.prems(1)] Suc.prems by auto
  then show ?case using Suc.IH [OF y(1)] Suc.prems mset_eq_length [OF y(2)] mset_eq_setD [OF y(2)] by simp
qed simp

lemma heap_min:
  assumes "heap_from lt 0 xs" "set xs \<subseteq> keys" "i < length xs"
  shows "\<not> lt (xs ! i) (xs ! 0)"
  using assms(3)
proof (induction i rule: less_induct)
  case (less i)
  have k: "xs ! j \<in> keys" if "j < length xs" for j using that assms(2) by (meson nth_mem subsetD)
  show ?case
  proof (cases "i = 0")
    case True
    then show ?thesis using asym [OF k k] less.prems by blast
  next
    case False
    then have p: "parent_pos i < i" using parent_less by simp
    have "\<not> lt (xs ! i) (xs ! parent_pos i)" using assms(1) False less.prems by (simp add: heap_from_def)
    moreover have "\<not> lt (xs ! parent_pos i) (xs ! 0)" using less.IH [OF p] p less.prems by simp
    moreover have "xs ! 0 \<in> keys" "xs ! parent_pos i \<in> keys" "xs ! i \<in> keys" using k [of 0] k [of "parent_pos i"] k [of i] p less.prems by (auto simp del: length_greater_0_conv)
    ultimately show ?thesis using le_trans by blast
  qed
qed

end

section \<open>Heaps in list objects\<close>

text \<open>The list object holds a heap whose items are the multiset \<open>M\<close>.\<close>

definition heap_rep :: "('o obj \<Rightarrow> 'o obj \<Rightarrow> bool) \<Rightarrow> 'o obj set \<Rightarrow> 'o mp_list \<Rightarrow> 'o obj multiset \<Rightarrow> bool" where
  "heap_rep lt keys l M \<longleftrightarrow> (\<exists>xs. list_rep l xs \<and> mset xs = M \<and> set xs \<subseteq> keys \<and> heap_from lt 0 xs)"

lemma list_rep_replace:
  assumes "list_rep l xs" "length ys = length xs" "l_items l = xs @ replicate k MP_OBJ_NULL"
  shows "list_rep (l\<lparr>l_items := ys @ replicate k MP_OBJ_NULL\<rparr>) ys"
proof -
  have "l_alloc l = length xs + k" "l_len l = length xs" "0 < length xs + k" using assms(1,3) by (auto simp: list_rep_def dest: arg_cong [of _ _ length])
  then show ?thesis using assms(2) by (intro list_repI [of _ _ k]) simp_all
qed

lemma heappush_ok:
  assumes "sortable lt keys" "heap_rep lt keys l M" "x \<in> keys"
  shows "heap_rep lt keys (mod_heapq_heappush junk lt l x) (add_mset x M)"
proof -
  from assms(2) obtain xs where xs: "list_rep l xs" "mset xs = M" "set xs \<subseteq> keys" "heap_from lt 0 xs" by (auto simp: heap_rep_def)
  let ?l = "mp_obj_list_append junk l x" and ?ys = "heapq_heap_siftdown lt (xs @ [x]) 0 (length xs)"
  note a = append_ok [OF xs(1), of junk x]
  from a obtain k where k: "l_items ?l = (xs @ [x]) @ replicate k MP_OBJ_NULL" "l_len ?l = length (xs @ [x])" by (rule list_repE) blast
  have "hole lt 0 (length xs) (xs @ [x])"
    unfolding hole_def
  proof (intro conjI allI impI)
    fix i
    assume i: "0 < i" "i < length (xs @ [x])" "i \<noteq> length xs"
    then show "\<not> lt ((xs @ [x]) ! i) ((xs @ [x]) ! parent_pos i)"
      using heap_edge [OF xs(4) i(1)] parent_less [OF i(1)] by (simp add: nth_append)
  next
    fix i
    assume "0 < i" "i < length (xs @ [x])" "parent_pos i = length xs"
    then show "\<not> lt ((xs @ [x]) ! i) ((xs @ [x]) ! parent_pos (length xs))" using parent_less [of i] by simp
  qed
  moreover have "below 0 p" for p by (induction p rule: less_induct) (subst below.simps, simp)
  moreover have "parent_pos i \<noteq> length xs" if "0 < i" "i < length (xs @ [x])" for i using that parent_less [of i] by simp
  ultimately have y: "heap_from lt 0 ?ys" "mset ?ys = add_mset x M"
    using sortable.siftdown_ok [OF assms(1), of 0 "length xs" "xs @ [x]"] xs(2,3) assms(3) by auto
  have "list_rep (?l\<lparr>l_items := ?ys @ replicate k MP_OBJ_NULL\<rparr>) ?ys"
    by (rule list_rep_replace [OF a _ k(1)]) (simp add: siftdown_append(2))
  moreover have "mod_heapq_heappush junk lt l x = ?l\<lparr>l_items := ?ys @ replicate k MP_OBJ_NULL\<rparr>"
    using siftdown_append(1) [of "length xs" "xs @ [x]" lt "replicate k MP_OBJ_NULL" 0] k
    by (simp add: mod_heapq_heappush_def Let_def)
  moreover have "set ?ys = insert x (set xs)" using y(2) xs(2) mset_eq_setD [of ?ys "x # xs"] by simp
  ultimately show ?thesis using y xs(3) assms(3) unfolding heap_rep_def by (intro exI [of _ ?ys]) simp
qed

lemma heapify_list_ok:
  assumes "sortable lt keys" "list_rep l xs" "set xs \<subseteq> keys"
  shows "heap_rep lt keys (mod_heapq_heapify lt l) (mset xs)"
proof -
  from assms(2) obtain k where k: "l_items l = xs @ replicate k MP_OBJ_NULL" "l_len l = length xs" by (rule list_repE) blast
  let ?ys = "heapify_loop lt (length xs) xs (length xs div 2)"
  have "heap_from lt (length xs div 2) xs" by (auto simp: heap_from_def parent_pos_def)
  then have y: "heap_from lt 0 ?ys" "mset ?ys = mset xs" using sortable.heapify_ok [OF assms(1)] assms(3) by simp_all
  have "list_rep (l\<lparr>l_items := ?ys @ replicate k MP_OBJ_NULL\<rparr>) ?ys"
    by (rule list_rep_replace [OF assms(2) _ k(1)]) (rule mset_eq_length [OF y(2)])
  moreover have "mod_heapq_heapify lt l = l\<lparr>l_items := ?ys @ replicate k MP_OBJ_NULL\<rparr>"
    using heapify_append [of "length xs div 2" xs "length xs" lt "replicate k MP_OBJ_NULL"] k by (simp add: mod_heapq_heapify_def)
  ultimately show ?thesis using y assms(3) mset_eq_setD [OF y(2)] by (auto simp: heap_rep_def)
qed

lemma heappop_empty: "list_rep l [] \<Longrightarrow> mod_heapq_heappop lt l = (l, Inl (IndexError ''empty heap''))"
  by (auto simp: list_rep_def mod_heapq_heappop_def)

lemma heappop_ok:
  assumes "sortable lt keys" "heap_rep lt keys l M" "M \<noteq> {#}"
  shows "\<exists>l' x. mod_heapq_heappop lt l = (l', Inr x) \<and> x \<in># M \<and> heap_rep lt keys l' (M - {#x#}) \<and> (\<forall>y\<in>#M. \<not> lt y x)"
proof -
  from assms(2) obtain xs where xs: "list_rep l xs" "mset xs = M" "set xs \<subseteq> keys" "heap_from lt 0 xs" by (auto simp: heap_rep_def)
  from xs(1) obtain k where k: "l_items l = xs @ replicate k MP_OBJ_NULL" "l_alloc l = length xs + k" "l_len l = length xs"
    by (rule list_repE) blast
  have ne: "xs \<noteq> []" using xs(2) assms(3) by auto
  then obtain us u where u: "xs = us @ [u]" by (cases xs rule: rev_cases) auto
  let ?x = "xs ! 0" and ?ys = "us[0 := u]"
  let ?zs = "if length us \<noteq> 0 then heapq_heap_siftup lt (length us) ?ys 0 else []"
  have min: "\<forall>y\<in>#M. \<not> lt y ?x"
    using sortable.heap_min [OF assms(1) xs(4,3)] xs(2) by (auto simp: in_set_conv_nth)
  have z: "heap_from lt 0 ?zs" "mset ?zs = M - {#?x#}" "length ?zs = length us"
  proof (atomize(full), cases us)
    case Nil
    then show "heap_from lt 0 ?zs \<and> mset ?zs = M - {#?x#} \<and> length ?zs = length us" using u xs(2) by (auto simp: heap_from_def)
  next
    case (Cons v vs)
    have h1: "heap_from lt (Suc 0) ?ys"
      unfolding heap_from_def
    proof (intro allI impI)
      fix i
      assume i: "0 < i" "i < length ?ys" "Suc 0 \<le> parent_pos i"
      then show "\<not> lt (?ys ! i) (?ys ! parent_pos i)"
        using heap_edge [OF xs(4) i(1)] parent_less [OF i(1)] u by (simp add: nth_append)
    qed
    have "set ?ys \<subseteq> keys" using xs(3) u set_update_subset_insert [of us 0 u] by auto
    then show "heap_from lt 0 ?zs \<and> mset ?zs = M - {#?x#} \<and> length ?zs = length us"
      using sortable.siftup_ok [OF assms(1) h1] siftup_append(2) [of 0 ?ys lt] Cons u xs(2) by auto
  qed
  let ?l = "l\<lparr>l_len := length us, l_items := ?zs @ replicate (Suc k) MP_OBJ_NULL\<rparr>"
  have items: "(l_items l)[0 := l_items l ! length us, length us := MP_OBJ_NULL] = ?ys @ replicate (Suc k) MP_OBJ_NULL"
    using k(1) u by (cases us) (simp_all add: nth_append list_update_append)
  have pop: "mod_heapq_heappop lt l = (?l, Inr ?x)"
    using k u items siftup_append(1) [of 0 ?ys lt "replicate (Suc k) MP_OBJ_NULL"]
    by (cases us) (simp_all add: mod_heapq_heappop_def Let_def)
  have rep: "list_rep ?l ?zs" using k u z(3) by (intro list_repI [of _ _ "Suc k"]) simp_all
  have "set ?zs \<subseteq> set xs" using arg_cong [OF z(2), of set_mset] xs(2) by (auto dest: in_diffD)
  then have "heap_rep lt keys ?l (M - {#?x#})" using rep z(1,2) xs(3) unfolding heap_rep_def by blast
  moreover have "?x \<in># M" using xs(2) ne by (metis length_greater_0_conv nth_mem set_mset_mset)
  ultimately show ?thesis using pop min by blast
qed

section \<open>Priority queues\<close>

text \<open>
  The contract of a priority queue over multisets, and what a client gets who empties one.
\<close>

primrec pops :: "('q \<Rightarrow> 'q \<times> (mp_error + 'x)) \<Rightarrow> nat \<Rightarrow> 'q \<Rightarrow> (mp_error + 'x) list" where
  "pops pop 0 q = []"
| "pops pop (Suc n) q = (case pop q of (q', r) \<Rightarrow> r # pops pop n q')"

locale priority_queue =
  fixes pop :: "'q \<Rightarrow> 'q \<times> (mp_error + 'x)"
    and rep :: "'q \<Rightarrow> 'x multiset \<Rightarrow> bool"
    and lt :: "'x \<Rightarrow> 'x \<Rightarrow> bool"
  assumes pop_least: "rep q M \<Longrightarrow> M \<noteq> {#} \<Longrightarrow>
      \<exists>q' x. pop q = (q', Inr x) \<and> x \<in># M \<and> rep q' (M - {#x#}) \<and> (\<forall>y\<in>#M. \<not> lt y x)"
begin

lemma pops_sorted: "rep q M \<Longrightarrow> n = size M \<Longrightarrow> \<exists>ys. pops pop n q = map Inr ys \<and> mset ys = M \<and> sorted_wrt (\<lambda>x y. \<not> lt y x) ys"
proof (induction n arbitrary: q M)
  case (Suc n)
  then have "M \<noteq> {#}" by auto
  then obtain q' x where x: "pop q = (q', Inr x)" "x \<in># M" "rep q' (M - {#x#})" "\<forall>y\<in>#M. \<not> lt y x"
    using pop_least [OF Suc.prems(1)] by blast
  have "n = size (M - {#x#})" using Suc.prems(2) x(2) by (simp add: size_Diff_singleton)
  then obtain ys where ys: "pops pop n q' = map Inr ys" "mset ys = M - {#x#}" "sorted_wrt (\<lambda>x y. \<not> lt y x) ys"
    using Suc.IH [OF x(3)] by blast
  have "mset (x # ys) = M" using ys(2) x(2) by simp
  moreover have "sorted_wrt (\<lambda>x y. \<not> lt y x) (x # ys)"
    using ys(2,3) x(4) by (auto simp: set_mset_mset [symmetric] simp del: set_mset_mset dest: in_diffD)
  ultimately show ?case using x(1) ys(1) by (intro exI [of _ "x # ys"]) simp
qed simp

end

interpretation int_heap: priority_queue "mod_heapq_heappop is_less" "heap_rep is_less {x. int_key x}" is_less
  by unfold_locales (rule heappop_ok [OF int_sort.sortable_axioms])

interpretation str_heap: priority_queue "mod_heapq_heappop is_less" "heap_rep is_less {x. str_key x}" is_less
  by unfold_locales (rule heappop_ok [OF str_sort.sortable_axioms])

section \<open>Properties\<close>

text \<open>
  C34. The heap queue is a priority queue: \<^verbatim>\<open>heapify\<close> makes a heap of the items of any list with
  comparable items, \<^verbatim>\<open>heappush\<close> adds an item to it, \<^verbatim>\<open>heappop\<close> of a non-empty heap removes and returns
  an item to which no other is prior and leaves a heap of the rest, and \<^verbatim>\<open>heappop\<close> of an empty
  list raises \<^verbatim>\<open>IndexError\<close>.
\<close>

theorem heapq_priority_queue:
  assumes "sortable lt keys" "list_rep l xs" "set xs \<subseteq> keys" "heap_rep lt keys h M" "x \<in> keys"
  shows "heap_rep lt keys (mod_heapq_heapify lt l) (mset xs) \<and>
    heap_rep lt keys (mod_heapq_heappush junk lt h x) (add_mset x M) \<and>
    (if M = {#} then mod_heapq_heappop lt h = (h, Inl (IndexError ''empty heap''))
     else \<exists>h' y. mod_heapq_heappop lt h = (h', Inr y) \<and> y \<in># M \<and> heap_rep lt keys h' (M - {#y#}) \<and> (\<forall>z\<in>#M. \<not> lt z y))"
  using heapify_list_ok [OF assms(1-3)] heappush_ok [OF assms(1,4,5)] heappop_ok [OF assms(1,4)] heappop_empty [of h lt] assms(4)
  by (auto simp: heap_rep_def)

theorem heapq_priority_queue_witness:
  "\<exists>h' y. mod_heapq_heappop is_less (mod_heapq_heapify is_less (mp_obj_new_list MP_OBJ_NULL 2 (Some [Obj (Small_Int 5), Obj (Small_Int 2)]))) =
     (h', Inr y) \<and> (\<forall>z\<in>#{#Obj (Small_Int 5), Obj (Small_Int 2)#}. \<not> is_less z y)"
proof -
  let ?xs = "[Obj (Small_Int 5), Obj (Small_Int 2)]"
  have l: "list_rep (mp_obj_new_list MP_OBJ_NULL 2 (Some ?xs)) ?xs" using new_list_ok [of 2 ?xs MP_OBJ_NULL] by simp
  have k: "set ?xs \<subseteq> {x. int_key x}" "Obj (Small_Int 1) \<in> {x. int_key x}" by simp_all
  note h = heapify_list_ok [OF int_sort.sortable_axioms l k(1)]
  have "mset ?xs \<noteq> {#}" by simp
  with heapq_priority_queue [OF int_sort.sortable_axioms l k(1) h k(2)]
  obtain h' y where "mod_heapq_heappop is_less (mod_heapq_heapify is_less (mp_obj_new_list MP_OBJ_NULL 2 (Some ?xs))) = (h', Inr y)"
    "\<forall>z\<in>#mset ?xs. \<not> is_less z y" by (metis (no_types, lifting))
  moreover have "mset ?xs = {#Obj (Small_Int 5), Obj (Small_Int 2)#}" by simp
  ultimately show ?thesis by metis
qed

text \<open>
  C36. A list of integers or of strings that is made a heap and popped until it is empty gives
  its items in ascending order: every pop succeeds, and equal items are kept.
\<close>

theorem heapq_sorts:
  assumes "list_rep l xs" "(\<forall>x\<in>set xs. int_key x) \<or> (\<forall>x\<in>set xs. str_key x)"
  shows "\<exists>ys. pops (mod_heapq_heappop is_less) (length xs) (mod_heapq_heapify is_less l) = map Inr ys \<and>
    mset ys = mset xs \<and> sorted_wrt (\<lambda>x y. \<not> is_less y x) ys"
  using assms(2)
proof
  assume "\<forall>x\<in>set xs. int_key x"
  then have "heap_rep is_less {x. int_key x} (mod_heapq_heapify is_less l) (mset xs)"
    by (intro heapify_list_ok [OF int_sort.sortable_axioms assms(1)]) auto
  then show ?thesis by (rule int_heap.pops_sorted) simp
next
  assume "\<forall>x\<in>set xs. str_key x"
  then have "heap_rep is_less {x. str_key x} (mod_heapq_heapify is_less l) (mset xs)"
    by (intro heapify_list_ok [OF str_sort.sortable_axioms assms(1)]) auto
  then show ?thesis by (rule str_heap.pops_sorted) simp
qed

theorem heapq_sorts_witness:
  "\<exists>ys. pops (mod_heapq_heappop is_less) 2
      (mod_heapq_heapify is_less (mp_obj_new_list MP_OBJ_NULL 2 (Some [Obj (Small_Int 5), Obj (Small_Int 2)]))) = map Inr ys \<and>
    mset ys = {#Obj (Small_Int 5), Obj (Small_Int 2)#} \<and> sorted_wrt (\<lambda>x y. \<not> is_less y x) ys"
proof -
  let ?xs = "[Obj (Small_Int 5), Obj (Small_Int 2)]"
  have "list_rep (mp_obj_new_list MP_OBJ_NULL 2 (Some ?xs)) ?xs" using new_list_ok [of 2 ?xs MP_OBJ_NULL] by simp
  from heapq_sorts [OF this] show ?thesis by (simp add: numeral_2_eq_2)
qed

end
