(* ===== verification/Framebuf.thy ===== *)
theory Framebuf
  imports Prelude
begin

text \<open>
  The frame buffer of \<^verbatim>\<open>extmod/modframebuf.c\<close>, in the firmware's own version, which keeps
  a log of the bytes that changed: the seven pixel formats with their set, get and rectangle
  fill, and the constructor.  A buffer is a list of bytes; an access outside it is the error
  \<open>Out_Of_Bounds\<close>, which stands for the undefined behaviour of the C code.
\<close>

named_theorems fb_ok \<open>pixel operations that succeed\<close>

section \<open>Model\<close>

datatype fb_format = MVLSB | RGB565 | GS4_HMSB | MHLSB | MHMSB | GS2_HMSB | GS8

datatype fb_error = Fb_ValueError | Out_Of_Bounds

type_synonym 'a fb_result = "fb_error + 'a"

type_synonym color = "32 word"

text \<open>
  The entries of \<^verbatim>\<open>changed_indexes\<close> below \<^verbatim>\<open>changed_count\<close> are the list
  \<open>changed_indexes\<close>; resetting the count empties it.
\<close>

record framebuf =
  fb_buf :: "byte list"
  fb_width :: nat
  fb_height :: nat
  fb_stride :: nat
  fb_format :: fb_format
  changed_indexes :: "16 word list"
  changed_capacity :: nat
  changed_cleared :: bool

fun bind_result :: "'e + 'a \<Rightarrow> ('a \<Rightarrow> 'e + 'b) \<Rightarrow> 'e + 'b" where
  "bind_result (Inl e) f = Inl e"
| "bind_result (Inr a) f = f a"

text \<open>A loop over a list of iterations that stops at the first error.\<close>

fun for_each :: "('i \<Rightarrow> 's \<Rightarrow> 'e + 's) \<Rightarrow> 'i list \<Rightarrow> 's \<Rightarrow> 'e + 's" where
  "for_each f [] s = Inr s"
| "for_each f (i # is) s = bind_result (f i s) (for_each f is)"

definition read_at :: "framebuf \<Rightarrow> nat \<Rightarrow> byte fb_result" where
  "read_at fb i = (if i < length (fb_buf fb) then Inr (fb_buf fb ! i) else Inl Out_Of_Bounds)"

definition update_at :: "nat \<Rightarrow> (byte \<Rightarrow> byte) \<Rightarrow> framebuf \<Rightarrow> framebuf fb_result" where
  "update_at i f fb =
    (if i < length (fb_buf fb) then Inr (fb\<lparr>fb_buf := (fb_buf fb)[i := f (fb_buf fb ! i)]\<rparr>)
     else Inl Out_Of_Bounds)"

text \<open>\<^verbatim>\<open>(b & ~(1 << offset)) | ((col != 0) << offset)\<close>.\<close>

definition put_bit :: "nat \<Rightarrow> color \<Rightarrow> byte \<Rightarrow> byte" where
  "put_bit offset col b = (b AND NOT (push_bit offset 1)) OR push_bit offset (of_bool (col \<noteq> 0))"

text \<open>The start of every \<^verbatim>\<open>setpixel\<close>: a new frame resets the log, then the index is logged.\<close>

definition begin_frame :: "framebuf \<Rightarrow> framebuf" where
  "begin_frame fb =
    (if \<not> changed_cleared fb then fb\<lparr>changed_indexes := [], changed_cleared := True\<rparr> else fb)"

definition log_change :: "nat \<Rightarrow> framebuf \<Rightarrow> framebuf" where
  "log_change index fb =
    (let fb = begin_frame fb
     in if length (changed_indexes fb) < changed_capacity fb
        then fb\<lparr>changed_indexes := changed_indexes fb @ [word_of_nat index]\<rparr> else fb)"

subsection \<open>MHLSB and MHMSB\<close>

definition horiz_offset :: "framebuf \<Rightarrow> nat \<Rightarrow> nat" where
  "horiz_offset fb x = (if fb_format fb = MHMSB then x mod 8 else 7 - x mod 8)"

definition mono_horiz_setpixel :: "nat \<Rightarrow> nat \<Rightarrow> color \<Rightarrow> framebuf \<Rightarrow> framebuf fb_result" where
  "mono_horiz_setpixel x y col fb =
    (if fb_width fb \<le> x \<or> fb_height fb \<le> y then Inl Fb_ValueError
     else let index = u32 (x + y * fb_stride fb) div 8
          in update_at index (put_bit (horiz_offset fb x) col) (log_change index fb))"

definition mono_horiz_getpixel :: "framebuf \<Rightarrow> nat \<Rightarrow> nat \<Rightarrow> color fb_result" where
  "mono_horiz_getpixel fb x y =
    bind_result (read_at fb (u32 (x + y * fb_stride fb) div 8))
      (\<lambda>b. Inr (ucast (drop_bit (horiz_offset fb x) b AND 1)))"

definition mono_horiz_fill_rect :: "nat \<Rightarrow> nat \<Rightarrow> nat \<Rightarrow> nat \<Rightarrow> color \<Rightarrow> framebuf \<Rightarrow> framebuf fb_result" where
  "mono_horiz_fill_rect x y w h col fb =
    (let advance = fb_stride fb div 8
     in for_each (\<lambda>xx. for_each (\<lambda>k. update_at (xx div 8 + y * advance + k * advance)
          (put_bit (horiz_offset fb xx) col)) [0..<h]) [x..<x + w] fb)"

subsection \<open>MVLSB\<close>

definition mvlsb_setpixel :: "nat \<Rightarrow> nat \<Rightarrow> color \<Rightarrow> framebuf \<Rightarrow> framebuf fb_result" where
  "mvlsb_setpixel x y col fb =
    (if fb_width fb \<le> x \<or> fb_height fb \<le> y then Inl Fb_ValueError
     else let index = u32 (y div 8 * fb_stride fb + x)
          in update_at index (put_bit (y mod 8) col) (log_change index fb))"

definition mvlsb_getpixel :: "framebuf \<Rightarrow> nat \<Rightarrow> nat \<Rightarrow> color fb_result" where
  "mvlsb_getpixel fb x y =
    bind_result (read_at fb (u32 (y div 8 * fb_stride fb + x)))
      (\<lambda>b. Inr (ucast (drop_bit (y mod 8) b AND 1)))"

definition mvlsb_fill_rect :: "nat \<Rightarrow> nat \<Rightarrow> nat \<Rightarrow> nat \<Rightarrow> color \<Rightarrow> framebuf \<Rightarrow> framebuf fb_result" where
  "mvlsb_fill_rect x y w h col fb =
    for_each (\<lambda>yy. for_each (\<lambda>k. update_at (yy div 8 * fb_stride fb + x + k)
      (put_bit (yy mod 8) col)) [0..<w]) [y..<y + h] fb"

subsection \<open>RGB565\<close>

definition rgb565_setpixel :: "nat \<Rightarrow> nat \<Rightarrow> color \<Rightarrow> framebuf \<Rightarrow> framebuf fb_result" where
  "rgb565_setpixel x y col fb =
    (if fb_width fb \<le> x \<or> fb_height fb \<le> y then Inl Fb_ValueError
     else let index = u32 (2 * (x + y * fb_stride fb))
          in bind_result (update_at index (\<lambda>_. ucast (drop_bit 8 col)) (log_change index fb))
               (update_at (index + 1) (\<lambda>_. ucast (col AND 0xFF))))"

text \<open>The buffer read as 16-bit words, in the little-endian order of the processor.\<close>

definition rgb565_getpixel :: "framebuf \<Rightarrow> nat \<Rightarrow> nat \<Rightarrow> color fb_result" where
  "rgb565_getpixel fb x y =
    (let i = 2 * u32 (x + y * fb_stride fb)
     in bind_result (read_at fb i) (\<lambda>lo. bind_result (read_at fb (i + 1))
          (\<lambda>hi. Inr (ucast lo OR push_bit 8 (ucast hi)))))"

definition write16 :: "nat \<Rightarrow> color \<Rightarrow> framebuf \<Rightarrow> framebuf fb_result" where
  "write16 i col fb =
    bind_result (update_at (2 * i) (\<lambda>_. ucast col) fb) (update_at (2 * i + 1) (\<lambda>_. ucast (drop_bit 8 col)))"

definition rgb565_fill_rect :: "nat \<Rightarrow> nat \<Rightarrow> nat \<Rightarrow> nat \<Rightarrow> color \<Rightarrow> framebuf \<Rightarrow> framebuf fb_result" where
  "rgb565_fill_rect x y w h col fb =
    for_each (\<lambda>r. for_each (\<lambda>k. write16 (x + y * fb_stride fb + r * fb_stride fb + k) col) [0..<w]) [0..<h] fb"

subsection \<open>GS2\_HMSB\<close>

definition gs2_hmsb_setpixel :: "nat \<Rightarrow> nat \<Rightarrow> color \<Rightarrow> framebuf \<Rightarrow> framebuf fb_result" where
  "gs2_hmsb_setpixel x y col fb =
    (if fb_width fb \<le> x \<or> fb_height fb \<le> y then Inl Fb_ValueError
     else let index = u32 (x div 4 + y * fb_stride fb);
              shift = 6 - 2 * (x mod 4)
          in update_at index (\<lambda>b. (b AND NOT (push_bit shift 3)) OR push_bit shift (ucast (col AND 3)))
               (log_change index fb))"

definition gs2_hmsb_getpixel :: "framebuf \<Rightarrow> nat \<Rightarrow> nat \<Rightarrow> color fb_result" where
  "gs2_hmsb_getpixel fb x y =
    bind_result (read_at fb (u32 (x + y * fb_stride fb) div 4))
      (\<lambda>b. Inr (ucast (drop_bit (2 * (x mod 4)) b AND 3)))"

definition gs2_hmsb_fill_rect :: "nat \<Rightarrow> nat \<Rightarrow> nat \<Rightarrow> nat \<Rightarrow> color \<Rightarrow> framebuf \<Rightarrow> framebuf fb_result" where
  "gs2_hmsb_fill_rect x y w h col fb =
    for_each (\<lambda>xx. for_each (\<lambda>yy. gs2_hmsb_setpixel xx yy col) [y..<y + h]) [x..<x + w] fb"

subsection \<open>GS4\_HMSB\<close>

definition gs4_put :: "nat \<Rightarrow> color \<Rightarrow> byte \<Rightarrow> byte" where
  "gs4_put x col b =
    (if odd x then (ucast col AND 0x0F) OR (b AND 0xF0) else push_bit 4 (ucast col) OR (b AND 0x0F))"

definition gs4_hmsb_setpixel :: "nat \<Rightarrow> nat \<Rightarrow> color \<Rightarrow> framebuf \<Rightarrow> framebuf fb_result" where
  "gs4_hmsb_setpixel x y col fb =
    (let index = u32 (x + y * fb_stride fb) div 2
     in update_at index (gs4_put x col) (log_change index fb))"

definition gs4_hmsb_getpixel :: "framebuf \<Rightarrow> nat \<Rightarrow> nat \<Rightarrow> color fb_result" where
  "gs4_hmsb_getpixel fb x y =
    bind_result (read_at fb (u32 (x + y * fb_stride fb) div 2))
      (\<lambda>b. Inr (ucast (if odd x then b AND 0x0F else drop_bit 4 b)))"

text \<open>One row; the result is the pointer where it ends.\<close>

definition gs4_fill_row :: "bool \<Rightarrow> nat \<Rightarrow> color \<Rightarrow> nat \<times> framebuf \<Rightarrow> (nat \<times> framebuf) fb_result" where
  "gs4_fill_row odd_x w col st =
    (let p0 = fst st; fb0 = snd st;
         c = ucast (col AND 0x0F) :: byte;
         first = odd_x \<and> w > 0;
         ww = (if first then w - 1 else w);
         p1 = (if first then p0 + 1 else p0);
         p2 = p1 + ww div 2
     in bind_result (if first then update_at p0 (\<lambda>b. (b AND 0xF0) OR c) fb0 else Inr fb0)
          (\<lambda>fb1. bind_result (for_each (\<lambda>i. update_at (p1 + i) (\<lambda>_. push_bit 4 c OR c)) [0..<ww div 2] fb1)
             (\<lambda>fb2. if odd ww
                     then bind_result (update_at p2 (\<lambda>b. push_bit 4 c OR (b AND 0x0F)) fb2)
                       (\<lambda>fb3. Inr (if odd_x then p2 else p2 + 1, fb3))
                     else Inr (p2, fb2))))"

definition gs4_hmsb_fill_rect :: "nat \<Rightarrow> nat \<Rightarrow> nat \<Rightarrow> nat \<Rightarrow> color \<Rightarrow> framebuf \<Rightarrow> framebuf fb_result" where
  "gs4_hmsb_fill_rect x y w h col fb =
    bind_result
      (for_each (\<lambda>_ st. bind_result (gs4_fill_row (odd x) w col st)
          (\<lambda>st'. Inr (fst st' + (fb_stride fb - w) div 2, snd st'))) [0..<h]
        (u32 (x + y * fb_stride fb) div 2, fb))
      (\<lambda>st. Inr (snd st))"

subsection \<open>GS8\<close>

definition gs8_setpixel :: "nat \<Rightarrow> nat \<Rightarrow> color \<Rightarrow> framebuf \<Rightarrow> framebuf fb_result" where
  "gs8_setpixel x y col fb =
    (if fb_width fb \<le> x \<or> fb_height fb \<le> y then Inl Fb_ValueError
     else let index = u32 (x + y * fb_stride fb)
          in update_at index (\<lambda>_. ucast col) (log_change index fb))"

definition gs8_getpixel :: "framebuf \<Rightarrow> nat \<Rightarrow> nat \<Rightarrow> color fb_result" where
  "gs8_getpixel fb x y =
    bind_result (read_at fb (u32 (x + y * fb_stride fb))) (\<lambda>b. Inr (ucast b))"

definition gs8_fill_rect :: "nat \<Rightarrow> nat \<Rightarrow> nat \<Rightarrow> nat \<Rightarrow> color \<Rightarrow> framebuf \<Rightarrow> framebuf fb_result" where
  "gs8_fill_rect x y w h col fb =
    for_each (\<lambda>r. for_each (\<lambda>k. update_at (x + y * fb_stride fb + r * fb_stride fb + k) (\<lambda>_. ucast col))
      [0..<w]) [0..<h] fb"

subsection \<open>Dispatch on the format\<close>

definition setpixel :: "nat \<Rightarrow> nat \<Rightarrow> color \<Rightarrow> framebuf \<Rightarrow> framebuf fb_result" where
  "setpixel x y col fb =
    (case fb_format fb of
       MVLSB \<Rightarrow> mvlsb_setpixel x y col fb
     | RGB565 \<Rightarrow> rgb565_setpixel x y col fb
     | GS4_HMSB \<Rightarrow> gs4_hmsb_setpixel x y col fb
     | MHLSB \<Rightarrow> mono_horiz_setpixel x y col fb
     | MHMSB \<Rightarrow> mono_horiz_setpixel x y col fb
     | GS2_HMSB \<Rightarrow> gs2_hmsb_setpixel x y col fb
     | GS8 \<Rightarrow> gs8_setpixel x y col fb)"

definition getpixel :: "framebuf \<Rightarrow> nat \<Rightarrow> nat \<Rightarrow> color fb_result" where
  "getpixel fb x y =
    (case fb_format fb of
       MVLSB \<Rightarrow> mvlsb_getpixel fb x y
     | RGB565 \<Rightarrow> rgb565_getpixel fb x y
     | GS4_HMSB \<Rightarrow> gs4_hmsb_getpixel fb x y
     | MHLSB \<Rightarrow> mono_horiz_getpixel fb x y
     | MHMSB \<Rightarrow> mono_horiz_getpixel fb x y
     | GS2_HMSB \<Rightarrow> gs2_hmsb_getpixel fb x y
     | GS8 \<Rightarrow> gs8_getpixel fb x y)"

definition format_fill_rect :: "nat \<Rightarrow> nat \<Rightarrow> nat \<Rightarrow> nat \<Rightarrow> color \<Rightarrow> framebuf \<Rightarrow> framebuf fb_result" where
  "format_fill_rect x y w h col fb =
    (case fb_format fb of
       MVLSB \<Rightarrow> mvlsb_fill_rect x y w h col fb
     | RGB565 \<Rightarrow> rgb565_fill_rect x y w h col fb
     | GS4_HMSB \<Rightarrow> gs4_hmsb_fill_rect x y w h col fb
     | MHLSB \<Rightarrow> mono_horiz_fill_rect x y w h col fb
     | MHMSB \<Rightarrow> mono_horiz_fill_rect x y w h col fb
     | GS2_HMSB \<Rightarrow> gs2_hmsb_fill_rect x y w h col fb
     | GS8 \<Rightarrow> gs8_fill_rect x y w h col fb)"

definition inside :: "framebuf \<Rightarrow> int \<Rightarrow> int \<Rightarrow> bool" where
  "inside fb x y \<longleftrightarrow> 0 \<le> x \<and> x < int (fb_width fb) \<and> 0 \<le> y \<and> y < int (fb_height fb)"

definition setpixel_checked :: "int \<Rightarrow> int \<Rightarrow> color \<Rightarrow> bool \<Rightarrow> framebuf \<Rightarrow> framebuf fb_result" where
  "setpixel_checked x y col visible fb =
    (if visible \<and> inside fb x y then setpixel (nat x) (nat y) col fb else Inr fb)"

text \<open>Clipping of a rectangle to the frame buffer.\<close>

definition fill_rect :: "int \<Rightarrow> int \<Rightarrow> int \<Rightarrow> int \<Rightarrow> color \<Rightarrow> framebuf \<Rightarrow> framebuf fb_result" where
  "fill_rect x y w h col fb =
    (if h < 1 \<or> w < 1 \<or> x + w \<le> 0 \<or> y + h \<le> 0 \<or> int (fb_height fb) \<le> y \<or> int (fb_width fb) \<le> x then Inr fb
     else let xend = min (int (fb_width fb)) (x + w);
              yend = min (int (fb_height fb)) (y + h);
              x0 = max x 0;
              y0 = max y 0
          in format_fill_rect (nat x0) (nat y0) (nat (xend - x0)) (nat (yend - y0)) col fb)"

subsection \<open>Construction\<close>

definition round_up :: "nat \<Rightarrow> nat \<Rightarrow> nat" where
  "round_up a n = (n + (a - 1)) div a * a"

text \<open>
  The stride, the bits per pixel, and the rows, strides and columns that the buffer has to
  hold, by format.
\<close>

fun fb_layout :: "fb_format \<Rightarrow> nat \<Rightarrow> nat \<Rightarrow> nat \<Rightarrow> nat \<times> nat \<times> nat \<times> nat \<times> nat" where
  "fb_layout MVLSB width height stride = (stride, 1, round_up 8 height, round_up 8 height - 8, width)"
| "fb_layout MHLSB width height stride = (round_up 8 stride, 1, height, height - 1, round_up 8 width)"
| "fb_layout MHMSB width height stride = (round_up 8 stride, 1, height, height - 1, round_up 8 width)"
| "fb_layout GS2_HMSB width height stride = (round_up 4 stride, 2, height, height - 1, round_up 4 width)"
| "fb_layout GS4_HMSB width height stride = (round_up 2 stride, 4, height, height - 1, round_up 2 width)"
| "fb_layout GS8 width height stride = (stride, 8, height, height - 1, width)"
| "fb_layout RGB565 width height stride = (stride, 16, height, height - 1, width)"

fun format_of_int :: "int \<Rightarrow> fb_format option" where
  "format_of_int f =
    (if f = 0 then Some MVLSB else if f = 1 then Some RGB565 else if f = 2 then Some GS4_HMSB
     else if f = 3 then Some MHLSB else if f = 4 then Some MHMSB else if f = 5 then Some GS2_HMSB
     else if f = 6 then Some GS8 else None)"

definition framebuf_make_new_helper ::
  "byte list \<Rightarrow> int \<Rightarrow> int \<Rightarrow> int \<Rightarrow> int option \<Rightarrow> framebuf fb_result" where
  "framebuf_make_new_helper buffer width height format stride_arg =
    (let stride = (case stride_arg of None \<Rightarrow> width | Some s \<Rightarrow> s)
     in if width < 1 \<or> height < 1 \<or> width > 0xffff \<or> height > 0xffff \<or> stride > 0xffff \<or> stride < width
        then Inl Fb_ValueError
        else case format_of_int format of
            None \<Rightarrow> Inl Fb_ValueError
          | Some f \<Rightarrow>
              (case fb_layout f (nat width) (nat height) (nat stride) of
                 (st, bpp, height_required, strides_required, width_required) \<Rightarrow>
                   let needed = u32 ((strides_required * st
                         + (height_required - strides_required) * width_required) * bpp) div 8
                   in if needed > length buffer then Inl Fb_ValueError
                      else Inr \<lparr>fb_buf = buffer, fb_width = nat width, fb_height = nat height,
                             fb_stride = st, fb_format = f, changed_indexes = [],
                             changed_capacity = length buffer, changed_cleared = False\<rparr>))"

definition legacy_framebuffer1 :: "byte list \<Rightarrow> int \<Rightarrow> int \<Rightarrow> int option \<Rightarrow> framebuf fb_result" where
  "legacy_framebuffer1 buffer width height stride_arg =
    framebuf_make_new_helper buffer width height 0
      (Some (case stride_arg of None \<Rightarrow> width | Some s \<Rightarrow> s))"

definition framebuf_get_changes :: "framebuf \<Rightarrow> nat list" where
  "framebuf_get_changes fb = map unat (changed_indexes fb)"

section \<open>Layout of pixels\<close>

text \<open>
  Five of the formats store a pixel in a field of bits of one byte.  A field of \<open>n\<close> bits
  at position \<open>s\<close> of a byte:
\<close>

definition cell_get :: "nat \<Rightarrow> nat \<Rightarrow> byte \<Rightarrow> byte" where
  "cell_get s n b = take_bit n (drop_bit s b)"

definition cell_put :: "nat \<Rightarrow> nat \<Rightarrow> byte \<Rightarrow> byte \<Rightarrow> byte" where
  "cell_put s n v b = (b AND NOT (push_bit s (mask n))) OR push_bit s (take_bit n v)"

lemma bit_cell_put:
  "bit (cell_put s n v b) i \<longleftrightarrow> i < 8 \<and> (if s \<le> i \<and> i < s + n then bit v (i - s) else bit b i)"
  by (cases "i < 8")
    (auto simp: cell_put_def bit_or_iff bit_and_iff bit_not_iff bit_push_bit_iff bit_mask_iff bit_take_bit_iff
      dest: bit_imp_le_length)

lemma bit_cell_get: "bit (cell_get s n b) i \<longleftrightarrow> i < n \<and> bit b (s + i)"
  by (simp add: cell_get_def bit_take_bit_iff bit_drop_bit_eq)

lemma cell_get_put: "s + n \<le> 8 \<Longrightarrow> cell_get s n (cell_put s n v b) = take_bit n v"
  by (rule bit_word_eqI) (auto simp: bit_cell_get bit_cell_put bit_take_bit_iff)

lemma cell_get_put_other:
  "s + n \<le> t \<or> t + n \<le> s \<Longrightarrow> cell_get s n (cell_put t n v b) = cell_get s n b"
  by (rule bit_word_eqI) (auto simp: bit_cell_get bit_cell_put dest: bit_imp_le_length)

lemma put_bit_cell: "put_bit s col b = cell_put s 1 (of_bool (col \<noteq> 0)) b"
  by (simp add: put_bit_def cell_put_def)

lemma gs4_put_cell: "gs4_put x col b = cell_put (if odd x then 0 else 4) 4 (ucast col) b"
proof -
  have m: "(0x0F :: byte) = mask 4" "(0xF0 :: byte) = push_bit 4 (mask 4)"
    by (simp_all add: mask_eq_exp_minus_1)
  show ?thesis
    unfolding gs4_put_def m
    by (rule bit_word_eqI)
      (auto simp: bit_cell_put bit_or_iff bit_and_iff bit_push_bit_iff bit_mask_iff)
qed

lemma gs8_put_cell: "ucast col = cell_put 0 8 (ucast col) b"
  by (rule bit_word_eqI) (auto simp: bit_cell_put)

definition cell_format :: "fb_format \<Rightarrow> bool" where
  "cell_format f \<longleftrightarrow> f \<in> {MVLSB, MHLSB, MHMSB, GS4_HMSB, GS8}"

definition pix_bits :: "fb_format \<Rightarrow> nat" where
  "pix_bits f = (case f of GS4_HMSB \<Rightarrow> 4 | GS8 \<Rightarrow> 8 | _ \<Rightarrow> 1)"

definition pix_index :: "framebuf \<Rightarrow> nat \<Rightarrow> nat \<Rightarrow> nat" where
  "pix_index fb x y =
    (case fb_format fb of
       MVLSB \<Rightarrow> y div 8 * fb_stride fb + x
     | GS4_HMSB \<Rightarrow> (x + y * fb_stride fb) div 2
     | GS8 \<Rightarrow> x + y * fb_stride fb
     | _ \<Rightarrow> (x + y * fb_stride fb) div 8)"

definition pix_shift :: "framebuf \<Rightarrow> nat \<Rightarrow> nat \<Rightarrow> nat" where
  "pix_shift fb x y =
    (case fb_format fb of
       MVLSB \<Rightarrow> y mod 8
     | GS4_HMSB \<Rightarrow> (if odd x then 0 else 4)
     | GS8 \<Rightarrow> 0
     | _ \<Rightarrow> horiz_offset fb x)"

text \<open>What is left of a colour in a pixel.\<close>

definition pix_value :: "fb_format \<Rightarrow> color \<Rightarrow> byte" where
  "pix_value f col =
    (case f of GS4_HMSB \<Rightarrow> ucast col AND 0x0F | GS8 \<Rightarrow> ucast col | _ \<Rightarrow> of_bool (col \<noteq> 0))"

definition fb_wf :: "framebuf \<Rightarrow> bool" where
  "fb_wf fb \<longleftrightarrow> 1 \<le> fb_width fb \<and> 1 \<le> fb_height fb \<and> fb_width fb \<le> 0xffff \<and> fb_height fb \<le> 0xffff \<and>
     fb_width fb \<le> fb_stride fb \<and> fb_stride fb \<le> 0x10000 \<and>
     (case fb_layout (fb_format fb) (fb_width fb) (fb_height fb) (fb_stride fb) of
        (st, bpp, hr, sr, wr) \<Rightarrow> st = fb_stride fb \<and> (sr * st + (hr - sr) * wr) * bpp div 8 \<le> length (fb_buf fb))"

lemma round_up_ge: "0 < a \<Longrightarrow> n \<le> round_up a n"
proof -
  assume a: "0 < a"
  have "n + (a - 1) < a + a * ((n + (a - 1)) div a)" using a by (rule dividend_less_times_div)
  then show ?thesis using a by (simp add: round_up_def mult.commute)
qed

lemma round_up_mult: "round_up a n = a * ((n + (a - 1)) div a)"
  by (simp add: round_up_def)

lemma round_up_id: "0 < a \<Longrightarrow> round_up a n = n \<longleftrightarrow> a dvd n"
proof
  assume a: "0 < a" "a dvd n"
  then obtain k where k: "n = a * k" by blast
  have "(a * k + (a - 1)) div a = k + (a - 1) div a" using a(1) by (intro div_mult_self4 [symmetric, THEN sym]) simp
  then have "(a * k + (a - 1)) div a = k" using a(1) by simp
  then show "round_up a n = n" by (simp add: round_up_mult k)
qed (metis dvd_triv_left round_up_mult)

lemma pixel_offset_less:
  assumes "fb_wf fb" "x < fb_width fb" "y < fb_height fb"
  shows "x + y * fb_stride fb < 4294967296"
proof -
  have "y * fb_stride fb \<le> 0xfffe * 0x10000"
    using assms by (intro mult_le_mono) (auto simp: fb_wf_def)
  moreover have "x < 0x10000" using assms by (auto simp: fb_wf_def)
  ultimately show ?thesis by simp
qed

lemma u32_pixel:
  assumes "fb_wf fb" "x < fb_width fb" "y < fb_height fb"
  shows "u32 (x + y * fb_stride fb) = x + y * fb_stride fb"
    "u32 (y div 8 * fb_stride fb + x) = y div 8 * fb_stride fb + x"
proof -
  have "y div 8 * fb_stride fb \<le> y * fb_stride fb" by (intro mult_le_mono1) simp
  then have "y div 8 * fb_stride fb + x < 4294967296"
    using pixel_offset_less [OF assms] by linarith
  then show "u32 (x + y * fb_stride fb) = x + y * fb_stride fb"
    "u32 (y div 8 * fb_stride fb + x) = y div 8 * fb_stride fb + x"
    using pixel_offset_less [OF assms] by (simp_all add: u32_id)
qed

text \<open>A row of fields: the stride is a multiple of the number of pixels in a byte.\<close>

lemma row_index:
  assumes "0 < n" "n dvd st"
  shows "(x + y * st) div n = y * (st div n) + x div (n :: nat)"
proof -
  obtain k where k: "st = n * k" using assms(2) by blast
  have "(x + y * st) div n = (x + n * (y * k)) div n" by (simp add: k ac_simps)
  also have "\<dots> = y * k + x div n" using assms(1) by simp
  finally show ?thesis using assms(1) k by simp
qed

lemma row_bound:
  assumes "0 < n" "x < w" "y < (h :: nat)"
  shows "y * s + x div n < (h - 1) * s + (w + (n - 1)) div n"
proof -
  have "y * s \<le> (h - 1) * s" using assms(3) by (intro mult_le_mono1) simp
  moreover have "x div n < (w + (n - 1)) div n"
  proof -
    have "Suc (x div n) = (x + n) div n" using assms(1) by (simp add: div_add_self2)
    also have "\<dots> \<le> (w + (n - 1)) div n" using assms(1,2) by (intro div_le_mono) simp
    finally show ?thesis by simp
  qed
  ultimately show ?thesis by linarith
qed

lemma pix_index_less:
  assumes wf: "fb_wf fb" and f: "cell_format (fb_format fb)" and xy: "x < fb_width fb" "y < fb_height fb"
  shows "pix_index fb x y < length (fb_buf fb)"
proof -
  let ?w = "fb_width fb" and ?h = "fb_height fb" and ?s = "fb_stride fb"
  have h: "1 \<le> ?h" and ws: "?w \<le> ?s" using wf by (auto simp: fb_wf_def)
  have div2: "(?h - Suc 0) * ?s + (?h - (?h - Suc 0)) * k = (?h - 1) * ?s + k" for k using h by simp
  consider "fb_format fb = MVLSB" | "fb_format fb \<in> {MHLSB, MHMSB}" | "fb_format fb = GS4_HMSB"
    | "fb_format fb = GS8" using f by (auto simp: cell_format_def)
  then show ?thesis
  proof cases
    case 1
    let ?q = "(?h + 7) div 8"
    have "8 * ?q - (8 * ?q - 8) = 8" using h by simp
    then have need: "((8 * ?q - 8) * ?s + 8 * ?w) div 8 \<le> length (fb_buf fb)"
      using wf 1 by (simp add: fb_wf_def round_up_mult)
    have "(8 * ?q - 8) * ?s + 8 * ?w = 8 * ((?q - 1) * ?s + ?w)"
      by (simp add: algebra_simps diff_mult_distrib)
    then have need': "(?q - 1) * ?s + ?w \<le> length (fb_buf fb)"
      using need by (simp only: nonzero_mult_div_cancel_left numeral_neq_zero not_False_eq_True)
    have "y div 8 \<le> ?q - 1" using xy by simp
    then have "y div 8 * ?s \<le> (?q - 1) * ?s" by (intro mult_le_mono1)
    then have "y div 8 * ?s + x < length (fb_buf fb)" using need' xy by linarith
    then show ?thesis using 1 by (simp add: pix_index_def)
  next
    case 2
    then have dvd: "8 dvd ?s" and need: "((?h - 1) * ?s + 8 * ((?w + 7) div 8)) div 8 \<le> length (fb_buf fb)"
      using wf h round_up_id [of 8 ?s] by (auto simp: fb_wf_def round_up_mult)
    obtain k where k: "?s = 8 * k" using dvd by blast
    have "(?h - 1) * ?s + 8 * ((?w + 7) div 8) = 8 * ((?h - 1) * k + (?w + 7) div 8)"
      by (simp add: k algebra_simps)
    then have "(?h - 1) * k + (?w + 7) div 8 \<le> length (fb_buf fb)"
      using need by (simp only: nonzero_mult_div_cancel_left numeral_neq_zero not_False_eq_True)
    moreover have "pix_index fb x y = y * k + x div 8"
      using 2 row_index [of 8 ?s x y] dvd k by (auto simp: pix_index_def)
    ultimately show ?thesis using row_bound [of 8 x ?w y ?h k] xy by simp
  next
    case 3
    have one: "?h - (?h - 1) = 1" using h by simp
    have lay: "round_up 2 ?s = ?s \<and>
        ((?h - 1) * round_up 2 ?s + (?h - (?h - 1)) * round_up 2 ?w) * 4 div 8 \<le> length (fb_buf fb)"
      using wf unfolding fb_wf_def 3 fb_layout.simps prod.case by blast
    then have dvd: "2 dvd ?s" using round_up_id [of 2 ?s] by simp
    have need: "((?h - 1) * ?s + 2 * ((?w + 1) div 2)) * 4 div 8 \<le> length (fb_buf fb)"
      using lay [THEN conjunct2]
      unfolding lay [THEN conjunct1] one round_up_mult [of 2 ?w] nat_mult_1 by simp
    obtain k where k: "?s = 2 * k" using dvd by blast
    have "((?h - 1) * ?s + 2 * ((?w + 1) div 2)) * 4 = 8 * ((?h - 1) * k + (?w + 1) div 2)"
      by (simp add: k algebra_simps)
    then have "(?h - 1) * k + (?w + 1) div 2 \<le> length (fb_buf fb)"
      using need by (simp only: nonzero_mult_div_cancel_left numeral_neq_zero not_False_eq_True)
    moreover have "pix_index fb x y = y * k + x div 2"
      using 3 row_index [of 2 ?s x y] dvd k by (simp add: pix_index_def)
    ultimately show ?thesis using row_bound [of 2 x ?w y ?h k] xy by simp
  next
    case 4
    then have need: "((?h - 1) * ?s + ?w) * 8 div 8 \<le> length (fb_buf fb)"
      using wf h by (auto simp: fb_wf_def)
    then show ?thesis using 4 row_bound [of 1 x ?w y ?h ?s] xy by (simp add: pix_index_def add.commute)
  qed
qed

text \<open>Different pixels are in different bytes or in disjoint fields.\<close>

lemma stride_inj:
  fixes s :: nat
  assumes "a * s + x = b * s + y" "x < s" "y < s"
  shows "a = b \<and> x = y"
proof -
  have "(a * s + x) div s = a" "(b * s + y) div s = b" using assms(2,3) by simp_all
  then show ?thesis using assms(1) by auto
qed

lemma pix_disjoint:
  assumes wf: "fb_wf fb" and f: "cell_format (fb_format fb)"
    and "x < fb_width fb" "y < fb_height fb" "x' < fb_width fb" "y' < fb_height fb"
    and ne: "(x, y) \<noteq> (x', y')" and same: "pix_index fb x y = pix_index fb x' y'"
  shows "pix_shift fb x y + pix_bits (fb_format fb) \<le> pix_shift fb x' y' \<or>
    pix_shift fb x' y' + pix_bits (fb_format fb) \<le> pix_shift fb x y"
proof -
  let ?s = "fb_stride fb"
  have xs: "x < ?s" "x' < ?s" using wf assms by (auto simp: fb_wf_def)
  have field: "y = y' \<and> x div n = x' div n" if "n dvd ?s" "0 < n" "(x + y * ?s) div n = (x' + y' * ?s) div n" for n
  proof -
    obtain k where k: "?s = n * k" using \<open>n dvd ?s\<close> by (rule dvdE)
    then have "x div n < k" "x' div n < k"
      using xs \<open>0 < n\<close> by (simp_all add: less_mult_imp_div_less mult.commute)
    moreover have "y * k + x div n = y' * k + x' div n"
      using \<open>0 < n\<close> \<open>n dvd ?s\<close> \<open>(x + y * ?s) div n = (x' + y' * ?s) div n\<close> row_index [of n ?s x y] row_index [of n ?s x' y'] k by simp
    ultimately show ?thesis using stride_inj [of y k "x div n" y' "x' div n"] by simp
  qed
  consider "fb_format fb = MVLSB" | "fb_format fb \<in> {MHLSB, MHMSB}" | "fb_format fb = GS4_HMSB"
    | "fb_format fb = GS8" using f by (auto simp: cell_format_def)
  then show ?thesis
  proof cases
    case 1
    then have "y div 8 = y' div 8" "x = x'"
      using stride_inj [of "y div 8" ?s x "y' div 8" x'] xs same by (simp_all add: pix_index_def)
    then have "y mod 8 \<noteq> y' mod 8" using ne by (metis div_mult_mod_eq)
    then show ?thesis using 1 by (auto simp: pix_shift_def pix_bits_def)
  next
    case 2
    then have "8 dvd ?s" using wf round_up_id [of 8 ?s] by (auto simp: fb_wf_def)
    then have "y = y'" "x div 8 = x' div 8" using field [of 8] same 2 by (auto simp: pix_index_def)
    then have "x mod 8 \<noteq> x' mod 8" using ne by (metis div_mult_mod_eq)
    moreover have "x mod 8 < 8" "x' mod 8 < 8" by simp_all
    ultimately have "horiz_offset fb x \<noteq> horiz_offset fb x'"
      unfolding horiz_offset_def by (auto split: if_splits)
    then show ?thesis using 2 by (auto simp: pix_shift_def pix_bits_def)
  next
    case 3
    then have "2 dvd ?s" using wf round_up_id [of 2 ?s] by (auto simp: fb_wf_def)
    then have "y = y'" "x div 2 = x' div 2" using field [of 2] same 3 by (auto simp: pix_index_def)
    then have "odd x \<noteq> odd x'" using ne by (metis div_mult_mod_eq mod2_eq_if)
    then show ?thesis using 3 by (auto simp: pix_shift_def pix_bits_def)
  next
    case 4
    then show ?thesis using stride_inj [of y ?s x y' x'] xs same ne by (simp add: pix_index_def add.commute)
  qed
qed

section \<open>Pixels\<close>

text \<open>The frame buffer after a pixel has been written and logged.\<close>

definition put_pixel :: "nat \<Rightarrow> nat \<Rightarrow> color \<Rightarrow> framebuf \<Rightarrow> framebuf" where
  "put_pixel x y col fb =
    (let i = pix_index fb x y
     in fb\<lparr>fb_buf := (fb_buf fb)[i := cell_put (pix_shift fb x y) (pix_bits (fb_format fb))
            (pix_value (fb_format fb) col) (fb_buf fb ! i)]\<rparr>)"

lemma log_change_fields [simp]:
  "fb_buf (log_change i fb) = fb_buf fb" "fb_width (log_change i fb) = fb_width fb"
  "fb_height (log_change i fb) = fb_height fb" "fb_stride (log_change i fb) = fb_stride fb"
  "fb_format (log_change i fb) = fb_format fb" "changed_capacity (log_change i fb) = changed_capacity fb"
  "changed_cleared (log_change i fb)"
  by (simp_all add: log_change_def begin_frame_def Let_def)

lemma put_pixel_fields [simp]:
  "length (fb_buf (put_pixel x y col fb)) = length (fb_buf fb)" "fb_width (put_pixel x y col fb) = fb_width fb"
  "fb_height (put_pixel x y col fb) = fb_height fb" "fb_stride (put_pixel x y col fb) = fb_stride fb"
  "fb_format (put_pixel x y col fb) = fb_format fb"
  "changed_indexes (put_pixel x y col fb) = changed_indexes fb"
  "changed_capacity (put_pixel x y col fb) = changed_capacity fb"
  "changed_cleared (put_pixel x y col fb) = changed_cleared fb"
  by (simp_all add: put_pixel_def Let_def)

lemma layout_cong:
  "fb_width a = fb_width b \<Longrightarrow> fb_height a = fb_height b \<Longrightarrow> fb_stride a = fb_stride b \<Longrightarrow>
   fb_format a = fb_format b \<Longrightarrow> pix_index a = pix_index b \<and> pix_shift a = pix_shift b"
  "fb_width a = fb_width b \<Longrightarrow> fb_height a = fb_height b \<Longrightarrow> fb_stride a = fb_stride b \<Longrightarrow>
   fb_format a = fb_format b \<Longrightarrow> length (fb_buf a) = length (fb_buf b) \<Longrightarrow> fb_wf a = fb_wf b"
  by (auto simp: pix_index_def pix_shift_def horiz_offset_def fb_wf_def fun_eq_iff split: fb_format.splits)

lemma layout_log [simp]:
  "pix_index (log_change i fb) = pix_index fb" "pix_shift (log_change i fb) = pix_shift fb"
  "fb_wf (log_change i fb) = fb_wf fb"
  using layout_cong [of "log_change i fb" fb] by simp_all

lemma layout_put [simp]:
  "pix_index (put_pixel x y col fb) = pix_index fb" "pix_shift (put_pixel x y col fb) = pix_shift fb"
  "fb_wf (put_pixel x y col fb) = fb_wf fb"
  using layout_cong [of "put_pixel x y col fb" fb] by simp_all

lemma and_low_nibble: "(v :: byte) AND 0x0F = take_bit 4 v"
  by (simp add: take_bit_eq_mask mask_eq_exp_minus_1)

lemma pix_value_byte: "cell_put s 4 (ucast col) b = cell_put s 4 (ucast col AND 0x0F) b"
  by (simp add: cell_put_def and_low_nibble)

lemma setpixel_ok:
  assumes wf: "fb_wf fb" "cell_format (fb_format fb)" and xy: "x < fb_width fb" "y < fb_height fb"
  shows "setpixel x y col fb = Inr (put_pixel x y col (log_change (pix_index fb x y) fb))"
proof -
  note i = pix_index_less [OF assms]
  have gs8: "(\<lambda>_. ucast col) = cell_put 0 8 (ucast col)" using gs8_put_cell by blast
  have gs4: "gs4_put x col = cell_put (if odd x then 0 else 4) 4 (ucast col AND 0x0F)"
    using gs4_put_cell pix_value_byte by fastforce
  have bit: "put_bit s col = cell_put s 1 (of_bool (col \<noteq> 0))" for s using put_bit_cell by blast
  have u: "u32 (x + y * fb_stride fb) = x + y * fb_stride fb"
    "u32 (y div 8 * fb_stride fb + x) = y div 8 * fb_stride fb + x"
    by (fact u32_pixel [OF wf(1) xy])+
  let ?p = "cell_put (pix_shift fb x y) (pix_bits (fb_format fb)) (pix_value (fb_format fb) col)"
  have not_out: "\<not> (fb_width fb \<le> x \<or> fb_height fb \<le> y)" using xy by simp
  consider "fb_format fb = MVLSB" | "fb_format fb = MHLSB" | "fb_format fb = MHMSB"
    | "fb_format fb = GS4_HMSB" | "fb_format fb = GS8" using wf(2) by (auto simp: cell_format_def)
  then have "setpixel x y col fb = update_at (pix_index fb x y) ?p (log_change (pix_index fb x y) fb)"
    by cases (simp_all only: setpixel_def mvlsb_setpixel_def mono_horiz_setpixel_def gs4_hmsb_setpixel_def
        gs8_setpixel_def pix_index_def pix_shift_def pix_bits_def pix_value_def fb_format.case not_out if_False
        Let_def u gs8 gs4 bit)
  then show ?thesis using i by (simp only: update_at_def log_change_fields if_True put_pixel_def layout_log Let_def)
qed

lemma getpixel_ok:
  assumes wf: "fb_wf fb" "cell_format (fb_format fb)" and xy: "x < fb_width fb" "y < fb_height fb"
  shows "getpixel fb x y =
    Inr (ucast (cell_get (pix_shift fb x y) (pix_bits (fb_format fb)) (fb_buf fb ! pix_index fb x y)))"
proof -
  note i = pix_index_less [OF assms]
  have u: "u32 (x + y * fb_stride fb) = x + y * fb_stride fb"
    "u32 (y div 8 * fb_stride fb + x) = y div 8 * fb_stride fb + x"
    by (fact u32_pixel [OF wf(1) xy])+
  have bit: "drop_bit s b AND 1 = cell_get s 1 b" for s and b :: byte
    by (simp add: cell_get_def take_bit_eq_mask)
  have hi: "drop_bit 4 b = cell_get 4 4 b" for b :: byte
    by (rule bit_word_eqI) (auto simp: bit_cell_get bit_drop_bit_eq dest: bit_imp_le_length)
  have lo: "b AND 0x0F = cell_get 0 4 b" for b :: byte
    by (simp add: cell_get_def and_low_nibble)
  have all: "b = cell_get 0 8 b" for b :: byte
    by (rule bit_word_eqI) (auto simp: bit_cell_get)
  show ?thesis
    using i wf(2) xy u all unfolding cell_format_def
    by (auto simp: getpixel_def mvlsb_getpixel_def mono_horiz_getpixel_def gs4_hmsb_getpixel_def gs8_getpixel_def
        read_at_def Let_def pix_index_def pix_shift_def pix_bits_def bit hi lo horiz_offset_def)
qed

text \<open>Reading depends on the bytes and the layout alone.\<close>

lemma getpixel_cong:
  assumes "fb_buf a = fb_buf b" "fb_stride a = fb_stride b" "fb_format a = fb_format b"
  shows "getpixel a = getpixel b"
  by (rule ext)+ (simp only: getpixel_def mvlsb_getpixel_def rgb565_getpixel_def gs4_hmsb_getpixel_def
      mono_horiz_getpixel_def gs2_hmsb_getpixel_def gs8_getpixel_def read_at_def horiz_offset_def assms)

lemma cell_fits: "cell_format (fb_format fb) \<Longrightarrow> pix_shift fb x y + pix_bits (fb_format fb) \<le> 8"
proof -
  have "x mod 8 < 8" "y mod 8 < 8" by simp_all
  then show "cell_format (fb_format fb) \<Longrightarrow> ?thesis"
    by (auto simp: cell_format_def pix_shift_def pix_bits_def horiz_offset_def)
qed

lemma pix_value_fits: "cell_format f \<Longrightarrow> take_bit (pix_bits f) (pix_value f col) = pix_value f col"
  by (auto simp: cell_format_def pix_value_def pix_bits_def and_low_nibble take_bit_word_eq_self)

lemma get_put_pixel:
  assumes wf: "fb_wf fb" "cell_format (fb_format fb)" and xy: "x < fb_width fb" "y < fb_height fb"
    and xy': "x' < fb_width fb" "y' < fb_height fb"
  shows "getpixel (put_pixel x y col fb) x' y' =
    (if (x', y') = (x, y) then Inr (ucast (pix_value (fb_format fb) col)) else getpixel fb x' y')"
proof -
  let ?f = "fb_format fb"
  have get: "getpixel (put_pixel x y col fb) x' y' =
      Inr (ucast (cell_get (pix_shift fb x' y') (pix_bits ?f) (fb_buf (put_pixel x y col fb) ! pix_index fb x' y')))"
    using getpixel_ok [of "put_pixel x y col fb" x' y'] wf xy' by simp
  have i: "pix_index fb x y < length (fb_buf fb)" by (rule pix_index_less [OF wf xy])
  show ?thesis
  proof (cases "(x', y') = (x, y)")
    case True
    then show ?thesis
      using get i cell_get_put [OF cell_fits [OF wf(2), of x y]] pix_value_fits [OF wf(2)]
      by (simp add: put_pixel_def Let_def)
  next
    case False
    have "cell_get (pix_shift fb x' y') (pix_bits ?f) (fb_buf (put_pixel x y col fb) ! pix_index fb x' y') =
        cell_get (pix_shift fb x' y') (pix_bits ?f) (fb_buf fb ! pix_index fb x' y')"
    proof (cases "pix_index fb x y = pix_index fb x' y'")
      case True
      then show ?thesis
        using cell_get_put_other [OF pix_disjoint [OF wf xy' xy]] False i by (simp add: put_pixel_def Let_def)
    qed (simp add: put_pixel_def Let_def)
    then show ?thesis using get getpixel_ok [OF wf xy'] False by auto
  qed
qed

lemma for_each_append: "for_each f (xs @ ys) s = bind_result (for_each f xs s) (for_each f ys)"
proof (induction xs arbitrary: s)
  case (Cons x xs)
  then show ?case by (cases "f x s") auto
qed simp

lemma for_each_nested:
  "for_each (\<lambda>i. for_each (f i) js) is s = for_each (\<lambda>(i, j). f i j) (List.product is js) s"
proof (induction "is" arbitrary: s)
  case (Cons i "is")
  have "for_each (\<lambda>(i, j). f i j) (map (Pair i) js) s = for_each (f i) js s" for s
    by (induction js arbitrary: s) (auto intro!: arg_cong [of _ _ "bind_result _"])
  then show ?case using Cons by (simp add: for_each_append) (cases "for_each (f i) js s"; simp)
qed simp

lemma for_each_map: "for_each f (map g xs) s = for_each (\<lambda>x. f (g x)) xs s"
  by (induction xs arbitrary: s) (auto intro!: arg_cong [of _ _ "bind_result _"])

section \<open>A canvas\<close>

text \<open>
  What drawing relies on: writing a pixel inside the canvas succeeds, stores the colour that
  the format can hold, and changes no other pixel.
\<close>

locale canvas =
  fixes w h :: nat and ok :: "'s \<Rightarrow> bool" and put :: "nat \<Rightarrow> nat \<Rightarrow> 'c \<Rightarrow> 's \<Rightarrow> 'e + 's"
    and get :: "'s \<Rightarrow> nat \<Rightarrow> nat \<Rightarrow> 'v" and norm :: "'c \<Rightarrow> 'v"
  assumes put_ok: "ok s \<Longrightarrow> x < w \<Longrightarrow> y < h \<Longrightarrow> \<exists>s'. put x y c s = Inr s' \<and> ok s' \<and>
    (\<forall>x'<w. \<forall>y'<h. get s' x' y' = (if x' = x \<and> y' = y then norm c else get s x' y'))"
begin

lemma put_list:
  assumes "ok s" "\<forall>(x, y)\<in>set ps. x < w \<and> y < h"
  shows "\<exists>s'. for_each (\<lambda>(x, y). put x y c) ps s = Inr s' \<and> ok s' \<and>
    (\<forall>x'<w. \<forall>y'<h. get s' x' y' = (if (x', y') \<in> set ps then norm c else get s x' y'))"
  using assms
proof (induction ps arbitrary: s)
  case (Cons p ps)
  obtain x y where p: "p = (x, y)" by (cases p)
  obtain s1 where s1: "put x y c s = Inr s1" "ok s1"
    "\<forall>x'<w. \<forall>y'<h. get s1 x' y' = (if x' = x \<and> y' = y then norm c else get s x' y')"
    using put_ok [of s x y c] Cons.prems p by auto
  obtain s2 where "for_each (\<lambda>(x, y). put x y c) ps s1 = Inr s2" "ok s2"
    "\<forall>x'<w. \<forall>y'<h. get s2 x' y' = (if (x', y') \<in> set ps then norm c else get s1 x' y')"
    using Cons.IH [OF s1(2)] Cons.prems by auto
  then show ?case using s1 p by auto
qed simp

text \<open>A nested loop whose body writes one pixel.\<close>

lemma put_nested:
  assumes "ok s" and ok: "\<And>a b s. ok s \<Longrightarrow> a \<in> set is \<Longrightarrow> b \<in> set js \<Longrightarrow>
    f a b s = put (gx a b) (gy a b) c s \<and> gx a b < w \<and> gy a b < h"
  shows "\<exists>s'. for_each (\<lambda>a. for_each (f a) js) is s = Inr s' \<and> ok s' \<and>
    (\<forall>x'<w. \<forall>y'<h. get s' x' y' =
      (if \<exists>a\<in>set is. \<exists>b\<in>set js. x' = gx a b \<and> y' = gy a b then norm c else get s x' y'))"
proof -
  let ?ps = "List.product is js" and ?g = "\<lambda>(a, b). (gx a b, gy a b)"
  have cells: "\<forall>(x, y)\<in>set (map ?g ?ps). x < w \<and> y < h" using ok [OF assms(1)] by auto
  have "for_each (\<lambda>p. put (fst (?g p)) (snd (?g p)) c) qs t = for_each (\<lambda>(a, b). f a b) qs t"
    if "ok t" "set qs \<subseteq> set is \<times> set js" for qs t
    using that
  proof (induction qs arbitrary: t)
    case (Cons q qs)
    obtain a b where q: "q = (a, b)" by (cases q)
    then have f: "f a b t = put (gx a b) (gy a b) c t" "gx a b < w" "gy a b < h"
      using ok [OF Cons.prems(1), of a b] Cons.prems(2) by auto
    obtain t' where t': "put (gx a b) (gy a b) c t = Inr t'" "ok t'"
      using put_ok [OF Cons.prems(1) f(2,3), of c] by blast
    then show ?case using Cons.IH [OF t'(2)] Cons.prems(2) q f(1) by simp
  qed simp
  then have "for_each (\<lambda>a. for_each (f a) js) is s = for_each (\<lambda>(x, y). put x y c) (map ?g ?ps) s"
    using assms(1) by (simp add: for_each_nested for_each_map split_beta)
  moreover have "(x', y') \<in> set (map ?g ?ps) \<longleftrightarrow> (\<exists>a\<in>set is. \<exists>b\<in>set js. x' = gx a b \<and> y' = gy a b)" for x' y'
    by auto
  ultimately show ?thesis using put_list [OF assms(1) cells, of c] by simp
qed

end

definition is_canvas :: "nat \<Rightarrow> nat \<Rightarrow> nat \<Rightarrow> nat \<Rightarrow> fb_format \<Rightarrow> framebuf \<Rightarrow> bool" where
  "is_canvas n w h st f fb \<longleftrightarrow> length (fb_buf fb) = n \<and> fb_wf fb \<and> cell_format f \<and> fb_width fb = w \<and> fb_height fb = h \<and>
     fb_stride fb = st \<and> fb_format fb = f"

text \<open>The write of a rectangle fill, which is not logged.\<close>

definition write_pixel :: "nat \<Rightarrow> nat \<Rightarrow> color \<Rightarrow> framebuf \<Rightarrow> framebuf fb_result" where
  "write_pixel x y col fb = update_at (pix_index fb x y)
     (cell_put (pix_shift fb x y) (pix_bits (fb_format fb)) (pix_value (fb_format fb) col)) fb"

lemma write_pixel_ok:
  assumes "fb_wf fb" "cell_format (fb_format fb)" "x < fb_width fb" "y < fb_height fb"
  shows "write_pixel x y col fb = Inr (put_pixel x y col fb)"
  using pix_index_less [OF assms] by (simp add: write_pixel_def update_at_def put_pixel_def Let_def)

interpretation px: canvas w h "is_canvas n w h st f" setpixel "getpixel" "\<lambda>c. Inr (ucast (pix_value f c))" for n w h st f
proof
  fix fb x y c
  assume fb: "is_canvas n w h st f fb" and xy: "x < w" "y < h"
  then have wf: "fb_wf fb" "cell_format (fb_format fb)" "x < fb_width fb" "y < fb_height fb"
    by (auto simp: is_canvas_def)
  let ?fb = "log_change (pix_index fb x y) fb"
  have get: "getpixel ?fb = getpixel fb" by (rule getpixel_cong) simp_all
  show "\<exists>s'. setpixel x y c fb = Inr s' \<and> is_canvas n w h st f s' \<and> (\<forall>x'<w. \<forall>y'<h.
      getpixel s' x' y' = (if x' = x \<and> y' = y then Inr (ucast (pix_value f c)) else getpixel fb x' y'))"
    using setpixel_ok [OF wf, of c] get_put_pixel [of ?fb x y _ _ c] wf fb get by (simp add: is_canvas_def)
qed

interpretation raw: canvas w h "is_canvas n w h st f" write_pixel "getpixel" "\<lambda>c. Inr (ucast (pix_value f c))" for n w h st f
proof
  fix fb x y c
  assume fb: "is_canvas n w h st f fb" and xy: "x < w" "y < h"
  then have wf: "fb_wf fb" "cell_format (fb_format fb)" "x < fb_width fb" "y < fb_height fb"
    by (auto simp: is_canvas_def)
  show "\<exists>s'. write_pixel x y c fb = Inr s' \<and> is_canvas n w h st f s' \<and> (\<forall>x'<w. \<forall>y'<h.
      getpixel s' x' y' = (if x' = x \<and> y' = y then Inr (ucast (pix_value f c)) else getpixel fb x' y'))"
    using write_pixel_ok [OF wf] get_put_pixel [OF wf] fb by (auto simp: is_canvas_def)
qed

section \<open>Filling a rectangle\<close>

text \<open>
  \<open>paints S col fb r\<close>: the operation succeeds with \<open>r\<close>, keeps the layout, gives every
  pixel of \<open>S\<close> inside the frame buffer the colour and leaves every other pixel as it was.
\<close>

definition paints :: "(int \<times> int) set \<Rightarrow> color \<Rightarrow> framebuf \<Rightarrow> framebuf fb_result \<Rightarrow> bool" where
  "paints S col fb r \<longleftrightarrow> (\<exists>fb'. r = Inr fb' \<and>
     is_canvas (length (fb_buf fb)) (fb_width fb) (fb_height fb) (fb_stride fb) (fb_format fb) fb' \<and>
     (\<forall>x<fb_width fb. \<forall>y<fb_height fb. getpixel fb' x y =
       (if (int x, int y) \<in> S then Inr (ucast (pix_value (fb_format fb) col)) else getpixel fb x y)))"

definition drawable :: "framebuf \<Rightarrow> bool" where
  "drawable fb \<longleftrightarrow> fb_wf fb \<and> cell_format (fb_format fb)"

lemma drawable_canvas:
  "drawable fb \<longleftrightarrow> is_canvas (length (fb_buf fb)) (fb_width fb) (fb_height fb) (fb_stride fb) (fb_format fb) fb"
  by (simp add: drawable_def is_canvas_def)

definition rect_points :: "int \<Rightarrow> int \<Rightarrow> int \<Rightarrow> int \<Rightarrow> (int \<times> int) set" where
  "rect_points x y w h = {x..<x + w} \<times> {y..<y + h}"

lemma nat_rect:
  "(\<exists>a\<in>set [y..<y + h]. \<exists>b\<in>set [0..<w]. x' = x + b \<and> y' = a) \<longleftrightarrow>
     (int x', int y') \<in> rect_points (int x) (int y) (int w) (int h)"
  "(\<exists>a\<in>set [x..<x + w]. \<exists>b\<in>set [0..<h]. x' = a \<and> y' = y + b) \<longleftrightarrow>
     (int x', int y') \<in> rect_points (int x) (int y) (int w) (int h)"
  "(\<exists>a\<in>set [0..<h]. \<exists>b\<in>set [0..<w]. x' = x + b \<and> y' = y + a) \<longleftrightarrow>
     (int x', int y') \<in> rect_points (int x) (int y) (int w) (int h)"
  "(\<exists>a\<in>set [0..<h]. \<exists>b\<in>set [x..<x + w]. x' = b \<and> y' = y + a) \<longleftrightarrow>
     (int x', int y') \<in> rect_points (int x) (int y) (int w) (int h)"
  unfolding rect_points_def by (auto simp: Bex_def) presburger+

lemma fill_paints:
  assumes "drawable fb"
    and "\<And>a b s. is_canvas (length (fb_buf fb)) (fb_width fb) (fb_height fb) (fb_stride fb) (fb_format fb) s \<Longrightarrow>
      a \<in> set is \<Longrightarrow> b \<in> set js \<Longrightarrow>
      f a b s = write_pixel (gx a b) (gy a b) col s \<and> gx a b < fb_width fb \<and> gy a b < fb_height fb"
    and S: "\<And>x y. (\<exists>a\<in>set is. \<exists>b\<in>set js. x = gx a b \<and> y = gy a b) \<longleftrightarrow> (int x, int y) \<in> S"
  shows "paints S col fb (for_each (\<lambda>a. for_each (f a) js) is fb)"
  unfolding paints_def S [symmetric]
  by (rule raw.put_nested [OF assms(1) [unfolded drawable_canvas]]) (rule assms(2))

lemma mvlsb_fill_ok:
  assumes fb: "drawable fb" "fb_format fb = MVLSB" and "x + w \<le> fb_width fb" "y + h \<le> fb_height fb"
  shows "paints (rect_points (int x) (int y) (int w) (int h)) col fb (mvlsb_fill_rect x y w h col fb)"
proof -
  let ?c = "is_canvas (length (fb_buf fb)) (fb_width fb) (fb_height fb) (fb_stride fb) (fb_format fb)"
  have "update_at (yy div 8 * fb_stride fb + x + k) (put_bit (yy mod 8) col) s = write_pixel (x + k) yy col s"
    if "?c s" for yy k s
    using that fb(2) by (simp add: write_pixel_def is_canvas_def pix_index_def pix_shift_def pix_bits_def
        pix_value_def put_bit_cell [abs_def] add.assoc)
  then show ?thesis
    unfolding mvlsb_fill_rect_def
    using assms by (intro fill_paints [OF _ _ nat_rect(1)]) auto
qed

lemma stride_dvd:
  assumes "drawable fb"
  shows "fb_format fb \<in> {MHLSB, MHMSB} \<Longrightarrow> 8 dvd fb_stride fb" "fb_format fb = GS4_HMSB \<Longrightarrow> even (fb_stride fb)"
  using assms round_up_id [of 8 "fb_stride fb"] round_up_id [of 2 "fb_stride fb"]
  by (auto simp: drawable_def fb_wf_def)

lemma mono_horiz_fill_ok:
  assumes fb: "drawable fb" "fb_format fb \<in> {MHLSB, MHMSB}" and "x + w \<le> fb_width fb" "y + h \<le> fb_height fb"
  shows "paints (rect_points (int x) (int y) (int w) (int h)) col fb (mono_horiz_fill_rect x y w h col fb)"
proof -
  let ?c = "is_canvas (length (fb_buf fb)) (fb_width fb) (fb_height fb) (fb_stride fb) (fb_format fb)"
  let ?f = "\<lambda>xx k. update_at (xx div 8 + y * (fb_stride fb div 8) + k * (fb_stride fb div 8))
    (put_bit (horiz_offset fb xx) col)"
  have idx: "xx div 8 + y * (fb_stride fb div 8) + k * (fb_stride fb div 8) = (xx + (y + k) * fb_stride fb) div 8" for xx k
    using row_index [of 8 "fb_stride fb" xx "y + k"] stride_dvd(1) [OF fb] by (simp add: algebra_simps)
  have "?f xx k s = write_pixel xx (y + k) col s" if "?c s" for xx k s
    using that fb(2) unfolding idx
    by (auto simp: write_pixel_def is_canvas_def pix_index_def pix_shift_def pix_bits_def
        pix_value_def put_bit_cell [abs_def] horiz_offset_def)
  then show ?thesis
    unfolding mono_horiz_fill_rect_def Let_def
    using assms by (intro fill_paints [OF _ _ nat_rect(2)]) auto
qed

lemma gs8_fill_ok:
  assumes fb: "drawable fb" "fb_format fb = GS8" and "x + w \<le> fb_width fb" "y + h \<le> fb_height fb"
  shows "paints (rect_points (int x) (int y) (int w) (int h)) col fb (gs8_fill_rect x y w h col fb)"
proof -
  let ?c = "is_canvas (length (fb_buf fb)) (fb_width fb) (fb_height fb) (fb_stride fb) (fb_format fb)"
  let ?f = "\<lambda>r k. update_at (x + y * fb_stride fb + r * fb_stride fb + k) (\<lambda>_. ucast col)"
  have idx: "x + y * fb_stride fb + r * fb_stride fb + k = x + k + (y + r) * fb_stride fb" for r k
    by (simp add: algebra_simps)
  have put: "(\<lambda>_. ucast col) = cell_put 0 8 (ucast col)" using gs8_put_cell by blast
  have "?f r k s = write_pixel (x + k) (y + r) col s" if "?c s" for r k s
    using that fb(2) unfolding idx put
    by (simp add: write_pixel_def is_canvas_def pix_index_def pix_shift_def pix_bits_def pix_value_def)
  then show ?thesis
    unfolding gs8_fill_rect_def
    using assms by (intro fill_paints [OF _ _ nat_rect(3)]) auto
qed

text \<open>
  In \<^verbatim>\<open>GS4_HMSB\<close> a row is a half byte at each end and whole bytes between them, which is
  the same as writing its pixels one by one.
\<close>

abbreviation write_row :: "nat \<Rightarrow> color \<Rightarrow> nat list \<Rightarrow> framebuf \<Rightarrow> framebuf fb_result" where
  "write_row y col \<equiv> for_each (\<lambda>x. write_pixel x y col)"

lemma write_pixel_gs4:
  assumes "fb_format fb = GS4_HMSB" "even (fb_stride fb)"
  shows "write_pixel x y col fb = update_at (x div 2 + y * (fb_stride fb div 2)) (gs4_put x col) fb"
proof -
  have "gs4_put x col = cell_put (if odd x then 0 else 4) 4 (ucast col AND 0x0F)"
    using gs4_put_cell pix_value_byte by fastforce
  then show ?thesis
    using assms row_index [of 2 "fb_stride fb" x y]
    by (simp add: write_pixel_def pix_index_def pix_shift_def pix_bits_def pix_value_def add.commute)
qed

lemma gs4_both:
  "gs4_put (Suc (2 * a)) col (gs4_put (2 * a) col b) = push_bit 4 (ucast (col AND 0x0F)) OR ucast (col AND 0x0F)"
  "gs4_put (Suc (2 * a)) col b = (b AND 0xF0) OR ucast (col AND 0x0F)"
  "gs4_put (2 * a) col b = push_bit 4 (ucast (col AND 0x0F)) OR (b AND 0x0F)"
proof -
  have m: "(0x0F :: byte) = mask 4" "(0xF0 :: byte) = push_bit 4 (mask 4)" "(0x0F :: color) = mask 4"
    by (simp_all add: mask_eq_exp_minus_1)
  show "gs4_put (Suc (2 * a)) col (gs4_put (2 * a) col b) = push_bit 4 (ucast (col AND 0x0F)) OR ucast (col AND 0x0F)"
    "gs4_put (Suc (2 * a)) col b = (b AND 0xF0) OR ucast (col AND 0x0F)"
    "gs4_put (2 * a) col b = push_bit 4 (ucast (col AND 0x0F)) OR (b AND 0x0F)"
    unfolding gs4_put_def m
    by (rule bit_word_eqI; auto simp: bit_or_iff bit_and_iff bit_push_bit_iff bit_mask_iff bit_ucast_iff)+
qed

lemma update_at_twice:
  "bind_result (update_at i f fb) (update_at i g) = update_at i (\<lambda>b. g (f b)) fb"
  by (simp add: update_at_def)

lemma update_at_fields:
  "update_at i f fb = Inr fb' \<Longrightarrow> fb_stride fb' = fb_stride fb \<and> fb_format fb' = fb_format fb"
  by (auto simp: update_at_def split: if_splits)

lemma write_pixel_pair:
  assumes "fb_format fb = GS4_HMSB" "even (fb_stride fb)"
  shows "bind_result (write_pixel (2 * a) y col fb) (write_pixel (Suc (2 * a)) y col) =
    update_at (a + y * (fb_stride fb div 2))
      (\<lambda>_. push_bit 4 (ucast (col AND 0x0F)) OR ucast (col AND 0x0F)) fb"
proof -
  let ?i = "a + y * (fb_stride fb div 2)"
  have "bind_result (write_pixel (2 * a) y col fb) (write_pixel (Suc (2 * a)) y col) =
      bind_result (update_at ?i (gs4_put (2 * a) col) fb) (update_at ?i (gs4_put (Suc (2 * a)) col))"
  proof (cases "update_at ?i (gs4_put (2 * a) col) fb")
    case (Inr fb')
    have "write_pixel (Suc (2 * a)) y col fb' = update_at ?i (gs4_put (Suc (2 * a)) col) fb'"
      using write_pixel_gs4 [of fb' "Suc (2 * a)" y col] update_at_fields [OF Inr] assms by simp
    then show ?thesis using Inr write_pixel_gs4 [OF assms, of "2 * a" y col] by simp
  qed (use write_pixel_gs4 [OF assms, of "2 * a" y col] in simp)
  then show ?thesis by (simp only: update_at_twice gs4_both(1))
qed

lemma write_pairs:
  assumes "fb_format fb = GS4_HMSB" "even (fb_stride fb)"
  shows "for_each (\<lambda>i. update_at (a + y * (fb_stride fb div 2) + i)
      (\<lambda>_. push_bit 4 (ucast (col AND 0x0F)) OR ucast (col AND 0x0F))) [0..<n] fb =
    write_row y col [2 * a..<2 * a + 2 * n] fb"
  using assms
proof (induction n arbitrary: a fb)
  case (Suc n)
  let ?u = "\<lambda>i. update_at (a + y * (fb_stride fb div 2) + i)
    (\<lambda>_. push_bit 4 (ucast (col AND 0x0F)) OR ucast (col AND 0x0F))"
  have l: "for_each ?u [0..<Suc n] fb = bind_result (?u 0 fb) (for_each (\<lambda>i. ?u (Suc i)) [0..<n])"
    unfolding upt_conv_Cons [OF zero_less_Suc] map_Suc_upt [symmetric] by (simp add: for_each_map [abs_def])
  have "[2 * a..<2 * a + 2 * Suc n] = 2 * a # Suc (2 * a) # [2 * Suc a..<2 * Suc a + 2 * n]"
    by (simp add: upt_conv_Cons)
  then have r: "write_row y col [2 * a..<2 * a + 2 * Suc n] fb =
      bind_result (bind_result (write_pixel (2 * a) y col fb) (write_pixel (Suc (2 * a)) y col))
        (write_row y col [2 * Suc a..<2 * Suc a + 2 * n])"
    by (cases "write_pixel (2 * a) y col fb") auto
  show ?case
  proof (cases "?u 0 fb")
    case (Inr fb')
    then have "for_each (\<lambda>i. ?u (Suc i)) [0..<n] fb' = write_row y col [2 * Suc a..<2 * Suc a + 2 * n] fb'"
      using Suc.IH [of fb' "Suc a"] update_at_fields [OF Inr] Suc.prems by simp
    then show ?thesis using Inr l r write_pixel_pair [OF Suc.prems, of a y col] by simp
  qed (use l r write_pixel_pair [OF Suc.prems, of a y col] in simp)
qed simp

lemma write_row_fields:
  "write_row y col xs fb = Inr fb' \<Longrightarrow> fb_stride fb' = fb_stride fb \<and> fb_format fb' = fb_format fb"
proof (induction xs arbitrary: fb)
  case (Cons x xs)
  then obtain fb1 where "write_pixel x y col fb = Inr fb1" "write_row y col xs fb1 = Inr fb'"
    by (cases "write_pixel x y col fb") auto
  then show ?case using Cons.IH [of fb1] update_at_fields [OF \<open>write_pixel x y col fb = Inr fb1\<close> [unfolded write_pixel_def]] by simp
qed simp

lemma gs4_row_tail:
  fixes col :: color and a y :: nat
  assumes fb: "fb_format fb = GS4_HMSB" "even (fb_stride fb)"
  defines "c \<equiv> ucast (col AND 0x0F) :: byte" and "p \<equiv> a + y * (fb_stride fb div 2)"
  shows "bind_result (for_each (\<lambda>i. update_at (p + i) (\<lambda>_. push_bit 4 c OR c)) [0..<ww div 2] fb)
      (\<lambda>fb2. if odd ww
         then bind_result (update_at (p + ww div 2) (\<lambda>b. push_bit 4 c OR (b AND 0x0F)) fb2) (\<lambda>fb3. Inr (q, fb3))
         else Inr (r, fb2)) =
    bind_result (write_row y col [2 * a..<2 * a + ww] fb) (\<lambda>fb'. Inr (if odd ww then q else r, fb'))"
proof -
  let ?n = "ww div 2"
  have mid: "for_each (\<lambda>i. update_at (p + i) (\<lambda>_. push_bit 4 c OR c)) [0..<?n] fb =
      write_row y col [2 * a..<2 * a + 2 * ?n] fb"
    unfolding p_def c_def by (rule write_pairs [OF fb])
  show ?thesis
  proof (cases "odd ww")
    case False
    then show ?thesis by (simp add: mid)
  next
    case True
    then have "[2 * a..<2 * a + ww] = [2 * a..<2 * a + 2 * ?n] @ [2 * (a + ?n)]"
      by (auto elim!: oddE)
    then have row: "write_row y col [2 * a..<2 * a + ww] fb =
        bind_result (write_row y col [2 * a..<2 * a + 2 * ?n] fb) (write_row y col [2 * (a + ?n)])"
      by (simp only: for_each_append)
    show ?thesis
    proof (cases "write_row y col [2 * a..<2 * a + 2 * ?n] fb")
      case (Inr fb2)
      have f2: "fb_format fb2 = GS4_HMSB" "even (fb_stride fb2)" "fb_stride fb2 = fb_stride fb"
        using write_row_fields [OF Inr] fb by simp_all
      have "gs4_put (2 * (a + ?n)) col = (\<lambda>b. push_bit 4 c OR (b AND 0x0F))"
        unfolding c_def using gs4_both(3) by blast
      then have "write_pixel (2 * (a + ?n)) y col fb2 = update_at (p + ?n) (\<lambda>b. push_bit 4 c OR (b AND 0x0F)) fb2"
        using write_pixel_gs4 [OF f2(1,2), of "2 * (a + ?n)" y col] f2(3) by (simp add: p_def ac_simps)
      then show ?thesis
        using True by (simp only: mid row Inr bind_result.simps for_each.simps if_True)
          (cases "write_pixel (2 * (a + ?n)) y col fb2"; simp)
    qed (use True row mid in simp)
  qed
qed

text \<open>One row, and the pointer at its end plus the rest of the stride is the next row.\<close>

lemma gs4_fill_row_ok:
  assumes fb: "fb_format fb = GS4_HMSB" "even (fb_stride fb)" and w: "1 \<le> w" "w \<le> fb_stride fb"
  shows "bind_result (gs4_fill_row (odd x) w col (x div 2 + y * (fb_stride fb div 2), fb))
      (\<lambda>st. Inr (fst st + (fb_stride fb - w) div 2, snd st)) =
    bind_result (write_row y col [x..<x + w] fb)
      (\<lambda>fb'. Inr (x div 2 + Suc y * (fb_stride fb div 2), fb'))"
proof (cases "odd x")
  case False
  then obtain a where x: "x = 2 * a" by blast
  let ?s = "fb_stride fb" and ?p = "a + y * (fb_stride fb div 2)"
  have ends: "(if odd w then ?p + w div 2 + 1 else ?p + w div 2) + (?s - w) div 2 = a + Suc y * (?s div 2)"
    using fb(2) w by (auto elim!: evenE oddE)
  show ?thesis
    using gs4_row_tail [OF fb, where a = a and ww = w and col = col and y = y
        and q = "?p + w div 2 + 1" and r = "?p + w div 2"] False ends x
    by (cases "write_row y col [2 * a..<2 * a + w] fb") (auto simp: gs4_fill_row_def Let_def x)
next
  case True
  then obtain k where x: "x = Suc (2 * k)" by (auto elim!: oddE)
  obtain m where w': "w = Suc m" using w(1) by (cases w) auto
  let ?s = "fb_stride fb" and ?p = "Suc k + y * (fb_stride fb div 2)"
  let ?first = "update_at (k + y * (?s div 2)) (\<lambda>b. (b AND 0xF0) OR ucast (col AND 0x0F)) fb"
  have ends: "(if odd m then ?p + m div 2 else ?p + m div 2) + (?s - w) div 2 = k + Suc y * (?s div 2)"
    using fb(2) w w' by (auto elim!: evenE oddE)
  have "gs4_put x col = (\<lambda>b. (b AND 0xF0) OR ucast (col AND 0x0F))" unfolding x using gs4_both(2) by blast
  then have first: "write_pixel x y col fb = ?first" using write_pixel_gs4 [OF fb, of x y col] by (simp add: x)
  have row: "write_row y col [x..<x + w] fb = bind_result ?first (write_row y col [2 * Suc k..<2 * Suc k + m])"
  proof -
    have "[x..<x + w] = x # [2 * Suc k..<2 * Suc k + m]"
      using w(1) by (subst upt_conv_Cons) (simp_all add: x w')
    then show ?thesis by (simp only: for_each.simps first)
  qed
  show ?thesis
  proof (cases ?first)
    case (Inr fb1)
    have f1: "fb_format fb1 = GS4_HMSB" "even (fb_stride fb1)" "fb_stride fb1 = ?s"
      using update_at_fields [OF Inr] fb by simp_all
    let ?c = "ucast (col AND 0x0F) :: byte"
    have "gs4_fill_row True w col (k + y * (?s div 2), fb) =
        bind_result (for_each (\<lambda>i. update_at (?p + i) (\<lambda>_. push_bit 4 ?c OR ?c)) [0..<m div 2] fb1)
          (\<lambda>fb2. if odd m
             then bind_result (update_at (?p + m div 2) (\<lambda>b. push_bit 4 ?c OR (b AND 0x0F)) fb2)
               (\<lambda>fb3. Inr (?p + m div 2, fb3))
             else Inr (?p + m div 2, fb2))"
      using Inr by (simp add: gs4_fill_row_def Let_def w' cong: if_cong)
    also have "\<dots> = bind_result (write_row y col [2 * Suc k..<2 * Suc k + m] fb1) (\<lambda>fb'. Inr (?p + m div 2, fb'))"
      using gs4_row_tail [OF f1(1,2), where a = "Suc k" and ww = m and col = col and y = y
          and q = "?p + m div 2" and r = "?p + m div 2"] f1(3) by (simp only: if_cancel)
    finally show ?thesis
      using ends row Inr by (cases "write_row y col [2 * Suc k..<2 * Suc k + m] fb1") (simp_all add: x)
  qed (use row in \<open>auto simp: gs4_fill_row_def Let_def x w'\<close>)
qed

lemma gs4_rows:
  assumes "drawable fb" "fb_format fb = GS4_HMSB" "1 \<le> w" "x + w \<le> fb_width fb" "y + h \<le> fb_height fb"
  shows "for_each (\<lambda>_ st. bind_result (gs4_fill_row (odd x) w col st)
      (\<lambda>st'. Inr (fst st' + (fb_stride fb - w) div 2, snd st'))) [0..<h] (x div 2 + y * (fb_stride fb div 2), fb) =
    bind_result (for_each (\<lambda>r. for_each (\<lambda>xx. write_pixel xx (y + r) col) [x..<x + w]) [0..<h] fb)
      (\<lambda>fb'. Inr (x div 2 + (y + h) * (fb_stride fb div 2), fb'))"
    (is "for_each ?row _ _ = bind_result (for_each ?w _ _) _")
  using assms
proof (induction h)
  case (Suc h)
  let ?p = "\<lambda>y. x div 2 + y * (fb_stride fb div 2)"
  have "paints (rect_points (int x) (int y) (int w) (int h)) col fb (for_each ?w [0..<h] fb)"
    using Suc.prems by (intro fill_paints [OF _ _ nat_rect(4)]) auto
  then obtain fb' where fb': "for_each ?w [0..<h] fb = Inr fb'"
    "is_canvas (length (fb_buf fb)) (fb_width fb) (fb_height fb) (fb_stride fb) (fb_format fb) fb'"
    unfolding paints_def by blast
  have s: "fb_stride fb' = fb_stride fb" "fb_format fb' = GS4_HMSB" "even (fb_stride fb')" "w \<le> fb_stride fb'"
    using fb'(2) Suc.prems stride_dvd(2) [of fb] by (auto simp: is_canvas_def fb_wf_def)
  have "?row h (?p (y + h), fb') =
      bind_result (write_row (y + h) col [x..<x + w] fb') (\<lambda>fb'. Inr (?p (y + Suc h), fb'))"
    using gs4_fill_row_ok [OF s(2,3) Suc.prems(3) s(4), of x col "y + h"] s(1) by simp
  then show ?case
    using Suc fb'(1)
    by (simp add: for_each_append) (cases "write_row (y + h) col [x..<x + w] fb'"; simp)
qed simp

lemma gs4_fill_ok:
  assumes fb: "drawable fb" "fb_format fb = GS4_HMSB"
    and w: "1 \<le> w" "1 \<le> h" "x + w \<le> fb_width fb" "y + h \<le> fb_height fb"
  shows "paints (rect_points (int x) (int y) (int w) (int h)) col fb (gs4_hmsb_fill_rect x y w h col fb)"
proof -
  let ?r = "for_each (\<lambda>r. for_each (\<lambda>xx. write_pixel xx (y + r) col) [x..<x + w]) [0..<h] fb"
  have p: "paints (rect_points (int x) (int y) (int w) (int h)) col fb ?r"
    using assms by (intro fill_paints [OF _ _ nat_rect(4)]) auto
  have "u32 (x + y * fb_stride fb) div 2 = x div 2 + y * (fb_stride fb div 2)"
    using u32_pixel(1) [of fb x y] row_index [of 2 "fb_stride fb" x y] stride_dvd(2) [OF fb] fb w
    by (simp add: drawable_def)
  then have "gs4_hmsb_fill_rect x y w h col fb = bind_result ?r Inr"
    unfolding gs4_hmsb_fill_rect_def using gs4_rows [OF fb w(1,3,4), of col] by (cases ?r) simp_all
  also have "\<dots> = ?r" by (cases ?r) simp_all
  finally show ?thesis using p by simp
qed

lemma format_fill_ok:
  assumes "drawable fb" "1 \<le> w" "1 \<le> h" "x + w \<le> fb_width fb" "y + h \<le> fb_height fb"
  shows "paints (rect_points (int x) (int y) (int w) (int h)) col fb (format_fill_rect x y w h col fb)"
proof -
  consider "fb_format fb = MVLSB" | "fb_format fb \<in> {MHLSB, MHMSB}" | "fb_format fb = GS4_HMSB"
    | "fb_format fb = GS8" using assms(1) by (auto simp: drawable_def cell_format_def)
  then show ?thesis
  proof cases
    case 1
    then show ?thesis using mvlsb_fill_ok [OF assms(1) 1 assms(4,5)] by (simp add: format_fill_rect_def)
  next
    case 2
    then show ?thesis
      using mono_horiz_fill_ok [OF assms(1) 2 assms(4,5)] by (auto simp: format_fill_rect_def)
  next
    case 3
    then show ?thesis using gs4_fill_ok [OF assms(1) 3 assms(2-5)] by (simp add: format_fill_rect_def)
  next
    case 4
    then show ?thesis using gs8_fill_ok [OF assms(1) 4 assms(4,5)] by (simp add: format_fill_rect_def)
  qed
qed

lemma paints_empty: "drawable fb \<Longrightarrow> (\<And>x y. (int x, int y) \<in> S \<Longrightarrow> x < fb_width fb \<Longrightarrow> y < fb_height fb \<Longrightarrow> False) \<Longrightarrow>
    paints S col fb (Inr fb)"
  by (auto simp: paints_def drawable_canvas)

lemma paints_cong:
  assumes "paints S col fb r" "\<And>x y. x < fb_width fb \<Longrightarrow> y < fb_height fb \<Longrightarrow> (int x, int y) \<in> S \<longleftrightarrow> (int x, int y) \<in> T"
  shows "paints T col fb r"
  using assms unfolding paints_def by simp

lemma fill_rect_ok:
  assumes "drawable fb"
  shows "paints (rect_points x y w h) col fb (fill_rect x y w h col fb)"
proof (cases "h < 1 \<or> w < 1 \<or> x + w \<le> 0 \<or> y + h \<le> 0 \<or> int (fb_height fb) \<le> y \<or> int (fb_width fb) \<le> x")
  case True
  then show ?thesis
    using assms by (auto simp: fill_rect_def rect_points_def intro!: paints_empty)
next
  case False
  define xend where "xend = min (int (fb_width fb)) (x + w)"
  define yend where "yend = min (int (fb_height fb)) (y + h)"
  let ?x = "max x 0" and ?y = "max y 0"
  have b: "?x < xend" "?y < yend" "xend \<le> int (fb_width fb)" "yend \<le> int (fb_height fb)"
    using False assms unfolding xend_def yend_def by (auto simp: drawable_def fb_wf_def)
  have "paints (rect_points ?x ?y (xend - ?x) (yend - ?y)) col fb
      (format_fill_rect (nat ?x) (nat ?y) (nat (xend - ?x)) (nat (yend - ?y)) col fb)"
    using format_fill_ok [OF assms, of "nat (xend - ?x)" "nat (yend - ?y)" "nat ?x" "nat ?y" col] b by auto
  then have "paints (rect_points x y w h) col fb
      (format_fill_rect (nat ?x) (nat ?y) (nat (xend - ?x)) (nat (yend - ?y)) col fb)"
    by (rule paints_cong) (auto simp: rect_points_def xend_def yend_def)
  then show ?thesis
    using False unfolding fill_rect_def Let_def xend_def yend_def by (simp only: if_False)
qed

section \<open>Construction and the change log\<close>

definition format_bpp :: "fb_format \<Rightarrow> nat" where
  "format_bpp f = (case f of GS2_HMSB \<Rightarrow> 2 | GS4_HMSB \<Rightarrow> 4 | GS8 \<Rightarrow> 8 | RGB565 \<Rightarrow> 16 | _ \<Rightarrow> 1)"

lemma round_up_mono: "m \<le> n \<Longrightarrow> round_up a m \<le> round_up a n"
  unfolding round_up_def by (intro mult_le_mono1 div_le_mono) simp

lemma round_up_idem: "0 < a \<Longrightarrow> round_up a (round_up a n) = round_up a n"
  by (subst round_up_id) (auto simp: round_up_mult [of a n])

lemma round_up_max: "n \<le> 0xffff \<Longrightarrow> a \<in> {2, 4, 8} \<Longrightarrow> round_up a n \<le> 0x10000"
proof -
  assume "n \<le> 0xffff" "a \<in> {2, 4, 8}"
  then have "round_up a n \<le> round_up a 0xffff" by (intro round_up_mono)
  also have "\<dots> \<le> 0x10000" using \<open>a \<in> _\<close> by (auto simp: round_up_def)
  finally show ?thesis .
qed

text \<open>The size of the buffer fits in a machine word.\<close>

lemma layout_fits:
  assumes "fb_layout f w h s = (st, bpp, hr, sr, wr)" "1 \<le> w" "1 \<le> h" "w \<le> s" "w \<le> 0xffff" "h \<le> 0xffff" "s \<le> 0xffff"
    and small: "f \<in> {MVLSB, MHLSB, MHMSB} \<or> st * h * format_bpp f < 2 ^ 32"
  shows "(sr * st + (hr - sr) * wr) * bpp < 4294967296"
proof (cases "f = MVLSB")
  case True
  then have e: "st = s" "bpp = 1" "hr = round_up 8 h" "sr = round_up 8 h - 8" "wr = w" using assms(1) by auto
  have "8 \<le> round_up 8 h" using assms(3) by (simp add: round_up_def)
  then have "sr * st + (hr - sr) * wr \<le> (round_up 8 h - 8) * s + 8 * s" using e assms(4) by simp
  also have "\<dots> = round_up 8 h * s" using \<open>8 \<le> round_up 8 h\<close> by (simp add: add_mult_distrib [symmetric])
  also have "\<dots> \<le> 0x10000 * 0xffff"
    using round_up_max [of h 8] assms by (intro mult_le_mono) auto
  finally show ?thesis using e by simp
next
  case False
  then have e: "bpp = format_bpp f" "hr = h" "sr = h - 1" "wr \<le> st" "f \<in> {MHLSB, MHMSB} \<Longrightarrow> st \<le> 0x10000 \<and> bpp = 1"
    using assms(1,4) round_up_mono [OF assms(4)] round_up_max [OF assms(7), of 8]
    by (cases f; auto simp: format_bpp_def)+
  have "sr * st + (hr - sr) * wr \<le> (h - 1) * st + 1 * st" using e assms(3) by simp
  also have "\<dots> = st * h" using assms(3) by (cases h) simp_all
  finally have le: "sr * st + (hr - sr) * wr \<le> st * h" .
  show ?thesis
  proof (cases "f \<in> {MHLSB, MHMSB}")
    case True
    have "st * h \<le> 0x10000 * 0xffff" using e(5) [OF True] assms(6) by (intro mult_le_mono) auto
    then show ?thesis using le e(5) [OF True] by simp
  next
    case False
    have "(sr * st + (hr - sr) * wr) * bpp \<le> st * h * bpp" using le by (rule mult_le_mono1)
    moreover have "st * h * bpp < 4294967296" using small False \<open>f \<noteq> MVLSB\<close> e(1) by simp
    ultimately show ?thesis by (rule le_less_trans)
  qed
qed

lemma layout_idem:
  assumes l: "fb_layout f w h s = (st, bpp, hr, sr, wr)" and "s \<le> 0xffff"
  shows "fb_layout f w h st = (st, bpp, hr, sr, wr)" "s \<le> st" "st \<le> 0x10000"
proof -
  have a: "round_up a (round_up a s) = round_up a s \<and> s \<le> round_up a s \<and> round_up a s \<le> 0x10000" if "a \<in> {2, 4, 8}" for a
    using that round_up_idem round_up_ge round_up_max [OF assms(2)] by auto
  note a8 = a [of 8, simplified] and a4 = a [of 4, simplified] and a2 = a [of 2, simplified]
  show "fb_layout f w h st = (st, bpp, hr, sr, wr)"
    using l a8 a4 a2 by (cases f) auto
  show "s \<le> st" "st \<le> 0x10000" using l assms(2) a8 a4 a2 by (cases f; auto)+
qed

lemma make_new_fields:
  assumes "framebuf_make_new_helper buffer width height format stride_arg = Inr fb"
  shows "fb_buf fb = buffer" "changed_indexes fb = []" "changed_capacity fb = length buffer" "\<not> changed_cleared fb"
  using assms unfolding framebuf_make_new_helper_def Let_def
  by (auto split: if_splits option.splits prod.splits)

lemma make_new_wf:
  assumes new: "framebuf_make_new_helper buffer width height format stride_arg = Inr fb"
    and small: "fb_format fb \<in> {MVLSB, MHLSB, MHMSB} \<or>
      fb_stride fb * fb_height fb * format_bpp (fb_format fb) < 2 ^ 32"
  shows "fb_wf fb"
proof -
  define stride where "stride = (case stride_arg of None \<Rightarrow> width | Some s \<Rightarrow> s)"
  have r: "1 \<le> width" "1 \<le> height" "width \<le> 0xffff" "height \<le> 0xffff" "stride \<le> 0xffff" "width \<le> stride"
    using new unfolding framebuf_make_new_helper_def stride_def [symmetric] Let_def by (auto split: if_splits)
  obtain f where f: "format_of_int format = Some f"
    using new r unfolding framebuf_make_new_helper_def stride_def [symmetric] Let_def
    by (auto split: option.splits simp del: format_of_int.simps)
  obtain st bpp hr sr wr where l: "fb_layout f (nat width) (nat height) (nat stride) = (st, bpp, hr, sr, wr)"
    by (metis prod_cases5)
  let ?n = "(sr * st + (hr - sr) * wr) * bpp"
  have len: "u32 ?n div 8 \<le> length buffer" and fb: "fb_buf fb = buffer" "fb_width fb = nat width"
    "fb_height fb = nat height" "fb_stride fb = st" "fb_format fb = f"
    using new r f l unfolding framebuf_make_new_helper_def stride_def [symmetric] Let_def
    by (auto split: if_splits simp del: format_of_int.simps)
  have "?n < 4294967296" using layout_fits [OF l] r small fb by auto
  then have "?n div 8 \<le> length buffer" using len by (simp add: u32_id)
  moreover have "fb_layout f (nat width) (nat height) st = (st, bpp, hr, sr, wr)" "nat width \<le> st" "st \<le> 0x10000"
  proof -
    have n: "nat stride \<le> 0xffff" "nat width \<le> nat stride" using r by simp_all
    show "fb_layout f (nat width) (nat height) st = (st, bpp, hr, sr, wr)" "nat width \<le> st" "st \<le> 0x10000"
      using layout_idem [OF l n(1)] n(2) by simp_all
  qed
  moreover have "1 \<le> nat width" "1 \<le> nat height" "nat width \<le> 0xffff" "nat height \<le> 0xffff"
    using r by (simp_all add: nat_le_iff le_nat_iff)
  ultimately show ?thesis by (simp add: fb_wf_def fb)
qed

text \<open>
  The log covers the bytes that differ from an earlier state, as long as there is room in it
  and the byte indices fit in 16 bits.
\<close>

definition log_covers :: "byte list \<Rightarrow> framebuf \<Rightarrow> bool" where
  "log_covers old fb \<longleftrightarrow> length old = length (fb_buf fb) \<and>
     (\<forall>i<length old. fb_buf fb ! i \<noteq> old ! i \<longrightarrow> i \<in> set (framebuf_get_changes fb))"

lemma get_changes_log:
  assumes "changed_cleared fb" "length (changed_indexes fb) < changed_capacity fb" "i < 2 ^ 16"
  shows "framebuf_get_changes (log_change i fb) = framebuf_get_changes fb @ [i]"
  using assms by (simp add: framebuf_get_changes_def log_change_def begin_frame_def unat_of_nat take_bit_nat_eq_self)

lemma setpixel_logged:
  assumes fb: "drawable fb" "changed_cleared fb" "log_covers old fb" "length (changed_indexes fb) < changed_capacity fb"
    "length (fb_buf fb) \<le> 2 ^ 16" "x < fb_width fb" "y < fb_height fb"
  shows "\<exists>fb'. setpixel x y col fb = Inr fb' \<and> changed_cleared fb' \<and> log_covers old fb' \<and>
    length (changed_indexes fb') = Suc (length (changed_indexes fb)) \<and>
    changed_capacity fb' = changed_capacity fb \<and> length (fb_buf fb') = length (fb_buf fb) \<and>
    is_canvas (length (fb_buf fb)) (fb_width fb) (fb_height fb) (fb_stride fb) (fb_format fb) fb'"
proof -
  let ?i = "pix_index fb x y"
  let ?fb = "put_pixel x y col (log_change ?i fb)"
  have wf: "fb_wf fb" "cell_format (fb_format fb)" using fb(1) by (simp_all add: drawable_def)
  have i: "?i < length (fb_buf fb)" by (rule pix_index_less [OF wf fb(6,7)])
  have ch: "framebuf_get_changes ?fb = framebuf_get_changes fb @ [?i]"
    using get_changes_log [OF fb(2,4), of ?i] i fb(5) by (simp add: framebuf_get_changes_def)
  have "fb_buf ?fb ! j = fb_buf fb ! j" if "j \<noteq> ?i" for j
    using that by (simp add: put_pixel_def Let_def)
  then have "log_covers old ?fb" using fb(3) ch unfolding log_covers_def by auto
  moreover have "length (changed_indexes ?fb) = Suc (length (changed_indexes fb))"
    using arg_cong [OF ch, of length] by (simp add: framebuf_get_changes_def)
  moreover have "is_canvas (length (fb_buf fb)) (fb_width fb) (fb_height fb) (fb_stride fb) (fb_format fb) ?fb"
    using wf by (simp add: is_canvas_def)
  ultimately show ?thesis using setpixel_ok [OF wf fb(6,7)] by simp
qed

lemma setpixels_logged:
  assumes "drawable fb" "changed_cleared fb" "log_covers old fb"
    "length (changed_indexes fb) + length ps \<le> changed_capacity fb" "length (fb_buf fb) \<le> 2 ^ 16"
    "\<forall>(x, y, col)\<in>set ps. x < fb_width fb \<and> y < fb_height fb"
  shows "\<exists>fb'. for_each (\<lambda>(x, y, col). setpixel x y col) ps fb = Inr fb' \<and> log_covers old fb'"
  using assms
proof (induction ps arbitrary: fb)
  case (Cons p ps)
  obtain x y col where p: "p = (x, y, col)" by (metis prod_cases3)
  obtain fb1 where fb1: "setpixel x y col fb = Inr fb1" "changed_cleared fb1" "log_covers old fb1"
    "length (changed_indexes fb1) = Suc (length (changed_indexes fb))" "changed_capacity fb1 = changed_capacity fb"
    "length (fb_buf fb1) = length (fb_buf fb)" "is_canvas (length (fb_buf fb)) (fb_width fb) (fb_height fb) (fb_stride fb) (fb_format fb) fb1"
    using setpixel_logged [OF Cons.prems(1,2,3) _ Cons.prems(5), of x y col] Cons.prems p by auto
  then have "drawable fb1" by (simp add: is_canvas_def drawable_def)
  then show ?case
    using Cons.IH [of fb1] Cons.prems fb1 p by (simp add: is_canvas_def)
qed auto

section \<open>Properties\<close>

text \<open>
  C21. A frame buffer that the constructor accepts, in the formats \<^verbatim>\<open>MVLSB\<close>,
  \<^verbatim>\<open>MHLSB\<close>, \<^verbatim>\<open>MHMSB\<close>, \<^verbatim>\<open>GS4_HMSB\<close> and \<^verbatim>\<open>GS8\<close> and with a size in bits below
  \<^verbatim>\<open>2^32\<close>: writing any pixel inside it succeeds without leaving the buffer, reading the
  pixel gives the colour reduced to the format, and every other pixel is unchanged.
\<close>

theorem framebuf_set_get:
  assumes "framebuf_make_new_helper buffer width height format stride = Inr fb" "cell_format (fb_format fb)"
    "fb_stride fb * fb_height fb * format_bpp (fb_format fb) < 2 ^ 32" "x < fb_width fb" "y < fb_height fb"
  shows "\<exists>fb'. setpixel x y col fb = Inr fb' \<and> fb_wf fb' \<and> (\<forall>x'<fb_width fb. \<forall>y'<fb_height fb.
    getpixel fb' x' y' =
      (if x' = x \<and> y' = y then Inr (ucast (pix_value (fb_format fb) col)) else getpixel fb x' y'))"
proof -
  have "is_canvas (length (fb_buf fb)) (fb_width fb) (fb_height fb) (fb_stride fb) (fb_format fb) fb"
    using make_new_wf [OF assms(1)] assms(2,3) by (simp add: is_canvas_def)
  then show ?thesis using px.put_ok [of _ _ _ _ _ fb x y col] assms(4,5) by (meson is_canvas_def)
qed

definition screen :: framebuf where
  "screen = \<lparr>fb_buf = replicate 16 0, fb_width = 8, fb_height = 16, fb_stride = 8, fb_format = MVLSB,
     changed_indexes = [], changed_capacity = 16, changed_cleared = False\<rparr>"

lemma screen_fields [simp]:
  "fb_width screen = 8" "fb_height screen = 16" "fb_stride screen = 8" "fb_format screen = MVLSB"
  by (simp_all add: screen_def)

lemma screen_new: "framebuf_make_new_helper (replicate 16 0) 8 16 0 None = Inr screen"
  by (simp add: framebuf_make_new_helper_def screen_def round_up_def u32_def)

lemma screen_drawable: "drawable screen"
  using make_new_wf [OF screen_new] by (simp add: drawable_def screen_def cell_format_def)

theorem framebuf_set_get_witness:
  "\<exists>fb'. setpixel 3 9 1 screen = Inr fb' \<and> getpixel fb' 3 9 = Inr 1 \<and> getpixel fb' 3 8 = Inr 0"
proof -
  have "\<exists>fb'. setpixel 3 9 1 screen = Inr fb' \<and> fb_wf fb' \<and> (\<forall>x'<8. \<forall>y'<16. getpixel fb' x' y' =
      (if x' = 3 \<and> y' = 9 then Inr 1 else getpixel screen x' y'))"
    using framebuf_set_get [OF screen_new, of 3 9 1]
    by (simp add: cell_format_def format_bpp_def pix_value_def cong: if_cong)
  moreover have "getpixel screen 3 8 = Inr 0"
    by (simp add: screen_def getpixel_def mvlsb_getpixel_def read_at_def u32_def)
  ultimately show ?thesis by fastforce
qed





section \<open>Where the formats differ from their contract\<close>

text \<open>
  In \<^verbatim>\<open>GS2_HMSB\<close> the pixel write addresses a byte per row of \<open>stride\<close> bytes, while the
  buffer that the constructor asks for, and the read, have four pixels in a byte: a write to
  a pixel inside the frame buffer leaves the buffer, and one that does not is read back from
  other bits.
\<close>

lemma gs2_setpixel_out_of_bounds:
  "\<exists>fb. framebuf_make_new_helper (replicate 4 0) 8 2 5 None = Inr fb \<and> setpixel 0 1 3 fb = Inl Out_Of_Bounds"
  by (simp add: framebuf_make_new_helper_def round_up_def u32_def setpixel_def gs2_hmsb_setpixel_def update_at_def)

lemma gs2_set_get_differ:
  "\<exists>fb fb'. framebuf_make_new_helper [0] 4 1 5 None = Inr fb \<and> setpixel 0 0 3 fb = Inr fb' \<and>
    getpixel fb' 0 0 = Inr 0 \<and> getpixel fb' 3 0 = Inr 3"
  by (simp add: framebuf_make_new_helper_def round_up_def u32_def setpixel_def gs2_hmsb_setpixel_def update_at_def
      getpixel_def gs2_hmsb_getpixel_def read_at_def)

text \<open>In \<^verbatim>\<open>RGB565\<close> the write stores the high byte first and the read takes the low byte first.\<close>

lemma rgb565_set_get_swapped:
  "\<exists>fb fb'. framebuf_make_new_helper [0, 0] 1 1 1 None = Inr fb \<and> setpixel 0 0 0x1234 fb = Inr fb' \<and>
    getpixel fb' 0 0 = Inr 0x3412"
  by (simp add: framebuf_make_new_helper_def u32_def setpixel_def rgb565_setpixel_def update_at_def
      getpixel_def rgb565_getpixel_def read_at_def log_change_def begin_frame_def)

text \<open>The size computation wraps: a frame buffer over an empty buffer is accepted.\<close>

lemma make_new_size_wraps:
  "\<exists>fb. framebuf_make_new_helper [] 16384 16384 1 None = Inr fb \<and> setpixel 0 0 1 fb = Inl Out_Of_Bounds"
  by (simp add: framebuf_make_new_helper_def u32_def setpixel_def rgb565_setpixel_def update_at_def)

text \<open>The log stores 16 bits of an index.\<close>

lemma log_index_truncated:
  "changed_cleared fb \<Longrightarrow> changed_indexes fb = [] \<Longrightarrow> 0 < changed_capacity fb \<Longrightarrow>
    framebuf_get_changes (log_change (65536 + i) fb) = framebuf_get_changes (log_change i fb)"
  by (simp add: log_change_def begin_frame_def framebuf_get_changes_def unat_of_nat take_bit_nat_def
      del: of_nat_add)

end
