(* ===== verification/Framebuf_Draw.thy ===== *)
theory Framebuf_Draw
  imports Framebuf
begin

text \<open>
  Drawing on a frame buffer (\<^verbatim>\<open>extmod/modframebuf.c\<close>): whole and rectangular fills,
  single pixels, horizontal, vertical and general lines, rectangles and ellipses.
  Coordinates are mathematical integers: the model describes calls whose intermediate
  results fit in the machine's \<^verbatim>\<open>mp_int_t\<close>.  A colour argument is the 32 bits of the integer.
\<close>

named_theorems paint \<open>what drawing operations paint\<close>

section \<open>Model\<close>

definition framebuf_fill :: "color \<Rightarrow> framebuf \<Rightarrow> framebuf fb_result" where
  "framebuf_fill col fb =
    (let fb = fb\<lparr>changed_indexes := [], changed_cleared := False\<rparr>
     in format_fill_rect 0 0 (fb_width fb) (fb_height fb) col fb)"

definition framebuf_fill_rect :: "int \<Rightarrow> int \<Rightarrow> int \<Rightarrow> int \<Rightarrow> color \<Rightarrow> framebuf \<Rightarrow> framebuf fb_result" where
  "framebuf_fill_rect x y w h col fb = fill_rect x y w h col fb"

text \<open>Reads the pixel without a colour argument, writes it with one.\<close>

definition framebuf_pixel :: "int \<Rightarrow> int \<Rightarrow> color option \<Rightarrow> framebuf \<Rightarrow> (color option \<times> framebuf) fb_result" where
  "framebuf_pixel x y col fb =
    (if inside fb x y
     then case col of
         None \<Rightarrow> bind_result (getpixel fb (nat x) (nat y)) (\<lambda>c. Inr (Some c, fb))
       | Some c \<Rightarrow> bind_result (setpixel (nat x) (nat y) c fb) (\<lambda>fb'. Inr (None, fb'))
     else Inr (None, fb))"

definition framebuf_hline :: "int \<Rightarrow> int \<Rightarrow> int \<Rightarrow> color \<Rightarrow> framebuf \<Rightarrow> framebuf fb_result" where
  "framebuf_hline x y w col fb = fill_rect x y w 1 col fb"

definition framebuf_vline :: "int \<Rightarrow> int \<Rightarrow> int \<Rightarrow> color \<Rightarrow> framebuf \<Rightarrow> framebuf fb_result" where
  "framebuf_vline x y h col fb = fill_rect x y 1 h col fb"

definition framebuf_rect :: "int \<Rightarrow> int \<Rightarrow> int \<Rightarrow> int \<Rightarrow> color \<Rightarrow> bool \<Rightarrow> framebuf \<Rightarrow> framebuf fb_result" where
  "framebuf_rect x y w h col fill fb =
    (if fill then fill_rect x y w h col fb
     else bind_result (fill_rect x y w 1 col fb)
       (\<lambda>fb. bind_result (fill_rect x (y + h - 1) w 1 col fb)
         (\<lambda>fb. bind_result (fill_rect x y 1 h col fb)
           (\<lambda>fb. fill_rect (x + w - 1) y 1 h col fb))))"

subsection \<open>Lines\<close>

text \<open>The inner loop; it is reached with \<open>dx > 0\<close> only.\<close>

function line_adjust :: "int \<Rightarrow> int \<Rightarrow> int \<Rightarrow> int \<Rightarrow> int \<times> int" where
  "line_adjust sy dx y1 e =
    (if e \<ge> 0 \<and> dx > 0 then line_adjust sy dx (y1 + sy) (e - 2 * dx) else (y1, e))"
  by pat_completeness auto
termination by (relation "measure (\<lambda>(sy, dx, y1, e). nat (e + 1))") auto

declare line_adjust.simps [simp del]

fun line_loop :: "nat \<Rightarrow> bool \<Rightarrow> int \<Rightarrow> int \<Rightarrow> int \<Rightarrow> int \<Rightarrow> color \<Rightarrow> int \<Rightarrow> int \<Rightarrow> int \<Rightarrow> framebuf \<Rightarrow>
    framebuf fb_result" where
  "line_loop 0 steep sx sy dx dy col x1 y1 e fb = Inr fb"
| "line_loop (Suc n) steep sx sy dx dy col x1 y1 e fb =
    bind_result (if steep then setpixel_checked y1 x1 col True fb else setpixel_checked x1 y1 col True fb)
      (\<lambda>fb. case line_adjust sy dx y1 e of
          (y1', e') \<Rightarrow> line_loop n steep sx sy dx dy col (x1 + sx) y1' (e' + 2 * dy) fb)"

definition line :: "int \<Rightarrow> int \<Rightarrow> int \<Rightarrow> int \<Rightarrow> color \<Rightarrow> framebuf \<Rightarrow> framebuf fb_result" where
  "line x1 y1 x2 y2 col fb =
    (let dx0 = x2 - x1;
         (dx, sx) = (if dx0 > 0 then (dx0, 1) else (- dx0, - 1));
         dy0 = y2 - y1;
         (dy, sy) = (if dy0 > 0 then (dy0, 1) else (- dy0, - 1))
     in bind_result
          (if dy > dx then line_loop (nat dy) True sy sx dy dx col y1 x1 (2 * dx - dy) fb
           else line_loop (nat dx) False sx sy dx dy col x1 y1 (2 * dy - dx) fb)
          (setpixel_checked x2 y2 col True))"

definition framebuf_line :: "int \<Rightarrow> int \<Rightarrow> int \<Rightarrow> int \<Rightarrow> color \<Rightarrow> framebuf \<Rightarrow> framebuf fb_result" where
  "framebuf_line x1 y1 x2 y2 col fb = line x1 y1 x2 y2 col fb"

subsection \<open>Ellipses\<close>

definition ELLIPSE_MASK_FILL :: int where "ELLIPSE_MASK_FILL = 0x10"
definition ELLIPSE_MASK_ALL :: int where "ELLIPSE_MASK_ALL = 0x0f"
definition ELLIPSE_MASK_Q1 :: int where "ELLIPSE_MASK_Q1 = 0x01"
definition ELLIPSE_MASK_Q2 :: int where "ELLIPSE_MASK_Q2 = 0x02"
definition ELLIPSE_MASK_Q3 :: int where "ELLIPSE_MASK_Q3 = 0x04"
definition ELLIPSE_MASK_Q4 :: int where "ELLIPSE_MASK_Q4 = 0x08"

definition draw_ellipse_points ::
  "int \<Rightarrow> int \<Rightarrow> int \<Rightarrow> int \<Rightarrow> color \<Rightarrow> int \<Rightarrow> framebuf \<Rightarrow> framebuf fb_result" where
  "draw_ellipse_points cx cy x y col m fb =
    (if m AND ELLIPSE_MASK_FILL \<noteq> 0
     then bind_result (if m AND ELLIPSE_MASK_Q1 \<noteq> 0 then fill_rect cx (cy - y) (x + 1) 1 col fb else Inr fb)
       (\<lambda>fb. bind_result (if m AND ELLIPSE_MASK_Q2 \<noteq> 0 then fill_rect (cx - x) (cy - y) (x + 1) 1 col fb else Inr fb)
       (\<lambda>fb. bind_result (if m AND ELLIPSE_MASK_Q3 \<noteq> 0 then fill_rect (cx - x) (cy + y) (x + 1) 1 col fb else Inr fb)
       (\<lambda>fb. if m AND ELLIPSE_MASK_Q4 \<noteq> 0 then fill_rect cx (cy + y) (x + 1) 1 col fb else Inr fb)))
     else bind_result (setpixel_checked (cx + x) (cy - y) col (m AND ELLIPSE_MASK_Q1 \<noteq> 0) fb)
       (\<lambda>fb. bind_result (setpixel_checked (cx - x) (cy - y) col (m AND ELLIPSE_MASK_Q2 \<noteq> 0) fb)
       (\<lambda>fb. bind_result (setpixel_checked (cx - x) (cy + y) col (m AND ELLIPSE_MASK_Q3 \<noteq> 0) fb)
       (\<lambda>fb. setpixel_checked (cx + x) (cy + y) col (m AND ELLIPSE_MASK_Q4 \<noteq> 0) fb))))"

text \<open>
  The two loops; \<open>None\<close> is a loop that does not end.  \<open>draw\<close> is the call of
  \<^verbatim>\<open>draw_ellipse_points\<close> with the fixed arguments.
\<close>

partial_function (option) ellipse_loop1 :: "(int \<Rightarrow> int \<Rightarrow> framebuf \<Rightarrow> framebuf fb_result) \<Rightarrow> int \<Rightarrow> int \<Rightarrow>
    int \<Rightarrow> int \<Rightarrow> int \<Rightarrow> int \<Rightarrow> int \<Rightarrow> int \<Rightarrow> int \<Rightarrow> framebuf \<Rightarrow> framebuf fb_result option" where
  "ellipse_loop1 draw two_asquare two_bsquare x y xchange ychange ellipse_error stoppingx stoppingy fb =
    (if stoppingx \<ge> stoppingy
     then case draw x y fb of
         Inl err \<Rightarrow> Some (Inl err)
       | Inr fb \<Rightarrow>
           (let y = y + 1; stoppingy = stoppingy + two_asquare; ellipse_error = ellipse_error + ychange;
                ychange = ychange + two_asquare
            in if 2 * ellipse_error + xchange > 0
               then ellipse_loop1 draw two_asquare two_bsquare (x - 1) y (xchange + two_bsquare) ychange
                      (ellipse_error + xchange) (stoppingx - two_bsquare) stoppingy fb
               else ellipse_loop1 draw two_asquare two_bsquare x y xchange ychange ellipse_error stoppingx
                      stoppingy fb)
     else Some (Inr fb))"

partial_function (option) ellipse_loop2 :: "(int \<Rightarrow> int \<Rightarrow> framebuf \<Rightarrow> framebuf fb_result) \<Rightarrow> int \<Rightarrow> int \<Rightarrow>
    int \<Rightarrow> int \<Rightarrow> int \<Rightarrow> int \<Rightarrow> int \<Rightarrow> int \<Rightarrow> int \<Rightarrow> framebuf \<Rightarrow> framebuf fb_result option" where
  "ellipse_loop2 draw two_asquare two_bsquare x y xchange ychange ellipse_error stoppingx stoppingy fb =
    (if stoppingx \<le> stoppingy
     then case draw x y fb of
         Inl err \<Rightarrow> Some (Inl err)
       | Inr fb \<Rightarrow>
           (let x = x + 1; stoppingx = stoppingx + two_bsquare; ellipse_error = ellipse_error + xchange;
                xchange = xchange + two_bsquare
            in if 2 * ellipse_error + ychange > 0
               then ellipse_loop2 draw two_asquare two_bsquare x (y - 1) xchange (ychange + two_asquare)
                      (ellipse_error + ychange) stoppingx (stoppingy - two_asquare) fb
               else ellipse_loop2 draw two_asquare two_bsquare x y xchange ychange ellipse_error stoppingx
                      stoppingy fb)
     else Some (Inr fb))"

definition framebuf_ellipse :: "int \<Rightarrow> int \<Rightarrow> int \<Rightarrow> int \<Rightarrow> color \<Rightarrow> bool \<Rightarrow> int option \<Rightarrow> framebuf \<Rightarrow>
    framebuf fb_result option" where
  "framebuf_ellipse cx cy xradius yradius col fill quadrants fb =
    (let fb = begin_frame fb;
         m = (if fill then ELLIPSE_MASK_FILL else 0) OR
             (case quadrants of Some q \<Rightarrow> q AND ELLIPSE_MASK_ALL | None \<Rightarrow> ELLIPSE_MASK_ALL);
         draw = (\<lambda>x y. draw_ellipse_points cx cy x y col m);
         two_asquare = 2 * xradius * xradius;
         two_bsquare = 2 * yradius * yradius
     in if xradius = 0 \<and> yradius = 0 then Some (setpixel_checked cx cy col (m AND ELLIPSE_MASK_ALL \<noteq> 0) fb)
        else case ellipse_loop1 draw two_asquare two_bsquare xradius 0 (yradius * yradius * (1 - 2 * xradius))
                    (xradius * xradius) 0 (two_bsquare * xradius) 0 fb of
            None \<Rightarrow> None
          | Some (Inl err) \<Rightarrow> Some (Inl err)
          | Some (Inr fb) \<Rightarrow>
              ellipse_loop2 draw two_asquare two_bsquare 0 yradius (yradius * yradius)
                (xradius * xradius * (1 - 2 * yradius)) 0 0 (two_asquare * yradius) fb)"

section \<open>Composing drawing operations\<close>

lemma paints_drawable:
  "paints S col fb (Inr fb') \<Longrightarrow> drawable fb' \<and> length (fb_buf fb') = length (fb_buf fb) \<and> fb_width fb' = fb_width fb \<and> fb_height fb' = fb_height fb \<and>
     fb_stride fb' = fb_stride fb \<and> fb_format fb' = fb_format fb"
  by (auto simp: paints_def is_canvas_def drawable_def)

lemma paintsD:
  assumes "paints S col fb r" "\<And>x y. (int x, int y) \<in> S \<longleftrightarrow> P x y"
  shows "\<exists>fb'. r = Inr fb' \<and> drawable fb' \<and> (\<forall>x<fb_width fb. \<forall>y<fb_height fb.
    getpixel fb' x y = (if P x y then Inr (ucast (pix_value (fb_format fb) col)) else getpixel fb x y))"
  using assms unfolding paints_def is_canvas_def drawable_def by simp metis

lemma paints_trans:
  assumes "paints S col fb (Inr fb1)" "paints T col fb1 r"
  shows "paints (S \<union> T) col fb r"
  using assms paints_drawable [OF assms(1)] unfolding paints_def by auto

lemma paints_bind:
  assumes r: "paints S col fb r" and k: "\<And>fb'. drawable fb' \<Longrightarrow> paints T col fb' (k fb')"
  shows "paints (S \<union> T) col fb (bind_result r k)"
proof -
  obtain fb1 where fb1: "r = Inr fb1" using r by (auto simp: paints_def)
  then show ?thesis using paints_trans r k paints_drawable by fastforce
qed

lemma paints_for_each:
  assumes "drawable fb" "\<And>i fb'. i \<in> set is \<Longrightarrow> drawable fb' \<Longrightarrow> paints (S i) col fb' (f i fb')"
  shows "paints (\<Union>i\<in>set is. S i) col fb (for_each f is fb)"
  using assms
proof (induction "is" arbitrary: fb)
  case (Cons i "is")
  have "paints (S i \<union> (\<Union>i\<in>set is. S i)) col fb (bind_result (f i fb) (for_each f is))"
    using Cons by (intro paints_bind) auto
  then show ?case by simp
qed (auto intro: paints_empty)

lemma paints_none [paint]: "drawable fb \<Longrightarrow> paints {} col fb (Inr fb)"
  by (rule paints_empty) auto

lemma paints_if:
  "(b \<Longrightarrow> paints S col fb r) \<Longrightarrow> (\<not> b \<Longrightarrow> paints T col fb r') \<Longrightarrow>
    paints (if b then S else T) col fb (if b then r else r')"
  by simp

lemma setpixel_checked_ok [paint]:
  assumes "drawable fb"
  shows "paints (if visible then {(x, y)} else {}) col fb (setpixel_checked x y col visible fb)"
proof (cases "visible \<and> inside fb x y")
  case True
  then have "\<exists>fb'. setpixel (nat x) (nat y) col fb = Inr fb' \<and>
      is_canvas (length (fb_buf fb)) (fb_width fb) (fb_height fb) (fb_stride fb) (fb_format fb) fb' \<and>
      (\<forall>x'<fb_width fb. \<forall>y'<fb_height fb. getpixel fb' x' y' =
        (if x' = nat x \<and> y' = nat y then Inr (ucast (pix_value (fb_format fb) col)) else getpixel fb x' y'))"
    using assms unfolding drawable_canvas by (intro px.put_ok) (auto simp: inside_def)
  then show ?thesis using True by (auto simp: paints_def setpixel_checked_def inside_def)
next
  case False
  then show ?thesis
    using assms unfolding setpixel_checked_def by (auto simp: inside_def intro!: paints_empty split: if_splits)
qed

lemmas fill_rect_paints [paint] = fill_rect_ok

lemma drawable_log [simp]: "drawable (begin_frame fb) = drawable fb"
  by (simp add: drawable_def begin_frame_def fb_wf_def)

lemma paints_layout:
  assumes "fb_buf a = fb_buf b" "fb_width a = fb_width b" "fb_height a = fb_height b"
    "fb_stride a = fb_stride b" "fb_format a = fb_format b"
  shows "paints S col a r = paints S col b r"
  unfolding paints_def getpixel_cong [OF assms(1,4,5)] assms ..

lemma paints_begin_frame: "paints S col (begin_frame fb) r = paints S col fb r"
  by (rule paints_layout) (simp_all add: begin_frame_def)

lemma framebuf_fill_ok [paint]:
  assumes "drawable fb"
  shows "paints UNIV col fb (framebuf_fill col fb)"
proof -
  let ?fb = "fb\<lparr>changed_indexes := [], changed_cleared := False\<rparr>"
  have "drawable ?fb" using assms by (simp add: drawable_def fb_wf_def)
  moreover have "1 \<le> fb_width fb" "1 \<le> fb_height fb" using assms by (simp_all add: drawable_def fb_wf_def)
  ultimately have "paints (rect_points 0 0 (int (fb_width fb)) (int (fb_height fb))) col ?fb (framebuf_fill col fb)"
    using format_fill_ok [of ?fb "fb_width fb" "fb_height fb" 0 0 col] by (simp add: framebuf_fill_def)
  then have "paints UNIV col ?fb (framebuf_fill col fb)" by (rule paints_cong) (auto simp: rect_points_def)
  then show ?thesis by (subst (asm) paints_layout [of _ fb]) simp_all
qed

lemma framebuf_rect_ok [paint]:
  assumes "drawable fb"
  shows "paints (if fill then rect_points x y w h
      else rect_points x y w 1 \<union> (rect_points x (y + h - 1) w 1 \<union>
        (rect_points x y 1 h \<union> rect_points (x + w - 1) y 1 h))) col fb (framebuf_rect x y w h col fill fb)"
  unfolding framebuf_rect_def using assms by (intro paints_if paints_bind fill_rect_ok)

section \<open>Lines\<close>

lemma line_adjust_eq:
  assumes "dx > 0" "e \<ge> - 2 * dx"
  shows "line_adjust sy dx y1 e = (y1 + sy * (e div (2 * dx) + 1), e - 2 * dx * (e div (2 * dx) + 1))"
  using assms
proof (induction sy dx y1 e rule: line_adjust.induct)
  case (1 sy dx y1 e)
  show ?case
  proof (cases "e \<ge> 0")
    case True
    have "(e - 2 * dx) div (2 * dx) = e div (2 * dx) - 1"
      using "1.prems" div_mult_self1 [of "2 * dx" e "- 1"] by simp
    then show ?thesis
      using 1 True by (simp add: line_adjust.simps [of sy dx y1 e] algebra_simps)
  next
    case False
    then have "e div (2 * dx) = - 1"
      using "1.prems" by (intro int_div_pos_eq [of _ _ _ "e + 2 * dx"]) auto
    then show ?thesis using False by (simp add: line_adjust.simps [of sy dx y1 e])
  qed
qed

text \<open>The minor coordinate after \<open>i\<close> steps: the ideal offset \<open>i * dy / dx\<close>, rounded.\<close>

definition line_offset :: "int \<Rightarrow> int \<Rightarrow> int \<Rightarrow> int" where
  "line_offset dx dy i = (2 * dy * i + dx) div (2 * dx)"

definition line_point :: "bool \<Rightarrow> int \<times> int \<Rightarrow> int \<times> int" where
  "line_point steep p = (if steep then (snd p, fst p) else p)"

lemma line_loop_ok:
  assumes "drawable fb" "dx > 0" "dy \<ge> 0"
    "x1 = x + sx * i" "y1 = y + sy * line_offset dx dy i" "e = 2 * dy * (i + 1) - dx - 2 * dx * line_offset dx dy i"
  shows "paints ((\<lambda>j. line_point steep (x + sx * j, y + sy * line_offset dx dy j)) ` {i..<i + int n}) col fb
    (line_loop n steep sx sy dx dy col x1 y1 e fb)"
  using assms
proof (induction n arbitrary: x1 y1 e i fb)
  case (Suc n)
  let ?P = "\<lambda>j. line_point steep (x + sx * j, y + sy * line_offset dx dy j)"
  let ?k = "line_offset dx dy i" and ?k' = "line_offset dx dy (i + 1)"
  have "2 * dx * ?k \<le> 2 * dy * i + dx"
    unfolding line_offset_def
    using Suc.prems(2) mult_div_mod_eq [of "2 * dx" "2 * dy * i + dx"] pos_mod_sign [of "2 * dx" "2 * dy * i + dx"]
    by linarith
  then have e: "e \<ge> - 2 * dx" using Suc.prems(2,3,6) by (simp add: algebra_simps)
  have "e = (2 * dy * (i + 1) + dx) + (- 1 - ?k) * (2 * dx)" using Suc.prems(6) by (simp add: algebra_simps)
  then have "e div (2 * dx) + 1 = ?k' - ?k"
    using Suc.prems(2) unfolding line_offset_def [of dx dy "i + 1"] by simp
  then have "line_adjust sy dx y1 e = (y1 + sy * (?k' - ?k), e - 2 * dx * (?k' - ?k))"
    using line_adjust_eq [OF Suc.prems(2) e, of sy y1] by (simp only:)
  then have adj: "line_adjust sy dx y1 e = (y + sy * ?k', e - 2 * dx * (?k' - ?k))"
    using Suc.prems(5) by (simp add: algebra_simps)
  have first: "paints {?P i} col fb
      (if steep then setpixel_checked y1 x1 col True fb else setpixel_checked x1 y1 col True fb)"
    using setpixel_checked_ok [OF Suc.prems(1), of True] Suc.prems(4,5) by (simp add: line_point_def)
  have "paints ({?P i} \<union> ?P ` {i + 1..<i + 1 + int n}) col fb (line_loop (Suc n) steep sx sy dx dy col x1 y1 e fb)"
    unfolding line_loop.simps adj prod.case using Suc.prems
    by (intro paints_bind [OF first] Suc.IH) (auto simp: algebra_simps)
  moreover have "{i..<i + int (Suc n)} = insert i {i + 1..<i + 1 + int n}" by auto
  ultimately show ?case by simp
qed (simp add: paints_none)

text \<open>
  The points of a line: for each step along the longer axis, the other coordinate is the
  ideal one rounded to the nearest integer (halves away from the start).
\<close>

definition line_points :: "int \<Rightarrow> int \<Rightarrow> int \<Rightarrow> int \<Rightarrow> (int \<times> int) set" where
  "line_points x1 y1 x2 y2 =
    (let dx = \<bar>x2 - x1\<bar>; dy = \<bar>y2 - y1\<bar>
     in if dy > dx
        then {(x1 + sgn (x2 - x1) * line_offset dy dx i, y1 + sgn (y2 - y1) * i) | i. 0 \<le> i \<and> i \<le> dy}
        else {(x1 + sgn (x2 - x1) * i, y1 + sgn (y2 - y1) * line_offset dx dy i) | i. 0 \<le> i \<and> i \<le> dx})"

lemma line_offset_start: "dx > 0 \<Longrightarrow> line_offset dx dy 0 = 0"
  by (simp add: line_offset_def)

lemma line_offset_end: "dx > 0 \<Longrightarrow> line_offset dx dy dx = dy"
proof -
  assume "dx > 0"
  then have "(2 * dy * dx + dx) div (2 * dx) = (dx + dy * (2 * dx)) div (2 * dx)" by (simp add: ac_simps)
  also have "\<dots> = dy + dx div (2 * dx)" using \<open>dx > 0\<close> by (intro div_mult_self1) simp
  finally show ?thesis using \<open>dx > 0\<close> by (simp add: line_offset_def)
qed

lemma line_offset_flat: "dx > 0 \<Longrightarrow> line_offset dx 0 i = 0"
  by (simp add: line_offset_def)

lemma line_loop_full:
  assumes "drawable fb" "dx > 0" "dy \<ge> 0"
  shows "paints ((\<lambda>j. line_point steep (x + sx * j, y + sy * line_offset dx dy j)) ` {0..<dx}) col fb
    (line_loop (nat dx) steep sx sy dx dy col x y (2 * dy - dx) fb)"
  using line_loop_ok [OF assms, of x x sx 0 y y sy "2 * dy - dx" steep "nat dx" col] assms(2)
  by (simp add: line_offset_start)

lemma image_closed: "f ` {0..<(n :: int)} \<union> {f n} = {f i | i. 0 \<le> i \<and> i \<le> n}" if "0 \<le> n"
proof -
  have "{0..<n} \<union> {n} = {i. 0 \<le> i \<and> i \<le> n}" using that by auto
  then show ?thesis by (auto simp: image_def)
qed

lemma line_ok [paint]:
  assumes fb: "drawable fb"
  shows "paints (line_points x1 y1 x2 y2) col fb (line x1 y1 x2 y2 col fb)"
proof -
  define dx where "dx = \<bar>x2 - x1\<bar>"
  define dy where "dy = \<bar>y2 - y1\<bar>"
  define sx :: int where "sx = (if x2 - x1 > 0 then 1 else - 1)"
  define sy :: int where "sy = (if y2 - y1 > 0 then 1 else - 1)"
  have x: "x1 + sx * dx = x2" "dx > 0 \<Longrightarrow> sgn (x2 - x1) = sx"
    and y: "y1 + sy * dy = y2" "dy > 0 \<Longrightarrow> sgn (y2 - y1) = sy"
    by (auto simp: sx_def dx_def sy_def dy_def)
  have off: "sgn (x2 - x1) * line_offset dy dx i = sx * line_offset dy dx i" if "dy > 0" for i
    using that x(2) line_offset_flat [of dy i] by (cases "dx = 0") (auto simp: dx_def)
  have off': "sgn (y2 - y1) * line_offset dx dy i = sy * line_offset dx dy i" if "dx > 0" for i
    using that y(2) line_offset_flat [of dx i] by (cases "dy = 0") (auto simp: dy_def)
  have code: "line x1 y1 x2 y2 col fb = bind_result
      (if dy > dx then line_loop (nat dy) True sy sx dy dx col y1 x1 (2 * dx - dy) fb
       else line_loop (nat dx) False sx sy dx dy col x1 y1 (2 * dy - dx) fb) (setpixel_checked x2 y2 col True)"
    unfolding line_def Let_def dx_def dy_def sx_def sy_def by (auto split: prod.split)
  have last: "paints {(x2, y2)} col fb' (setpixel_checked x2 y2 col True fb')" if "drawable fb'" for fb'
    using setpixel_checked_ok [OF that, of True x2 y2 col] by simp
  consider (steep) "dy > dx" | (flat) "dx \<ge> dy" "dx > 0" | (point) "dx = 0" "dy = 0"
    unfolding dx_def dy_def by linarith
  then show ?thesis
  proof cases
    case steep
    let ?P = "\<lambda>i. (x1 + sx * line_offset dy dx i, y1 + sy * i)"
    have pos: "dy > 0" "dx \<ge> 0" using steep by (auto simp: dx_def dy_def)
    have "line_points x1 y1 x2 y2 = {?P i | i. 0 \<le> i \<and> i \<le> dy}"
      using steep pos y(2) unfolding line_points_def Let_def dx_def [symmetric] dy_def [symmetric]
      by (simp add: off)
    also have "\<dots> = ?P ` {0..<dy} \<union> {?P dy}" using pos by (intro image_closed [symmetric]) simp
    finally have S: "line_points x1 y1 x2 y2 = ?P ` {0..<dy} \<union> {(x2, y2)}"
      using line_offset_end [OF pos(1)] x(1) y(1) by simp
    have "paints (?P ` {0..<dy}) col fb (line_loop (nat dy) True sy sx dy dx col y1 x1 (2 * dx - dy) fb)"
      using line_loop_full [OF fb pos, of True y1 sy x1 sx col] by (simp add: line_point_def)
    from paints_bind [OF this last] show ?thesis unfolding code S using steep by (simp only: if_True)
  next
    case flat
    let ?P = "\<lambda>i. (x1 + sx * i, y1 + sy * line_offset dx dy i)"
    have pos: "dx > 0" "dy \<ge> 0" using flat by (auto simp: dy_def)
    have "line_points x1 y1 x2 y2 = {?P i | i. 0 \<le> i \<and> i \<le> dx}"
      using flat x(2) unfolding line_points_def Let_def dx_def [symmetric] dy_def [symmetric]
      by (simp add: off')
    also have "\<dots> = ?P ` {0..<dx} \<union> {?P dx}" using pos by (intro image_closed [symmetric]) simp
    finally have S: "line_points x1 y1 x2 y2 = ?P ` {0..<dx} \<union> {(x2, y2)}"
      using line_offset_end [OF pos(1)] x(1) y(1) by simp
    have "paints (?P ` {0..<dx}) col fb (line_loop (nat dx) False sx sy dx dy col x1 y1 (2 * dy - dx) fb)"
      using line_loop_full [OF fb pos, of False x1 sx y1 sy col] by (simp add: line_point_def)
    from paints_bind [OF this last] show ?thesis unfolding code S using flat by (simp only: not_le [symmetric] if_False not_True_eq_False)
  next
    case point
    then have "line_points x1 y1 x2 y2 = {(x2, y2)}"
      by (auto simp: line_points_def Let_def dx_def dy_def line_offset_def)
    then show ?thesis using point last [OF fb] by (simp add: code)
  qed
qed

section \<open>Ellipses\<close>

text \<open>
  The two loops are the same up to exchanging the axes: each walks an arc from the end of
  an axis and draws the points of all quadrants at every step.  The points depend on the
  radii only.
\<close>

locale arc_loop =
  fixes F :: "(int \<Rightarrow> int \<Rightarrow> framebuf \<Rightarrow> framebuf fb_result) \<Rightarrow> int \<Rightarrow> int \<Rightarrow> int \<Rightarrow> int \<Rightarrow> int \<Rightarrow> int \<Rightarrow> int \<Rightarrow>
      framebuf \<Rightarrow> framebuf fb_result option"
    and A B :: int
  assumes step: "F d x y xc yc e sx sy fb =
    (if sx \<ge> sy
     then case d x y fb of
         Inl err \<Rightarrow> Some (Inl err)
       | Inr fb \<Rightarrow>
           (if 2 * (e + yc) + xc > 0 then F d (x - 1) (y + 1) (xc + B) (yc + A) (e + yc + xc) (sx - B) (sy + A) fb
            else F d x (y + 1) xc (yc + A) (e + yc) sx (sy + A) fb)
     else Some (Inr fb))"
    and radii: "A \<ge> 0" "B \<ge> 0"
begin

definition arc :: "int \<Rightarrow> int \<Rightarrow> int \<Rightarrow> int \<Rightarrow> int \<Rightarrow> int \<Rightarrow> int \<Rightarrow> (int \<times> int) set \<Rightarrow> bool" where
  "arc x y xc yc e sx sy pts \<longleftrightarrow> (\<forall>d M col fb. drawable fb \<longrightarrow>
     (\<forall>x y fb. drawable fb \<longrightarrow> paints (M x y) col fb (d x y fb)) \<longrightarrow>
     (\<exists>r. F d x y xc yc e sx sy fb = Some r \<and> paints (\<Union>(x, y)\<in>pts. M x y) col fb r))"

lemma arc_done: "\<not> sx \<ge> sy \<Longrightarrow> arc x y xc yc e sx sy {}"
  by (simp add: arc_def step [of _ x y xc yc e sx sy] paints_none)

lemma arc_step:
  assumes "arc (if 2 * (e + yc) + xc > 0 then x - 1 else x) (y + 1) (if 2 * (e + yc) + xc > 0 then xc + B else xc)
    (yc + A) (if 2 * (e + yc) + xc > 0 then e + yc + xc else e + yc)
    (if 2 * (e + yc) + xc > 0 then sx - B else sx) (sy + A) pts" "sx \<ge> sy"
  shows "arc x y xc yc e sx sy (insert (x, y) pts)"
  unfolding arc_def
proof (intro allI impI)
  fix d :: "int \<Rightarrow> int \<Rightarrow> framebuf \<Rightarrow> framebuf fb_result" and M col fb
  assume fb: "drawable fb" and d: "\<forall>x y fb. drawable fb \<longrightarrow> paints (M x y) col fb (d x y fb)"
  have p: "paints (M x y) col fb (d x y fb)" using fb d by blast
  then obtain fb1 where fb1: "d x y fb = Inr fb1" by (auto simp: paints_def)
  have d1: "drawable fb1" using paints_drawable p fb1 by metis
  obtain r where r: "F d x y xc yc e sx sy fb = Some r" "paints (\<Union>(x, y)\<in>pts. M x y) col fb1 r"
    using assms(1)[unfolded arc_def, rule_format, OF d1, of M col d] d assms(2) fb1
    by (cases "2 * (e + yc) + xc > 0") (auto simp: step [of d x y xc yc e sx sy])
  have "paints (M x y \<union> (\<Union>(x, y)\<in>pts. M x y)) col fb r"
    using paints_trans p r(2) fb1 by metis
  then show "\<exists>r. F d x y xc yc e sx sy fb = Some r \<and> paints (\<Union>(x, y)\<in>insert (x, y) pts. M x y) col fb r"
    using r(1) by auto
qed

text \<open>With a positive radius each step brings the stopping values closer.\<close>

lemma arc_positive:
  assumes "A > 0"
  shows "\<exists>pts. arc x y xc yc e sx sy pts \<and> (sx \<ge> sy \<longrightarrow> (x, y) \<in> pts)"
proof (induction "nat (sx - sy + 1)" arbitrary: x y xc yc e sx sy rule: less_induct)
  case less
  show ?case
  proof (cases "sx \<ge> sy")
    case True
    let ?c = "2 * (e + yc) + xc > 0"
    have "nat ((if ?c then sx - B else sx) - (sy + A) + 1) < nat (sx - sy + 1)"
      using assms radii True by simp
    from less [OF this, of "if ?c then x - 1 else x" "y + 1" "if ?c then xc + B else xc" "yc + A"
        "if ?c then e + yc + xc else e + yc"] show ?thesis
      using arc_step True by blast
  qed (use arc_done in blast)
qed

text \<open>With radius zero along the walk there is one step.\<close>

lemma arc_degenerate:
  assumes "A = 0" "B > 0" "xc > 0"
  shows "arc x y xc 0 0 0 0 {(x, y)}"
  using assms by (intro arc_step arc_done) auto

end

interpretation arc1: arc_loop "\<lambda>d. ellipse_loop1 d (2 * a * a) (2 * b * b)" "2 * a * a" "2 * b * b" for a b
proof
  fix d x y xc yc e sx sy fb
  show "ellipse_loop1 d (2 * a * a) (2 * b * b) x y xc yc e sx sy fb =
    (if sx \<ge> sy
     then case d x y fb of
         Inl err \<Rightarrow> Some (Inl err)
       | Inr fb \<Rightarrow>
           (if 2 * (e + yc) + xc > 0
            then ellipse_loop1 d (2 * a * a) (2 * b * b) (x - 1) (y + 1) (xc + 2 * b * b) (yc + 2 * a * a) (e + yc + xc)
                   (sx - 2 * b * b) (sy + 2 * a * a) fb
            else ellipse_loop1 d (2 * a * a) (2 * b * b) x (y + 1) xc (yc + 2 * a * a) (e + yc) sx (sy + 2 * a * a) fb)
     else Some (Inr fb))"
    by (subst ellipse_loop1.simps) (simp only: Let_def)
qed simp_all

interpretation arc2: arc_loop "\<lambda>d x y xc yc e sx sy. ellipse_loop2 (\<lambda>x y. d y x) (2 * a * a) (2 * b * b) y x yc xc e sy sx"
  "2 * b * b" "2 * a * a" for a b
proof
  fix d x y xc yc e sx sy fb
  show "ellipse_loop2 (\<lambda>x y. d y x) (2 * a * a) (2 * b * b) y x yc xc e sy sx fb =
    (if sx \<ge> sy
     then case d x y fb of
         Inl err \<Rightarrow> Some (Inl err)
       | Inr fb \<Rightarrow>
           (if 2 * (e + yc) + xc > 0
            then ellipse_loop2 (\<lambda>x y. d y x) (2 * a * a) (2 * b * b) (y + 1) (x - 1) (yc + 2 * b * b) (xc + 2 * a * a) (e + yc + xc)
                   (sy + 2 * b * b) (sx - 2 * a * a) fb
            else ellipse_loop2 (\<lambda>x y. d y x) (2 * a * a) (2 * b * b) (y + 1) x (yc + 2 * b * b) xc (e + yc)
                   (sy + 2 * b * b) sx fb)
     else Some (Inr fb))"
    by (subst ellipse_loop2.simps) (simp only: Let_def)
qed simp_all

text \<open>The marks of one step in the quadrants that the mask selects: spans when filling, points otherwise.\<close>

definition quadrant_marks :: "int \<Rightarrow> int \<Rightarrow> int \<Rightarrow> int \<Rightarrow> int \<Rightarrow> (int \<times> int) set" where
  "quadrant_marks m cx cy x y =
    (let fill = (m AND ELLIPSE_MASK_FILL \<noteq> 0);
         right = (if fill then {cx..cx + x} else {cx + x});
         left = (if fill then {cx - x..cx} else {cx - x})
     in (if m AND ELLIPSE_MASK_Q1 \<noteq> 0 then right \<times> {cy - y} else {}) \<union>
        ((if m AND ELLIPSE_MASK_Q2 \<noteq> 0 then left \<times> {cy - y} else {}) \<union>
        ((if m AND ELLIPSE_MASK_Q3 \<noteq> 0 then left \<times> {cy + y} else {}) \<union>
        (if m AND ELLIPSE_MASK_Q4 \<noteq> 0 then right \<times> {cy + y} else {}))))"

lemma span_ok: "drawable fb \<Longrightarrow> paints ({x..x + w} \<times> {y}) col fb (fill_rect x y (w + 1) 1 col fb)"
proof -
  have "rect_points x y (w + 1) 1 = {x..x + w} \<times> {y}" by (auto simp: rect_points_def)
  then show "drawable fb \<Longrightarrow> ?thesis" using fill_rect_ok [of fb x y "w + 1" 1 col] by simp
qed

lemma draw_ellipse_points_ok [paint]:
  assumes "drawable fb"
  shows "paints (quadrant_marks m cx cy x y) col fb (draw_ellipse_points cx cy x y col m fb)"
proof (cases "m AND ELLIPSE_MASK_FILL \<noteq> 0")
  case True
  have left: "paints ({cx - x..cx} \<times> {yy}) col fb' (fill_rect (cx - x) yy (x + 1) 1 col fb')" if "drawable fb'" for fb' yy
    using span_ok [OF that, of "cx - x" x yy col] by simp
  show ?thesis
    unfolding quadrant_marks_def draw_ellipse_points_def Let_def if_P [OF True]
    using assms by (intro paints_bind paints_if paints_none left span_ok)
next
  case False
  have p: "paints (if v then {xx} \<times> {yy} else {}) col fb' (setpixel_checked xx yy col v fb')"
    if "drawable fb'" for fb' xx yy v
    using setpixel_checked_ok [OF that, of v xx yy col] by (cases v) simp_all
  show ?thesis
    unfolding quadrant_marks_def draw_ellipse_points_def Let_def if_not_P [OF False]
    using assms by (intro paints_bind p)
qed

definition ellipse_mask :: "bool \<Rightarrow> int option \<Rightarrow> int" where
  "ellipse_mask fill quadrants = (if fill then ELLIPSE_MASK_FILL else 0) OR
     (case quadrants of Some q \<Rightarrow> q AND ELLIPSE_MASK_ALL | None \<Rightarrow> ELLIPSE_MASK_ALL)"

lemma ellipse_arcs:
  assumes "a \<ge> 0" "b \<ge> 0" "a \<noteq> 0 \<or> b \<noteq> 0"
  shows "\<exists>pts. arc1.arc a b a 0 (b * b * (1 - 2 * a)) (a * a) 0 (2 * b * b * a) 0 pts \<and> (a, 0) \<in> pts"
    and "\<exists>pts. arc2.arc a b b 0 (a * a * (1 - 2 * b)) (b * b) 0 (2 * a * a * b) 0 pts \<and> (b, 0) \<in> pts"
proof -
  show "\<exists>pts. arc1.arc a b a 0 (b * b * (1 - 2 * a)) (a * a) 0 (2 * b * b * a) 0 pts \<and> (a, 0) \<in> pts"
  proof (cases "a = 0")
    case True
    then have "arc1.arc a b a 0 (b * b * (1 - 2 * a)) 0 0 0 0 {(a, 0)}"
      using assms by (intro arc1.arc_degenerate) (auto simp: zero_less_mult_iff)
    then show ?thesis using True by auto
  next
    case False
    then have "2 * a * a > 0" using assms by simp
    then show ?thesis
      using arc1.arc_positive [where a = a and b = b and x = a and y = 0 and xc = "b * b * (1 - 2 * a)"
          and yc = "a * a" and e = 0 and sx = "2 * b * b * a" and sy = 0] assms(1) by auto
  qed
  show "\<exists>pts. arc2.arc a b b 0 (a * a * (1 - 2 * b)) (b * b) 0 (2 * a * a * b) 0 pts \<and> (b, 0) \<in> pts"
  proof (cases "b = 0")
    case True
    then have "arc2.arc a b b 0 (a * a * (1 - 2 * b)) 0 0 0 0 {(b, 0)}"
      using assms by (intro arc2.arc_degenerate) (auto simp: zero_less_mult_iff)
    then show ?thesis using True by auto
  next
    case False
    then have "2 * b * b > 0" using assms by simp
    then show ?thesis
      using arc2.arc_positive [where a = a and b = b and x = b and y = 0 and xc = "a * a * (1 - 2 * b)"
          and yc = "b * b" and e = 0 and sx = "2 * a * a * b" and sy = 0] assms(2) by auto
  qed
qed

lemma ellipse_mask_all:
  "m AND ELLIPSE_MASK_ALL \<noteq> 0 \<longleftrightarrow> m AND ELLIPSE_MASK_Q1 \<noteq> 0 \<or> m AND ELLIPSE_MASK_Q2 \<noteq> 0 \<or>
     m AND ELLIPSE_MASK_Q3 \<noteq> 0 \<or> m AND ELLIPSE_MASK_Q4 \<noteq> 0"
proof -
  have all: "ELLIPSE_MASK_ALL = ELLIPSE_MASK_Q1 OR ELLIPSE_MASK_Q2 OR ELLIPSE_MASK_Q3 OR ELLIPSE_MASK_Q4"
    by (simp add: ELLIPSE_MASK_ALL_def ELLIPSE_MASK_Q1_def ELLIPSE_MASK_Q2_def ELLIPSE_MASK_Q3_def ELLIPSE_MASK_Q4_def)
  show ?thesis unfolding all bit.conj_disj_distrib or_eq_0_iff by blast
qed

lemma quadrant_marks_zero:
  "quadrant_marks m cx cy 0 0 = (if m AND ELLIPSE_MASK_ALL \<noteq> 0 then {(cx, cy)} else {})"
proof -
  have "(if b then {cx..cx + 0} else {cx + 0}) = {cx}" "(if b then {cx - 0..cx} else {cx - 0}) = {cx}" for b by auto
  then show ?thesis unfolding quadrant_marks_def Let_def ellipse_mask_all by auto
qed

lemma ellipse_ok:
  assumes "a \<ge> 0" "b \<ge> 0"
  shows "\<exists>pts. (a, 0) \<in> pts \<and> (0, b) \<in> pts \<and> (\<forall>fb cx cy col fill quadrants. drawable fb \<longrightarrow>
    (\<exists>r. framebuf_ellipse cx cy a b col fill quadrants fb = Some r \<and>
      paints (\<Union>(x, y)\<in>pts. quadrant_marks (ellipse_mask fill quadrants) cx cy x y) col fb r))"
proof (cases "a = 0 \<and> b = 0")
  case True
  have "\<exists>r. framebuf_ellipse cx cy a b col fill quadrants fb = Some r \<and>
      paints (\<Union>(x, y)\<in>{(0, 0)}. quadrant_marks (ellipse_mask fill quadrants) cx cy x y) col fb r"
    if "drawable fb" for fb cx cy col fill quadrants
    using that setpixel_checked_ok [of "begin_frame fb" "ellipse_mask fill quadrants AND ELLIPSE_MASK_ALL \<noteq> 0" cx cy col]
    unfolding framebuf_ellipse_def Let_def ellipse_mask_def [symmetric] if_P [OF True]
    by (auto simp: quadrant_marks_zero paints_begin_frame)
  then show ?thesis using True by (intro exI [of _ "{(0, 0)}"]) auto
next
  case False
  obtain pts1 where p1: "arc1.arc a b a 0 (b * b * (1 - 2 * a)) (a * a) 0 (2 * b * b * a) 0 pts1" "(a, 0) \<in> pts1"
    using ellipse_arcs(1) [OF assms] False by auto
  obtain pts2 where p2: "arc2.arc a b b 0 (a * a * (1 - 2 * b)) (b * b) 0 (2 * a * a * b) 0 pts2" "(b, 0) \<in> pts2"
    using ellipse_arcs(2) [OF assms] False by auto
  let ?pts = "pts1 \<union> (\<lambda>(x, y). (y, x)) ` pts2"
  have "\<exists>r. framebuf_ellipse cx cy a b col fill quadrants fb = Some r \<and>
      paints (\<Union>(x, y)\<in>?pts. quadrant_marks (ellipse_mask fill quadrants) cx cy x y) col fb r"
    if fb: "drawable fb" for fb cx cy col fill quadrants
  proof -
    let ?M = "quadrant_marks (ellipse_mask fill quadrants) cx cy"
    let ?d = "\<lambda>x y. draw_ellipse_points cx cy x y col (ellipse_mask fill quadrants)"
    have d: "\<forall>x y fb. drawable fb \<longrightarrow> paints (?M x y) col fb (?d x y fb)"
      using draw_ellipse_points_ok by blast
    obtain r1 where r1: "ellipse_loop1 ?d (2 * a * a) (2 * b * b) a 0 (b * b * (1 - 2 * a)) (a * a) 0
        (2 * b * b * a) 0 (begin_frame fb) = Some r1" "paints (\<Union>(x, y)\<in>pts1. ?M x y) col (begin_frame fb) r1"
      using p1(1)[unfolded arc1.arc_def, rule_format, of "begin_frame fb" ?M col ?d] fb d by auto
    then obtain fb1 where fb1: "r1 = Inr fb1" by (auto simp: paints_def)
    have fb1d: "drawable fb1" using r1(2) fb1 paints_drawable by metis
    obtain r2 where r2: "ellipse_loop2 ?d (2 * a * a) (2 * b * b) 0 b (b * b) (a * a * (1 - 2 * b)) 0
        0 (2 * a * a * b) fb1 = Some r2" "paints (\<Union>(x, y)\<in>pts2. ?M y x) col fb1 r2"
      using p2(1)[unfolded arc2.arc_def, rule_format, OF fb1d, of "\<lambda>x y. ?M y x" col "\<lambda>x y. ?d y x"] d by auto
    have "framebuf_ellipse cx cy a b col fill quadrants fb = Some r2"
      using False r1(1) r2(1) fb1
      unfolding framebuf_ellipse_def Let_def ellipse_mask_def [symmetric] by auto
    moreover have "(\<Union>(x, y)\<in>?pts. ?M x y) = (\<Union>(x, y)\<in>pts1. ?M x y) \<union> (\<Union>(x, y)\<in>pts2. ?M y x)"
      by auto
    moreover have "paints ((\<Union>(x, y)\<in>pts1. ?M x y) \<union> (\<Union>(x, y)\<in>pts2. ?M y x)) col (begin_frame fb) r2"
      using paints_trans r1(2) r2(2) fb1 by metis
    ultimately show ?thesis using paints_begin_frame by auto
  qed
  then show ?thesis using p1(2) p2(2) by (intro exI [of _ ?pts]) force
qed

section \<open>Properties\<close>

lemma line_offset_close: "dx > 0 \<Longrightarrow> 2 * \<bar>i * dy - line_offset dx dy i * dx\<bar> \<le> dx"
proof -
  assume dx: "dx > 0"
  let ?z = "2 * dy * i + dx"
  define m p q where "m = ?z mod (2 * dx)" and "p = i * dy" and "q = line_offset dx dy i * dx"
  have "2 * dx * (?z div (2 * dx)) + m = ?z" unfolding m_def by (rule mult_div_mod_eq)
  then have "2 * q + m = 2 * p + dx" by (simp add: p_def q_def line_offset_def algebra_simps)
  moreover have "0 \<le> m" "m < 2 * dx" using dx by (simp_all add: m_def)
  ultimately show ?thesis unfolding p_def [symmetric] q_def [symmetric] by (simp add: abs_if)
qed

lemma line_points_close:
  assumes "(x, y) \<in> line_points x1 y1 x2 y2"
  shows "2 * \<bar>(x - x1) * (y2 - y1) - (y - y1) * (x2 - x1)\<bar> \<le> max \<bar>x2 - x1\<bar> \<bar>y2 - y1\<bar>"
proof -
  define dx dy s t where "dx = \<bar>x2 - x1\<bar>" and "dy = \<bar>y2 - y1\<bar>" and "s = sgn (x2 - x1)" and "t = sgn (y2 - y1)"
  have d: "x2 - x1 = s * dx" "y2 - y1 = t * dy" unfolding dx_def dy_def s_def t_def by (simp_all add: sgn_mult_abs)
  have st: "\<bar>s * t * z\<bar> \<le> \<bar>z\<bar>" for z by (auto simp: s_def t_def abs_mult sgn_if)
  consider (steep) i where "dy > dx" "x = x1 + s * line_offset dy dx i" "y = y1 + t * i"
    | (flat) i where "dx \<ge> dy" "x = x1 + s * i" "y = y1 + t * line_offset dx dy i"
    using assms unfolding line_points_def Let_def dx_def dy_def s_def t_def by (auto split: if_splits)
  then show ?thesis
  proof cases
    case steep
    then have "(x - x1) * (y2 - y1) - (y - y1) * (x2 - x1) = s * t * (line_offset dy dx i * dy - i * dx)"
      unfolding d by (simp add: algebra_simps)
    then have "2 * \<bar>(x - x1) * (y2 - y1) - (y - y1) * (x2 - x1)\<bar> \<le> 2 * \<bar>line_offset dy dx i * dy - i * dx\<bar>"
      using st by simp
    also have "\<dots> \<le> dy"
      using line_offset_close [of dy i dx] steep by (simp add: abs_minus_commute dx_def)
    finally show ?thesis unfolding dy_def by simp
  next
    case flat
    then have "(x - x1) * (y2 - y1) - (y - y1) * (x2 - x1) = s * t * (i * dy - line_offset dx dy i * dx)"
      unfolding d by (simp add: algebra_simps)
    then have "2 * \<bar>(x - x1) * (y2 - y1) - (y - y1) * (x2 - x1)\<bar> \<le> 2 * \<bar>i * dy - line_offset dx dy i * dx\<bar>"
      using st by simp
    also have "\<dots> \<le> dx"
      using line_offset_close [of dx i dy] flat(1) by (cases "dx = 0") (auto simp: dx_def dy_def)
    finally show ?thesis unfolding dx_def by simp
  qed
qed





end
