(* ===== verification/Framebuf_Poly.thy ===== *)
theory Framebuf_Poly
  imports Framebuf_Draw "HOL-Library.Multiset"
begin

text \<open>
  Polygons on a frame buffer (\<^verbatim>\<open>framebuf_poly\<close> of \<^verbatim>\<open>extmod/modframebuf.c\<close>): the
  outline, and the scan-line fill with its list of crossing nodes, their sort and the spans
  between pairs.  The coordinates are the integers that the array argument holds.
\<close>

section \<open>Model\<close>

fun poly_points :: "int list \<Rightarrow> (int \<times> int) list" where
  "poly_points (px # py # coords) = (px, py) # poly_points coords"
| "poly_points _ = []"

text \<open>The edges in the order of the loops: from the first vertex to the last, then backwards.\<close>

definition poly_edges :: "(int \<times> int) list \<Rightarrow> ((int \<times> int) \<times> int \<times> int) list" where
  "poly_edges pts = zip (hd pts # rev pts) (rev pts)"

definition crosses :: "int \<Rightarrow> int \<Rightarrow> int \<Rightarrow> bool" where
  "crosses row py1 py2 \<longleftrightarrow>
     py1 \<noteq> py2 \<and> ((py1 > row \<and> py2 \<le> row) \<or> (py1 \<le> row \<and> py2 > row))"

definition poly_node :: "int \<Rightarrow> (int \<times> int) \<times> int \<times> int \<Rightarrow> int" where
  "poly_node row e =
    (case e of ((px1, py1), (px2, py2)) \<Rightarrow>
       c_div (32 * px1 + c_div (32 * (px2 - px1) * (row - py1)) (py2 - py1) + 16) 32)"

text \<open>One edge of one scan line; \<open>n_poly\<close> is the size of the array of nodes.\<close>

definition poly_edge :: "nat \<Rightarrow> int \<Rightarrow> int \<Rightarrow> color \<Rightarrow> int \<Rightarrow> (int \<times> int) \<times> int \<times> int \<Rightarrow>
    int list \<times> framebuf \<Rightarrow> (int list \<times> framebuf) fb_result" where
  "poly_edge n_poly x y col row e st =
    (case e of ((px1, py1), (px2, py2)) \<Rightarrow>
       if crosses row py1 py2
       then if length (fst st) < n_poly then Inr (fst st @ [poly_node row e], snd st) else Inl Out_Of_Bounds
       else if row = max py1 py2
       then bind_result
         (if py1 < py2 then setpixel_checked (x + px2) (y + py2) col True (snd st)
          else if py2 < py1 then setpixel_checked (x + px1) (y + py1) col True (snd st)
          else line (x + px1) (y + py1) (x + px2) (y + py2) col (snd st))
         (\<lambda>fb. Inr (fst st, fb))
       else Inr st)"

fun inversions :: "int list \<Rightarrow> nat" where
  "inversions [] = 0"
| "inversions (x # xs) = length (filter (\<lambda>y. y < x) xs) + inversions xs"

lemma inversions_swap:
  assumes "b < a"
  shows "inversions (ps @ a # b # qs) = Suc (inversions (ps @ b # a # qs))"
  using assms by (induction ps) auto

lemma adjacent_decomp:
  assumes "Suc i < length xs"
  shows "xs = take i xs @ xs ! i # xs ! Suc i # drop (Suc (Suc i)) xs"
    and "xs[i := b, Suc i := a] = take i xs @ b # a # drop (Suc (Suc i)) xs"
proof -
  show x: "xs = take i xs @ xs ! i # xs ! Suc i # drop (Suc (Suc i)) xs"
    using assms by (metis Cons_nth_drop_Suc Suc_lessD append_take_drop_id)
  have m: "min (length xs) i = i" using assms by simp
  show "xs[i := b, Suc i := a] = take i xs @ b # a # drop (Suc (Suc i)) xs"
    by (subst x) (simp add: list_update_append m)
qed

function poly_sort :: "nat \<Rightarrow> int list \<Rightarrow> int list" where
  "poly_sort i nodes =
    (if Suc i < length nodes
     then if nodes ! i > nodes ! Suc i
       then poly_sort (i - 1) (nodes[i := nodes ! Suc i, Suc i := nodes ! i])
       else poly_sort (Suc i) nodes
     else nodes)"
  by pat_completeness auto
termination
proof (relation "measures [\<lambda>(i, nodes). inversions nodes, \<lambda>(i, nodes). length nodes - i]", goal_cases)
  case (2 i nodes)
  then have "inversions nodes = Suc (inversions (nodes[i := nodes ! Suc i, Suc i := nodes ! i]))"
    using adjacent_decomp [of i nodes] inversions_swap by metis
  then show ?case by simp
qed auto

declare poly_sort.simps [simp del]

text \<open>The spans between pairs of nodes; the second node of a pair has to be there.\<close>

fun poly_spans :: "int \<Rightarrow> int \<Rightarrow> color \<Rightarrow> int list \<Rightarrow> framebuf \<Rightarrow> framebuf fb_result" where
  "poly_spans x yrow col [] fb = Inr fb"
| "poly_spans x yrow col [n] fb = Inl Out_Of_Bounds"
| "poly_spans x yrow col (n # n' # nodes) fb =
    bind_result (fill_rect (x + n) yrow (n' - n + 1) 1 col fb) (poly_spans x yrow col nodes)"

definition poly_row :: "(int \<times> int) list \<Rightarrow> int \<Rightarrow> int \<Rightarrow> color \<Rightarrow> int \<Rightarrow> framebuf \<Rightarrow> framebuf fb_result" where
  "poly_row pts x y col row fb =
    bind_result (for_each (poly_edge (length pts) x y col row) (poly_edges pts) ([], fb))
      (\<lambda>(nodes, fb). if nodes = [] then Inr fb else poly_spans x (y + row) col (poly_sort 0 nodes) fb)"

definition framebuf_poly :: "int \<Rightarrow> int \<Rightarrow> int list \<Rightarrow> color \<Rightarrow> bool \<Rightarrow> framebuf \<Rightarrow> framebuf fb_result" where
  "framebuf_poly x y coords col fill fb =
    (let pts = poly_points coords
     in if pts = [] then Inr fb
        else if fill
        then let y_min = foldl (\<lambda>m p. min m (snd p)) 2147483647 pts;
                 y_max = foldl (\<lambda>m p. max m (snd p)) (- 2147483648) pts
             in for_each (poly_row pts x y col) [y_min..y_max] fb
        else for_each (\<lambda>((px1, py1), (px2, py2)). line (x + px1) (y + py1) (x + px2) (y + py2) col)
               (poly_edges pts) fb)"

section \<open>Sorting the nodes\<close>

lemma poly_sort_mset: "mset (poly_sort i xs) = mset xs"
proof (induction i xs rule: poly_sort.induct)
  case (1 i xs)
  show ?case
  proof (cases "Suc i < length xs")
    case True
    have "mset (xs[i := xs ! Suc i, Suc i := xs ! i]) = mset xs"
      using arg_cong [OF adjacent_decomp(1) [OF True], of mset] adjacent_decomp(2) [OF True, of "xs ! Suc i" "xs ! i"]
      by simp
    then show ?thesis using 1 True by (simp add: poly_sort.simps [of i xs])
  qed (simp add: poly_sort.simps)
qed

lemma poly_sort_sorted: "sorted (take (Suc i) xs) \<Longrightarrow> sorted (poly_sort i xs)"
proof (induction i xs rule: poly_sort.induct)
  case (1 i xs)
  show ?case
  proof (cases "Suc i < length xs")
    case True
    let ?ys = "xs[i := xs ! Suc i, Suc i := xs ! i]"
    show ?thesis
    proof (cases "xs ! i > xs ! Suc i")
      case swap: True
      have "sorted (take (Suc (i - 1)) ?ys)"
      proof (cases i)
        case (Suc j)
        then have "take (Suc (i - 1)) ?ys = take i xs" using adjacent_decomp(2) [OF True] True by simp
        moreover have "sorted (take i (take (Suc i) xs))" using "1.prems" by (rule sorted_wrt_take)
        ultimately show ?thesis by (simp add: min_def)
      qed (cases xs; simp)
      then show ?thesis using 1 True swap by (simp add: poly_sort.simps [of i xs])
    next
      case False
      have "take (Suc (Suc i)) xs = take i xs @ [xs ! i, xs ! Suc i]"
        using True by (simp add: take_Suc_conv_app_nth)
      then have "sorted (take (Suc (Suc i)) xs)"
        using "1.prems" False True by (simp add: take_Suc_conv_app_nth sorted_append) fastforce
      then show ?thesis using 1 True False by (simp add: poly_sort.simps [of i xs])
    qed
  qed (use 1 in \<open>simp add: poly_sort.simps\<close>)
qed

lemma poly_sort_sort: "poly_sort 0 xs = sort xs"
proof (rule properties_for_sort [symmetric])
  show "mset (poly_sort 0 xs) = mset xs" by (rule poly_sort_mset)
  show "sorted (poly_sort 0 xs)" by (rule poly_sort_sorted) (cases xs; simp)
qed

section \<open>Scan lines\<close>

text \<open>The nodes of a scan line, and what the edges that do not cross it mark.\<close>

definition row_nodes :: "(int \<times> int) list \<Rightarrow> int \<Rightarrow> int list" where
  "row_nodes pts row = map (poly_node row) (filter (\<lambda>(p, q). crosses row (snd p) (snd q)) (poly_edges pts))"

definition edge_marks :: "int \<Rightarrow> int \<Rightarrow> int \<Rightarrow> (int \<times> int) \<times> int \<times> int \<Rightarrow> (int \<times> int) set" where
  "edge_marks x y row e =
    (case e of ((px1, py1), (px2, py2)) \<Rightarrow>
       if crosses row py1 py2 \<or> row \<noteq> max py1 py2 then {}
       else if py1 < py2 then {(x + px2, y + py2)}
       else if py2 < py1 then {(x + px1, y + py1)}
       else line_points (x + px1) (y + py1) (x + px2) (y + py2))"

text \<open>A path that returns to its start crosses a scan line an even number of times.\<close>

lemma crosses_iff: "crosses row a b \<longleftrightarrow> (a > row) \<noteq> (b > row)"
  by (auto simp: crosses_def)

lemma path_parity:
  "odd (length (filter (\<lambda>(p, q). crosses row (snd p) (snd q)) (zip (p0 # ps) ps))) \<longleftrightarrow>
     (snd p0 > row) \<noteq> (snd (last (p0 # ps)) > row)"
proof (induction ps arbitrary: p0)
  case (Cons p ps)
  show ?case using Cons.IH [of p] by (auto simp: crosses_iff)
qed simp

lemma row_nodes_even: "pts \<noteq> [] \<Longrightarrow> even (length (row_nodes pts row))"
  using path_parity [of row "hd pts" "rev pts"]
  by (simp add: row_nodes_def poly_edges_def last_rev)

lemma row_nodes_bound: "length (row_nodes pts row) \<le> length pts"
proof -
  have "length (poly_edges pts) = length pts" by (simp add: poly_edges_def)
  then show ?thesis unfolding row_nodes_def by (metis length_filter_le length_map)
qed

lemma poly_edges_ok:
  assumes "drawable fb" "length nodes + length (filter (\<lambda>(p, q). crosses row (snd p) (snd q)) es) \<le> n"
  shows "\<exists>fb'. for_each (poly_edge n x y col row) es (nodes, fb) =
      Inr (nodes @ map (poly_node row) (filter (\<lambda>(p, q). crosses row (snd p) (snd q)) es), fb') \<and>
    paints (\<Union>e\<in>set es. edge_marks x y row e) col fb (Inr fb')"
  using assms
proof (induction es arbitrary: nodes fb)
  case Nil
  then show ?case by (simp add: paints_none)
next
  case (Cons e es)
  obtain px1 py1 px2 py2 where e: "e = ((px1, py1), (px2, py2))" by (metis surj_pair)
  show ?case
  proof (cases "crosses row py1 py2")
    case True
    then have "edge_marks x y row e = {}" by (simp add: e edge_marks_def)
    then show ?thesis
      using Cons.IH [OF Cons.prems(1), of "nodes @ [poly_node row e]"] Cons.prems(2) True
      by (simp add: e poly_edge_def)
  next
    case False
    have "\<exists>fb1. poly_edge n x y col row e (nodes, fb) = Inr (nodes, fb1) \<and>
        paints (edge_marks x y row e) col fb (Inr fb1)"
    proof -
      let ?r = "if row = max py1 py2
        then if py1 < py2 then setpixel_checked (x + px2) (y + py2) col True fb
          else if py2 < py1 then setpixel_checked (x + px1) (y + py1) col True fb
          else line (x + px1) (y + py1) (x + px2) (y + py2) col fb
        else Inr fb"
      have p: "paints (edge_marks x y row e) col fb ?r"
        using False setpixel_checked_ok [OF Cons.prems(1), of True] line_ok [OF Cons.prems(1)] paints_none [OF Cons.prems(1)]
        by (simp add: e edge_marks_def)
      then obtain fb1 where "?r = Inr fb1" by (auto simp: paints_def)
      then show ?thesis using False p by (auto simp: e poly_edge_def split: if_splits)
    qed
    then obtain fb1 where fb1: "poly_edge n x y col row e (nodes, fb) = Inr (nodes, fb1)"
      "paints (edge_marks x y row e) col fb (Inr fb1)" by blast
    obtain fb' where fb': "for_each (poly_edge n x y col row) es (nodes, fb1) =
        Inr (nodes @ map (poly_node row) (filter (\<lambda>(p, q). crosses row (snd p) (snd q)) es), fb')"
      "paints (\<Union>e\<in>set es. edge_marks x y row e) col fb1 (Inr fb')"
      using Cons.IH [of fb1 nodes] Cons.prems(2) paints_drawable [OF fb1(2)] False by (auto simp: e)
    then show ?thesis using fb1 False paints_trans [OF fb1(2) fb'(2)] by (auto simp: e)
  qed
qed

text \<open>The union of the spans of a sorted list of an even number of nodes: the even-odd rule.\<close>

fun span_union :: "int list \<Rightarrow> int set" where
  "span_union (n # n' # nodes) = {n..n'} \<union> span_union nodes"
| "span_union _ = {}"

lemma poly_spans_ok:
  assumes "drawable fb" "even (length nodes)"
  shows "paints ((\<lambda>px. (x + px, yrow)) ` span_union nodes) col fb (poly_spans x yrow col nodes fb)"
  using assms
proof (induction x yrow col nodes fb rule: poly_spans.induct)
  case (3 x yrow col n n' nodes fb)
  have "rect_points (x + n) yrow (n' - n + 1) 1 = (\<lambda>px. (x + px, yrow)) ` {n..n'}"
  proof -
    have "(\<lambda>px. (x + px, yrow)) ` {n..n'} = ((+) x ` {n..n'}) \<times> {yrow}" by blast
    also have "\<dots> = rect_points (x + n) yrow (n' - n + 1) 1"
      unfolding image_add_atLeastAtMost rect_points_def by auto
    finally show ?thesis ..
  qed
  then have "paints ((\<lambda>px. (x + px, yrow)) ` {n..n'}) col fb (fill_rect (x + n) yrow (n' - n + 1) 1 col fb)"
    using fill_rect_ok [OF "3.prems"(1)] by metis
  from paints_bind [OF this] show ?case using 3 by (simp add: image_Un)
qed (simp_all add: paints_none)

lemma span_union_even_odd:
  assumes "sorted nodes" "even (length nodes)"
  shows "px \<in> span_union nodes \<longleftrightarrow> odd (length (filter (\<lambda>n. n \<le> px) nodes)) \<or> px \<in> set nodes"
  using assms
proof (induction nodes rule: span_union.induct)
  case (1 n n' nodes)
  have none: "filter (\<lambda>n. n \<le> px) nodes = []" if "px < n'" using that "1.prems" by (auto simp: filter_empty_conv)
  show ?case using 1 none by (cases "px < n'") (auto simp: filter_empty_conv)
qed auto

definition poly_row_points :: "(int \<times> int) list \<Rightarrow> int \<Rightarrow> int \<Rightarrow> int \<Rightarrow> (int \<times> int) set" where
  "poly_row_points pts x y row =
    {(x + px, y + row) | px. odd (length (filter (\<lambda>n. n \<le> px) (row_nodes pts row))) \<or> px \<in> set (row_nodes pts row)} \<union>
    (\<Union>e\<in>set (poly_edges pts). edge_marks x y row e)"

lemma poly_row_ok:
  assumes "drawable fb" "pts \<noteq> []"
  shows "paints (poly_row_points pts x y row) col fb (poly_row pts x y col row fb)"
proof -
  let ?n = "row_nodes pts row" and ?E = "\<Union>e\<in>set (poly_edges pts). edge_marks x y row e"
  obtain fb1 where fb1: "for_each (poly_edge (length pts) x y col row) (poly_edges pts) ([], fb) = Inr (?n, fb1)"
    "paints ?E col fb (Inr fb1)"
    using poly_edges_ok [OF assms(1), of "[]" row "poly_edges pts" "length pts" x y col] row_nodes_bound [of pts row]
    unfolding row_nodes_def by auto
  let ?s = "sort ?n"
  have ev: "even (length ?s)" using row_nodes_even [OF assms(2)] by simp
  have "filter (\<lambda>n. n \<le> px) ?s = sort (filter (\<lambda>n. n \<le> px) ?n)" for px by (rule filter_sort)
  then have eo: "span_union ?s = {px. odd (length (filter (\<lambda>n. n \<le> px) ?n)) \<or> px \<in> set ?n}"
    using span_union_even_odd [OF sorted_sort ev] by auto
  have "paints ((\<lambda>px. (x + px, y + row)) ` span_union ?s) col fb1 (poly_row pts x y col row fb)"
  proof (cases "?n = []")
    case True
    then show ?thesis
      using fb1 paints_none [of fb1 col] paints_drawable [OF fb1(2)] by (simp add: poly_row_def)
  next
    case False
    then show ?thesis
      using fb1 poly_spans_ok [OF _ ev, of fb1 x "y + row" col] paints_drawable [OF fb1(2)]
      by (simp add: poly_row_def poly_sort_sort)
  qed
  from paints_trans [OF fb1(2) this] show ?thesis
    unfolding poly_row_points_def eo by (simp add: Un_commute image_def setcompr_eq_image)
qed

lemma foldl_min: "foldl (\<lambda>m p. min m (snd p)) (a :: int) pts \<le> a \<and> (\<forall>p\<in>set pts. foldl (\<lambda>m p. min m (snd p)) a pts \<le> snd p)"
proof (induction pts arbitrary: a)
  case (Cons p pts)
  from Cons [of "min a (snd p)"] show ?case by auto
qed simp

lemma foldl_max: "(a :: int) \<le> foldl (\<lambda>m p. max m (snd p)) a pts \<and> (\<forall>p\<in>set pts. snd p \<le> foldl (\<lambda>m p. max m (snd p)) a pts)"
proof (induction pts arbitrary: a)
  case (Cons p pts)
  from Cons [of "max a (snd p)"] show ?case by auto
qed simp

text \<open>Scan lines above or below all vertices have neither nodes nor marks.\<close>

lemma poly_edges_vertices:
  assumes "((px1, py1), (px2, py2)) \<in> set (poly_edges pts)" "pts \<noteq> []"
  shows "(px1, py1) \<in> set pts" "(px2, py2) \<in> set pts"
  using assms set_zip_leftD [of "(px1, py1)" "(px2, py2)"] set_zip_rightD [of "(px1, py1)" "(px2, py2)"]
  unfolding poly_edges_def by fastforce+

lemma poly_row_points_outside:
  assumes "pts \<noteq> []" "(\<forall>p\<in>set pts. row < snd p) \<or> (\<forall>p\<in>set pts. snd p < row)"
  shows "poly_row_points pts x y row = {}"
proof -
  have "\<not> crosses row py1 py2 \<and> row \<noteq> max py1 py2" if "((px1, py1), (px2, py2)) \<in> set (poly_edges pts)" for px1 py1 px2 py2
  proof -
    have "(row < py1 \<and> row < py2) \<or> (py1 < row \<and> py2 < row)"
      using assms(2) poly_edges_vertices [OF that assms(1)] by force
    then show ?thesis by (auto simp: crosses_def)
  qed
  note none = this
  have "row_nodes pts row = []" using none by (auto simp: row_nodes_def filter_empty_conv)
  moreover have "edge_marks x y row e = {}" if e: "e \<in> set (poly_edges pts)" for e
  proof -
    obtain px1 py1 px2 py2 where "e = ((px1, py1), (px2, py2))" by (metis surj_pair)
    then show ?thesis using none [of px1 py1 px2 py2] e by (simp add: edge_marks_def)
  qed
  ultimately show ?thesis by (simp add: poly_row_points_def)
qed

lemma poly_fill_ok:
  assumes fb: "drawable fb"
  shows "paints (if poly_points coords = [] then {} else \<Union>row. poly_row_points (poly_points coords) x y row) col fb
    (framebuf_poly x y coords col True fb)"
proof (cases "poly_points coords = []")
  case False
  let ?pts = "poly_points coords"
  define y_min where "y_min = foldl (\<lambda>m p. min m (snd p)) 2147483647 ?pts"
  define y_max where "y_max = foldl (\<lambda>m p. max m (snd p)) (- 2147483648) ?pts"
  have "paints (\<Union>row\<in>set [y_min..y_max]. poly_row_points ?pts x y row) col fb (framebuf_poly x y coords col True fb)"
    unfolding framebuf_poly_def Let_def y_min_def [symmetric] y_max_def [symmetric]
    using False fb by (simp only: if_False if_True) (intro paints_for_each poly_row_ok)
  moreover have "poly_row_points ?pts x y row = {}" if "row \<notin> set [y_min..y_max]" for row
    using that False foldl_min [of 2147483647 ?pts] foldl_max [of "- 2147483648" ?pts]
    unfolding y_min_def [symmetric] y_max_def [symmetric]
    by (intro poly_row_points_outside) force+
  then have "(\<Union>row\<in>set [y_min..y_max]. poly_row_points ?pts x y row) = (\<Union>row. poly_row_points ?pts x y row)"
    by blast
  ultimately show ?thesis using False by simp
qed (simp add: framebuf_poly_def paints_none [OF fb])

lemma poly_outline_ok:
  assumes fb: "drawable fb"
  shows "paints (\<Union>((px1, py1), (px2, py2))\<in>set (if poly_points coords = [] then [] else poly_edges (poly_points coords)).
      line_points (x + px1) (y + py1) (x + px2) (y + py2)) col fb (framebuf_poly x y coords col False fb)"
  unfolding framebuf_poly_def Let_def
  using fb by (auto intro!: paints_for_each line_ok paints_none split: prod.splits)

section \<open>Properties\<close>



end
