(* ===== verification/Framebuf_Copy.thy ===== *)
theory Framebuf_Copy
  imports Framebuf_Draw
begin

text \<open>
  Copying operations of the frame buffer (\<^verbatim>\<open>extmod/modframebuf.c\<close>): text with the
  built-in font (\<^verbatim>\<open>extmod/font_petme128_8x8.h\<close>), copying from another frame buffer and
  scrolling in place.  In a copy the source may be over the same bytes as the target, which
  the flag \<open>shared\<close> of the source says.
\<close>

section \<open>Model\<close>

definition font_petme128_8x8 :: "nat list" where
  "font_petme128_8x8 = [
    0x00, 0x00, 0x00, 0x00, 0x00, 0x00, 0x00, 0x00, 0x00, 0x00, 0x00, 0x4f, 0x4f, 0x00, 0x00, 0x00,
    0x00, 0x07, 0x07, 0x00, 0x00, 0x07, 0x07, 0x00, 0x14, 0x7f, 0x7f, 0x14, 0x14, 0x7f, 0x7f, 0x14,
    0x00, 0x24, 0x2e, 0x6b, 0x6b, 0x3a, 0x12, 0x00, 0x00, 0x63, 0x33, 0x18, 0x0c, 0x66, 0x63, 0x00,
    0x00, 0x32, 0x7f, 0x4d, 0x4d, 0x77, 0x72, 0x50, 0x00, 0x00, 0x00, 0x04, 0x06, 0x03, 0x01, 0x00,
    0x00, 0x00, 0x1c, 0x3e, 0x63, 0x41, 0x00, 0x00, 0x00, 0x00, 0x41, 0x63, 0x3e, 0x1c, 0x00, 0x00,
    0x08, 0x2a, 0x3e, 0x1c, 0x1c, 0x3e, 0x2a, 0x08, 0x00, 0x08, 0x08, 0x3e, 0x3e, 0x08, 0x08, 0x00,
    0x00, 0x00, 0x80, 0xe0, 0x60, 0x00, 0x00, 0x00, 0x00, 0x08, 0x08, 0x08, 0x08, 0x08, 0x08, 0x00,
    0x00, 0x00, 0x00, 0x60, 0x60, 0x00, 0x00, 0x00, 0x00, 0x40, 0x60, 0x30, 0x18, 0x0c, 0x06, 0x02,
    0x00, 0x3e, 0x7f, 0x49, 0x45, 0x7f, 0x3e, 0x00, 0x00, 0x40, 0x44, 0x7f, 0x7f, 0x40, 0x40, 0x00,
    0x00, 0x62, 0x73, 0x51, 0x49, 0x4f, 0x46, 0x00, 0x00, 0x22, 0x63, 0x49, 0x49, 0x7f, 0x36, 0x00,
    0x00, 0x18, 0x18, 0x14, 0x16, 0x7f, 0x7f, 0x10, 0x00, 0x27, 0x67, 0x45, 0x45, 0x7d, 0x39, 0x00,
    0x00, 0x3e, 0x7f, 0x49, 0x49, 0x7b, 0x32, 0x00, 0x00, 0x03, 0x03, 0x79, 0x7d, 0x07, 0x03, 0x00,
    0x00, 0x36, 0x7f, 0x49, 0x49, 0x7f, 0x36, 0x00, 0x00, 0x26, 0x6f, 0x49, 0x49, 0x7f, 0x3e, 0x00,
    0x00, 0x00, 0x00, 0x24, 0x24, 0x00, 0x00, 0x00, 0x00, 0x00, 0x80, 0xe4, 0x64, 0x00, 0x00, 0x00,
    0x00, 0x08, 0x1c, 0x36, 0x63, 0x41, 0x41, 0x00, 0x00, 0x14, 0x14, 0x14, 0x14, 0x14, 0x14, 0x00,
    0x00, 0x41, 0x41, 0x63, 0x36, 0x1c, 0x08, 0x00, 0x00, 0x02, 0x03, 0x51, 0x59, 0x0f, 0x06, 0x00,
    0x00, 0x3e, 0x7f, 0x41, 0x4d, 0x4f, 0x2e, 0x00, 0x00, 0x7c, 0x7e, 0x0b, 0x0b, 0x7e, 0x7c, 0x00,
    0x00, 0x7f, 0x7f, 0x49, 0x49, 0x7f, 0x36, 0x00, 0x00, 0x3e, 0x7f, 0x41, 0x41, 0x63, 0x22, 0x00,
    0x00, 0x7f, 0x7f, 0x41, 0x63, 0x3e, 0x1c, 0x00, 0x00, 0x7f, 0x7f, 0x49, 0x49, 0x41, 0x41, 0x00,
    0x00, 0x7f, 0x7f, 0x09, 0x09, 0x01, 0x01, 0x00, 0x00, 0x3e, 0x7f, 0x41, 0x49, 0x7b, 0x3a, 0x00,
    0x00, 0x7f, 0x7f, 0x08, 0x08, 0x7f, 0x7f, 0x00, 0x00, 0x00, 0x41, 0x7f, 0x7f, 0x41, 0x00, 0x00,
    0x00, 0x20, 0x60, 0x41, 0x7f, 0x3f, 0x01, 0x00, 0x00, 0x7f, 0x7f, 0x1c, 0x36, 0x63, 0x41, 0x00,
    0x00, 0x7f, 0x7f, 0x40, 0x40, 0x40, 0x40, 0x00, 0x00, 0x7f, 0x7f, 0x06, 0x0c, 0x06, 0x7f, 0x7f,
    0x00, 0x7f, 0x7f, 0x0e, 0x1c, 0x7f, 0x7f, 0x00, 0x00, 0x3e, 0x7f, 0x41, 0x41, 0x7f, 0x3e, 0x00,
    0x00, 0x7f, 0x7f, 0x09, 0x09, 0x0f, 0x06, 0x00, 0x00, 0x1e, 0x3f, 0x21, 0x61, 0x7f, 0x5e, 0x00,
    0x00, 0x7f, 0x7f, 0x19, 0x39, 0x6f, 0x46, 0x00, 0x00, 0x26, 0x6f, 0x49, 0x49, 0x7b, 0x32, 0x00,
    0x00, 0x01, 0x01, 0x7f, 0x7f, 0x01, 0x01, 0x00, 0x00, 0x3f, 0x7f, 0x40, 0x40, 0x7f, 0x3f, 0x00,
    0x00, 0x1f, 0x3f, 0x60, 0x60, 0x3f, 0x1f, 0x00, 0x00, 0x7f, 0x7f, 0x30, 0x18, 0x30, 0x7f, 0x7f,
    0x00, 0x63, 0x77, 0x1c, 0x1c, 0x77, 0x63, 0x00, 0x00, 0x07, 0x0f, 0x78, 0x78, 0x0f, 0x07, 0x00,
    0x00, 0x61, 0x71, 0x59, 0x4d, 0x47, 0x43, 0x00, 0x00, 0x00, 0x7f, 0x7f, 0x41, 0x41, 0x00, 0x00,
    0x00, 0x02, 0x06, 0x0c, 0x18, 0x30, 0x60, 0x40, 0x00, 0x00, 0x41, 0x41, 0x7f, 0x7f, 0x00, 0x00,
    0x00, 0x08, 0x0c, 0x06, 0x06, 0x0c, 0x08, 0x00, 0xc0, 0xc0, 0xc0, 0xc0, 0xc0, 0xc0, 0xc0, 0xc0,
    0x00, 0x00, 0x01, 0x03, 0x06, 0x04, 0x00, 0x00, 0x00, 0x20, 0x74, 0x54, 0x54, 0x7c, 0x78, 0x00,
    0x00, 0x7f, 0x7f, 0x44, 0x44, 0x7c, 0x38, 0x00, 0x00, 0x38, 0x7c, 0x44, 0x44, 0x6c, 0x28, 0x00,
    0x00, 0x38, 0x7c, 0x44, 0x44, 0x7f, 0x7f, 0x00, 0x00, 0x38, 0x7c, 0x54, 0x54, 0x5c, 0x58, 0x00,
    0x00, 0x08, 0x7e, 0x7f, 0x09, 0x03, 0x02, 0x00, 0x00, 0x98, 0xbc, 0xa4, 0xa4, 0xfc, 0x7c, 0x00,
    0x00, 0x7f, 0x7f, 0x04, 0x04, 0x7c, 0x78, 0x00, 0x00, 0x00, 0x00, 0x7d, 0x7d, 0x00, 0x00, 0x00,
    0x00, 0x40, 0xc0, 0x80, 0x80, 0xfd, 0x7d, 0x00, 0x00, 0x7f, 0x7f, 0x30, 0x38, 0x6c, 0x44, 0x00,
    0x00, 0x00, 0x41, 0x7f, 0x7f, 0x40, 0x00, 0x00, 0x00, 0x7c, 0x7c, 0x18, 0x30, 0x18, 0x7c, 0x7c,
    0x00, 0x7c, 0x7c, 0x04, 0x04, 0x7c, 0x78, 0x00, 0x00, 0x38, 0x7c, 0x44, 0x44, 0x7c, 0x38, 0x00,
    0x00, 0xfc, 0xfc, 0x24, 0x24, 0x3c, 0x18, 0x00, 0x00, 0x18, 0x3c, 0x24, 0x24, 0xfc, 0xfc, 0x00,
    0x00, 0x7c, 0x7c, 0x04, 0x04, 0x0c, 0x08, 0x00, 0x00, 0x48, 0x5c, 0x54, 0x54, 0x74, 0x20, 0x00,
    0x04, 0x04, 0x3f, 0x7f, 0x44, 0x64, 0x20, 0x00, 0x00, 0x3c, 0x7c, 0x40, 0x40, 0x7c, 0x3c, 0x00,
    0x00, 0x1c, 0x3c, 0x60, 0x60, 0x3c, 0x1c, 0x00, 0x00, 0x1c, 0x7c, 0x30, 0x18, 0x30, 0x7c, 0x1c,
    0x00, 0x44, 0x6c, 0x38, 0x38, 0x6c, 0x44, 0x00, 0x00, 0x9c, 0xbc, 0xa0, 0xa0, 0xfc, 0x7c, 0x00,
    0x00, 0x44, 0x64, 0x74, 0x5c, 0x4c, 0x44, 0x00, 0x00, 0x08, 0x08, 0x3e, 0x77, 0x41, 0x41, 0x00,
    0x00, 0x00, 0x00, 0xff, 0xff, 0x00, 0x00, 0x00, 0x00, 0x41, 0x41, 0x77, 0x3e, 0x08, 0x08, 0x00,
    0x00, 0x02, 0x03, 0x01, 0x03, 0x02, 0x03, 0x01, 0xaa, 0x55, 0xaa, 0x55, 0xaa, 0x55, 0xaa, 0x55]"

definition font_char :: "nat \<Rightarrow> nat" where
  "font_char chr = (if chr < 32 \<or> chr > 127 then 127 else chr)"

function text_column :: "nat \<Rightarrow> int \<Rightarrow> int \<Rightarrow> color \<Rightarrow> framebuf \<Rightarrow> framebuf fb_result" where
  "text_column vline_data x y col fb =
    (if vline_data = 0 then Inr fb
     else bind_result
       (if odd vline_data \<and> 0 \<le> y \<and> y < int (fb_height fb) then setpixel (nat x) (nat y) col fb else Inr fb)
       (text_column (vline_data div 2) x (y + 1) col))"
  by pat_completeness auto
termination by (relation "measure (\<lambda>(vline_data, x, y, col, fb). vline_data)") auto

declare text_column.simps [simp del]

definition text_char :: "nat \<Rightarrow> int \<Rightarrow> int \<Rightarrow> color \<Rightarrow> framebuf \<Rightarrow> framebuf fb_result" where
  "text_char chr x0 y0 col fb =
    for_each (\<lambda>j fb. if 0 \<le> x0 + int j \<and> x0 + int j < int (fb_width fb)
        then text_column (font_petme128_8x8 ! ((font_char chr - 32) * 8 + j)) (x0 + int j) y0 col fb else Inr fb)
      [0..<8] fb"

text \<open>The string is the bytes before the terminating zero.\<close>

definition framebuf_text :: "nat list \<Rightarrow> int \<Rightarrow> int \<Rightarrow> color \<Rightarrow> framebuf \<Rightarrow> framebuf fb_result" where
  "framebuf_text str x0 y0 col fb =
    for_each (\<lambda>(k, chr). text_char chr (x0 + 8 * int k) y0 col) (enumerate 0 (takeWhile (\<lambda>c. c \<noteq> 0) str)) fb"

subsection \<open>Copying\<close>

text \<open>A frame buffer, or a tuple of a buffer and the arguments of the constructor.\<close>

datatype fb_arg = Fb_Object bool framebuf | Fb_Tuple "byte list" "int list"

fun get_readonly_framebuffer :: "fb_arg \<Rightarrow> (bool \<times> framebuf) fb_result" where
  "get_readonly_framebuffer (Fb_Object shared fb) = Inr (shared, fb)"
| "get_readonly_framebuffer (Fb_Tuple buffer items) =
    (case items of
       [width, height, format] \<Rightarrow>
         bind_result (framebuf_make_new_helper buffer width height format None) (\<lambda>fb. Inr (False, fb))
     | [width, height, format, stride] \<Rightarrow>
         bind_result (framebuf_make_new_helper buffer width height format (Some stride)) (\<lambda>fb. Inr (False, fb))
     | _ \<Rightarrow> Inl Fb_ValueError)"

definition source_view :: "bool \<times> framebuf \<Rightarrow> framebuf \<Rightarrow> framebuf" where
  "source_view src self = (if fst src then (snd src)\<lparr>fb_buf := fb_buf self\<rparr> else snd src)"

definition blit_pixel :: "bool \<times> framebuf \<Rightarrow> (bool \<times> framebuf) option \<Rightarrow> color \<Rightarrow> nat \<Rightarrow> nat \<Rightarrow> nat \<Rightarrow> nat \<Rightarrow>
    framebuf \<Rightarrow> framebuf fb_result" where
  "blit_pixel source palette key cx1 y1 cx0 y0 self =
    bind_result (getpixel (source_view source self) cx1 y1)
      (\<lambda>col. bind_result (case palette of None \<Rightarrow> Inr col | Some p \<Rightarrow> getpixel (source_view p self) (unat col) 0)
        (\<lambda>col. if col \<noteq> key then setpixel cx0 y0 col self else Inr self))"

definition framebuf_blit :: "fb_arg \<Rightarrow> int \<Rightarrow> int \<Rightarrow> color option \<Rightarrow> fb_arg option \<Rightarrow> framebuf \<Rightarrow> framebuf fb_result" where
  "framebuf_blit source_arg x y key_arg palette_arg self =
    bind_result (get_readonly_framebuffer source_arg)
      (\<lambda>source. let self = begin_frame self; key = (case key_arg of Some k \<Rightarrow> k | None \<Rightarrow> - 1)
        in bind_result (case palette_arg of
              None \<Rightarrow> Inr None
            | Some p \<Rightarrow> bind_result (get_readonly_framebuffer p) (\<lambda>p. Inr (Some p)))
          (\<lambda>palette.
             if x \<ge> int (fb_width self) \<or> y \<ge> int (fb_height self) \<or>
                - x \<ge> int (fb_width (snd source)) \<or> - y \<ge> int (fb_height (snd source)) then Inr self
             else let x0 = max 0 x; y0 = max 0 y; x1 = max 0 (- x); y1 = max 0 (- y);
                      x0end = min (int (fb_width self)) (x + int (fb_width (snd source)));
                      y0end = min (int (fb_height self)) (y + int (fb_height (snd source)))
                  in for_each (\<lambda>r. for_each (\<lambda>c. blit_pixel source palette key
                       (nat x1 + c) (nat y1 + r) (nat x0 + c) (nat y0 + r))
                       [0..<nat (x0end - x0)]) [0..<nat (y0end - y0)] self))"

subsection \<open>Scrolling\<close>

text \<open>The iterations of one axis, or nothing when all of it scrolls out.\<close>

definition scroll_range :: "nat \<Rightarrow> int \<Rightarrow> int list option" where
  "scroll_range extent step =
    (if step < 0
     then let end = int extent + step in if end \<le> 0 then None else Some [0..end - 1]
     else let start = int extent - 1; end = step - 1 in if end \<ge> start then None else Some (rev [end + 1..start]))"

definition scroll_pixel :: "int \<Rightarrow> int \<Rightarrow> int \<Rightarrow> int \<Rightarrow> framebuf \<Rightarrow> framebuf fb_result" where
  "scroll_pixel xstep ystep y x fb =
    bind_result (getpixel fb (nat (x - xstep)) (nat (y - ystep))) (\<lambda>c. setpixel (nat x) (nat y) c fb)"

definition framebuf_scroll :: "int \<Rightarrow> int \<Rightarrow> framebuf \<Rightarrow> framebuf fb_result" where
  "framebuf_scroll xstep ystep fb =
    (case scroll_range (fb_width fb) xstep of
       None \<Rightarrow> Inr fb
     | Some xs \<Rightarrow>
         (case scroll_range (fb_height fb) ystep of
            None \<Rightarrow> Inr fb
          | Some ys \<Rightarrow> for_each (\<lambda>y. for_each (scroll_pixel xstep ystep y) xs) ys fb))"

section \<open>Text\<close>

lemma font_length: "length font_petme128_8x8 = 768"
  by (simp add: font_petme128_8x8_def)

text \<open>The font is never read outside its table.\<close>

lemma font_index: "j < 8 \<Longrightarrow> (font_char chr - 32) * 8 + j < length font_petme128_8x8"
  by (auto simp: font_length font_char_def)

lemma text_column_ok:
  assumes "drawable fb" "0 \<le> x" "x < int (fb_width fb)"
  shows "paints {(x, y + int i) | i. bit vline_data i} col fb (text_column vline_data x y col fb)"
  using assms
proof (induction vline_data x y col fb rule: text_column.induct)
  case (1 n x y col fb)
  show ?case
  proof (cases "n = 0")
    case True
    then show ?thesis by (simp add: text_column.simps paints_none "1.prems")
  next
    case False
    let ?r = "if odd n \<and> 0 \<le> y \<and> y < int (fb_height fb) then setpixel (nat x) (nat y) col fb else Inr fb"
    have "?r = setpixel_checked x y col (odd n) fb"
      using "1.prems" by (auto simp: setpixel_checked_def inside_def)
    then have p: "paints (if odd n then {(x, y)} else {}) col fb ?r"
      using setpixel_checked_ok [OF "1.prems"(1)] by simp
    then obtain fb1 where fb1: "?r = Inr fb1" by (auto simp: paints_def)
    note d = paints_drawable [OF p [unfolded fb1]]
    have "paints {(x, y + 1 + int i) | i. bit (n div 2) i} col fb1 (text_column (n div 2) x (y + 1) col fb1)"
      using "1.IH" [OF False, of fb1] "1.prems" d by simp
    from paints_trans [OF p [unfolded fb1] this]
    have "paints ((if odd n then {(x, y)} else {}) \<union> {(x, y + 1 + int i) | i. bit (n div 2) i}) col fb
        (text_column n x y col fb)"
      using False fb1 by (simp add: text_column.simps [of n])
    moreover have "{(x, y + int i) | i. bit n i} = (if odd n then {(x, y)} else {}) \<union> {(x, y + 1 + int i) | i. bit (n div 2) i}"
    proof -
      have "bit n i \<longleftrightarrow> (i = 0 \<and> odd n) \<or> (\<exists>j. i = Suc j \<and> bit (n div 2) j)" for i
        by (cases i) (auto simp: bit_0 bit_Suc)
      then have "(x, z) \<in> {(x, y + int i) | i. bit n i} \<longleftrightarrow>
          (odd n \<and> z = y) \<or> (\<exists>j. z = y + 1 + int j \<and> bit (n div 2) j)" for z
        by (auto simp: ac_simps intro: exI [of _ "Suc _"])
      then show ?thesis by auto
    qed
    ultimately show ?thesis by simp
  qed
qed

definition glyph_points :: "nat list \<Rightarrow> int \<Rightarrow> int \<Rightarrow> (int \<times> int) set" where
  "glyph_points str x0 y0 = {(x0 + 8 * int k + int j, y0 + int i) | k j i. k < length str \<and> j < 8 \<and>
     bit (font_petme128_8x8 ! ((font_char (str ! k) - 32) * 8 + j)) i}"

lemma text_char_ok:
  assumes "drawable fb"
  shows "paints (\<Union>j\<in>set [0..<8]. {(x0 + int j, y0 + int i) | i. bit (font_petme128_8x8 ! ((font_char chr - 32) * 8 + j)) i})
    col fb (text_char chr x0 y0 col fb)"
  unfolding text_char_def
proof (rule paints_for_each [OF assms])
  fix j and fb' :: framebuf
  assume fb': "drawable fb'"
  show "paints {(x0 + int j, y0 + int i) | i. bit (font_petme128_8x8 ! ((font_char chr - 32) * 8 + j)) i} col fb'
      (if 0 \<le> x0 + int j \<and> x0 + int j < int (fb_width fb')
       then text_column (font_petme128_8x8 ! ((font_char chr - 32) * 8 + j)) (x0 + int j) y0 col fb' else Inr fb')"
    using text_column_ok [OF fb', of "x0 + int j"] fb' by (auto intro!: paints_empty)
qed

lemma framebuf_text_ok:
  assumes "drawable fb"
  shows "paints (glyph_points (takeWhile (\<lambda>c. c \<noteq> 0) str) x0 y0) col fb (framebuf_text str x0 y0 col fb)"
proof -
  let ?s = "takeWhile (\<lambda>c. c \<noteq> 0) str"
  let ?C = "\<lambda>(k, chr). \<Union>j\<in>set [0..<8]. {(x0 + 8 * int k + int j, y0 + int i) | i. bit (font_petme128_8x8 ! ((font_char chr - 32) * 8 + j)) i}"
  have "paints (\<Union>kc\<in>set (enumerate 0 ?s). ?C kc) col fb (framebuf_text str x0 y0 col fb)"
    unfolding framebuf_text_def
  proof (rule paints_for_each [OF assms])
    fix kc and fb' :: framebuf
    assume "drawable fb'"
    then show "paints (?C kc) col fb' ((\<lambda>(k, chr). text_char chr (x0 + 8 * int k) y0 col) kc fb')"
      using text_char_ok [of fb' "x0 + 8 * int (fst kc)" y0 "snd kc" col] by (cases kc) simp
  qed
  moreover have "(\<Union>kc\<in>set (enumerate 0 ?s). ?C kc) = glyph_points ?s x0 y0"
    by (fastforce simp: glyph_points_def in_set_enumerate_eq)
  ultimately show ?thesis by simp
qed

section \<open>Copy loops\<close>

text \<open>
  A loop that gives one pixel after the other its new value: if each step writes the new
  value while the pixels before it are already new and the rest still old, then all are new.
\<close>

lemma copy_loop:
  assumes fb: "drawable fb"
    and step: "\<And>bef p aft fb1. ps = bef @ p # aft \<Longrightarrow>
      is_canvas (length (fb_buf fb)) (fb_width fb) (fb_height fb) (fb_stride fb) (fb_format fb) fb1 \<Longrightarrow>
      \<forall>x<fb_width fb. \<forall>y<fb_height fb. getpixel fb1 x y = (if (x, y) \<in> dst ` set bef then new (x, y) else getpixel fb x y) \<Longrightarrow>
      \<exists>fb2. f p fb1 = Inr fb2 \<and> is_canvas (length (fb_buf fb)) (fb_width fb) (fb_height fb) (fb_stride fb) (fb_format fb) fb2 \<and>
        (\<forall>x<fb_width fb. \<forall>y<fb_height fb. getpixel fb2 x y = (if (x, y) = dst p then new (x, y) else getpixel fb1 x y))"
  shows "\<exists>fb'. for_each f ps fb = Inr fb' \<and> is_canvas (length (fb_buf fb)) (fb_width fb) (fb_height fb) (fb_stride fb) (fb_format fb) fb' \<and>
    (\<forall>x<fb_width fb. \<forall>y<fb_height fb. getpixel fb' x y = (if (x, y) \<in> dst ` set ps then new (x, y) else getpixel fb x y))"
proof -
  let ?c = "is_canvas (length (fb_buf fb)) (fb_width fb) (fb_height fb) (fb_stride fb) (fb_format fb)"
  have "\<exists>fb'. for_each f aft fb1 = Inr fb' \<and> ?c fb' \<and>
      (\<forall>x<fb_width fb. \<forall>y<fb_height fb. getpixel fb' x y = (if (x, y) \<in> dst ` set ps then new (x, y) else getpixel fb x y))"
    if "ps = bef @ aft" "?c fb1"
      "\<forall>x<fb_width fb. \<forall>y<fb_height fb. getpixel fb1 x y = (if (x, y) \<in> dst ` set bef then new (x, y) else getpixel fb x y)"
    for bef aft fb1
    using that
  proof (induction aft arbitrary: bef fb1)
    case (Cons p aft)
    obtain fb2 where fb2: "f p fb1 = Inr fb2" "?c fb2"
      "\<forall>x<fb_width fb. \<forall>y<fb_height fb. getpixel fb2 x y = (if (x, y) = dst p then new (x, y) else getpixel fb1 x y)"
      using step [OF Cons.prems] by blast
    show ?case using Cons.IH [of "bef @ [p]" fb2] Cons.prems fb2 by auto
  qed auto
  from this [of "[]" ps fb] show ?thesis using fb drawable_canvas by auto
qed

text \<open>A value that was read is not changed by writing it.\<close>

lemma getpixel_norm:
  assumes "drawable fb" "x < fb_width fb" "y < fb_height fb"
  obtains c where "getpixel fb x y = Inr c" "ucast (pix_value (fb_format fb) c) = c"
proof -
  have wf: "fb_wf fb" "cell_format (fb_format fb)" using assms(1) by (simp_all add: drawable_def)
  let ?b = "cell_get (pix_shift fb x y) (pix_bits (fb_format fb)) (fb_buf fb ! pix_index fb x y)"
  have t: "take_bit (pix_bits (fb_format fb)) ?b = ?b" by (simp add: cell_get_def)
  have u: "ucast (ucast b :: color) = b" for b :: byte by (rule bit_word_eqI) (auto simp: bit_ucast_iff dest: bit_imp_le_length)
  have one: "ucast (of_bool (ucast b \<noteq> (0 :: color)) :: byte) = (ucast b :: color)" if "take_bit 1 b = b" for b :: byte
  proof -
    have "take_bit 1 b = of_bool (odd b)" by (simp add: mod_2_eq_odd)
    then have "b = 0 \<or> b = 1" using that by (cases "odd b") auto
    then show ?thesis by auto
  qed
  have "ucast (pix_value (fb_format fb) (ucast ?b)) = (ucast ?b :: color)"
  proof (cases "fb_format fb \<in> {MVLSB, MHLSB, MHMSB}")
    case True
    then have v: "pix_value (fb_format fb) c = of_bool (c \<noteq> 0)" "pix_bits (fb_format fb) = 1" for c
      by (auto simp: pix_value_def pix_bits_def)
    show ?thesis unfolding v(1) by (rule one) (use t v(2) in simp)
  next
    case False
    then show ?thesis
      using wf(2) t u by (auto simp: cell_format_def pix_value_def pix_bits_def and_low_nibble)
  qed
  then show thesis using that getpixel_ok [OF wf assms(2,3)] by blast
qed

section \<open>Scrolling\<close>

lemma scroll_range_set:
  "set (case scroll_range n step of None \<Rightarrow> [] | Some xs \<Rightarrow> xs) =
     {x. 0 \<le> x \<and> x < int n \<and> 0 \<le> x - step \<and> x - step < int n}"
  by (auto simp: scroll_range_def Let_def)

text \<open>The order of the iterations: a pixel that was written is not read later.\<close>

lemma scroll_range_order:
  assumes "scroll_range n step = Some xs"
  shows "sorted_wrt (\<lambda>a b. a \<noteq> b - step) xs"
proof (cases "step < 0")
  case True
  then have "xs = [0..int n + step - 1]"
    using assms by (auto simp: scroll_range_def Let_def split: if_splits)
  then have "sorted_wrt (<) xs" by (simp add: sorted_wrt_upto)
  then show ?thesis by (rule sorted_wrt_mono_rel [rotated]) (use True in auto)
next
  case False
  then have "xs = rev [step..int n - 1]"
    using assms by (auto simp: scroll_range_def Let_def split: if_splits)
  then have "sorted_wrt (>) xs" using sorted_wrt_upto [of step "int n - 1"] by (simp add: sorted_wrt_rev)
  then show ?thesis by (rule sorted_wrt_mono_rel [rotated]) (use False in auto)
qed

lemma sorted_wrt_product:
  assumes "sorted_wrt (\<lambda>a b. \<forall>c\<in>set ys. \<forall>d\<in>set ys. R (a, c) (b, d)) xs"
    and "\<And>a. a \<in> set xs \<Longrightarrow> sorted_wrt (\<lambda>c d. R (a, c) (a, d)) ys"
  shows "sorted_wrt R (List.product xs ys)"
  using assms by (induction xs) (auto simp: sorted_wrt_append sorted_wrt_map)

definition scrolled :: "int \<Rightarrow> int \<Rightarrow> framebuf \<Rightarrow> nat \<times> nat \<Rightarrow> color fb_result" where
  "scrolled xstep ystep fb p = getpixel fb (nat (int (fst p) - xstep)) (nat (int (snd p) - ystep))"

lemma scroll_pixel_ok:
  assumes fb1: "is_canvas n w h st f fb1" and src: "0 \<le> x - xstep" "x - xstep < int w" "0 \<le> y - ystep" "y - ystep < int h"
    and dst: "0 \<le> x" "x < int w" "0 \<le> y" "y < int h"
  shows "\<exists>fb2. scroll_pixel xstep ystep y x fb1 = Inr fb2 \<and> is_canvas n w h st f fb2 \<and>
    (\<forall>x'<w. \<forall>y'<h. getpixel fb2 x' y' =
      (if x' = nat x \<and> y' = nat y then getpixel fb1 (nat (x - xstep)) (nat (y - ystep)) else getpixel fb1 x' y'))"
proof -
  have d: "drawable fb1" "fb_width fb1 = w" "fb_height fb1 = h" "fb_format fb1 = f"
    using fb1 by (auto simp: is_canvas_def drawable_def)
  have "nat (x - xstep) < fb_width fb1" "nat (y - ystep) < fb_height fb1"
    using src d(2,3) by (simp_all add: nat_less_iff)
  then obtain c where c: "getpixel fb1 (nat (x - xstep)) (nat (y - ystep)) = Inr c" "ucast (pix_value f c) = c"
    using getpixel_norm [OF d(1)] d(4) by blast
  have n: "nat x < w" "nat y < h" using dst by (simp_all add: nat_less_iff)
  show ?thesis
    unfolding scroll_pixel_def c(1) bind_result.simps by (rule px.put_ok [OF fb1 n, of c, unfolded c(2)])
qed

lemma scroll_ok:
  assumes fb: "drawable fb"
  shows "\<exists>fb'. framebuf_scroll xstep ystep fb = Inr fb' \<and> drawable fb' \<and>
    (\<forall>x<fb_width fb. \<forall>y<fb_height fb. getpixel fb' x y =
      (if inside fb (int x - xstep) (int y - ystep) then scrolled xstep ystep fb (x, y) else getpixel fb x y))"
proof -
  let ?rx = "scroll_range (fb_width fb) xstep" and ?ry = "scroll_range (fb_height fb) ystep"
  let ?in = "\<lambda>n s a. 0 \<le> a \<and> a < int n \<and> 0 \<le> a - s \<and> a - s < int n"
  let ?c = "is_canvas (length (fb_buf fb)) (fb_width fb) (fb_height fb) (fb_stride fb) (fb_format fb)"
  show ?thesis
  proof (cases "?rx = None \<or> ?ry = None")
    case True
    then have "framebuf_scroll xstep ystep fb = Inr fb" by (auto simp: framebuf_scroll_def split: option.splits)
    moreover have "\<not> inside fb (int x - xstep) (int y - ystep)" if "x < fb_width fb" "y < fb_height fb" for x y
      using True that scroll_range_set [of "fb_width fb" xstep] scroll_range_set [of "fb_height fb" ystep]
      by (auto simp: inside_def)
    ultimately show ?thesis using fb by simp
  next
    case False
    then obtain xs ys where r: "?rx = Some xs" "?ry = Some ys" by auto
    have X: "set xs = {x. ?in (fb_width fb) xstep x}" and Y: "set ys = {y. ?in (fb_height fb) ystep y}"
      using scroll_range_set [of "fb_width fb" xstep] scroll_range_set [of "fb_height fb" ystep] r by simp_all
    let ?ps = "List.product ys xs" and ?dst = "\<lambda>(y, x). (nat x, nat y)"
    have order: "sorted_wrt (\<lambda>(y, x) (y', x'). \<not> (y = y' - ystep \<and> x = x' - xstep)) ?ps"
      using scroll_range_order [OF r(2)] scroll_range_order [OF r(1)]
      by (intro sorted_wrt_product) (auto elim!: sorted_wrt_mono_rel [rotated])
    have "\<exists>fb'. for_each (\<lambda>(y, x). scroll_pixel xstep ystep y x) ?ps fb = Inr fb' \<and> ?c fb' \<and>
        (\<forall>x<fb_width fb. \<forall>y<fb_height fb. getpixel fb' x y =
          (if (x, y) \<in> ?dst ` set ?ps then scrolled xstep ystep fb (x, y) else getpixel fb x y))"
    proof (rule copy_loop [OF fb])
      fix bef p aft fb1
      assume ps: "?ps = bef @ p # aft" and fb1: "?c fb1"
        "\<forall>x<fb_width fb. \<forall>y<fb_height fb. getpixel fb1 x y =
          (if (x, y) \<in> ?dst ` set bef then scrolled xstep ystep fb (x, y) else getpixel fb x y)"
      obtain y x where p: "p = (y, x)" by (cases p)
      have "p \<in> set ?ps" unfolding ps by simp
      then have b: "?in (fb_width fb) xstep x" "?in (fb_height fb) ystep y" using X Y p by auto
      have "(nat (x - xstep), nat (y - ystep)) \<notin> ?dst ` set bef"
      proof
        assume "(nat (x - xstep), nat (y - ystep)) \<in> ?dst ` set bef"
        then obtain y' x' where q: "(y', x') \<in> set bef" "nat (x - xstep) = nat x'" "nat (y - ystep) = nat y'" by auto
        moreover have "(y', x') \<in> set ?ps" unfolding ps using q(1) by simp
        then have "0 \<le> x'" "0 \<le> y'" using X Y by auto
        ultimately have "y' = y - ystep" "x' = x - xstep" using b by (simp_all add: eq_nat_nat_iff)
        then show False using order q(1) p unfolding ps by (auto simp: sorted_wrt_append)
      qed
      moreover have "nat (x - xstep) < fb_width fb" "nat (y - ystep) < fb_height fb"
        using b by (simp_all add: nat_less_iff)
      ultimately have "getpixel fb1 (nat (x - xstep)) (nat (y - ystep)) = scrolled xstep ystep fb (?dst p)"
        using fb1(2) b unfolding scrolled_def p by simp
      then show "\<exists>fb2. (case p of (y, x) \<Rightarrow> scroll_pixel xstep ystep y x) fb1 = Inr fb2 \<and> ?c fb2 \<and>
          (\<forall>x<fb_width fb. \<forall>y<fb_height fb. getpixel fb2 x y =
            (if (x, y) = ?dst p then scrolled xstep ystep fb (x, y) else getpixel fb1 x y))"
        using scroll_pixel_ok [OF fb1(1), of x xstep y ystep] b by (auto simp: p)
    qed
    moreover have "(x, y) \<in> ?dst ` set ?ps \<longleftrightarrow> inside fb (int x - xstep) (int y - ystep)"
      if "x < fb_width fb" "y < fb_height fb" for x y
    proof -
      have "(x, y) \<in> ?dst ` set ?ps \<longleftrightarrow> int x \<in> set xs \<and> int y \<in> set ys"
      proof
        assume "(x, y) \<in> ?dst ` set ?ps"
        then obtain y' x' where "x' \<in> set xs" "y' \<in> set ys" "x = nat x'" "y = nat y'" by auto
        then show "int x \<in> set xs \<and> int y \<in> set ys" using X Y by simp
      next
        assume "int x \<in> set xs \<and> int y \<in> set ys"
        then show "(x, y) \<in> ?dst ` set ?ps" by (intro image_eqI [of _ _ "(int y, int x)"]) auto
      qed
      then show ?thesis using X Y that by (auto simp: inside_def)
    qed
    ultimately show ?thesis
      using r by (simp add: framebuf_scroll_def for_each_nested) (auto simp: is_canvas_def drawable_def)
  qed
qed

section \<open>Copying from another frame buffer\<close>

definition blitted :: "framebuf \<Rightarrow> int \<Rightarrow> int \<Rightarrow> color \<Rightarrow> framebuf \<Rightarrow> nat \<times> nat \<Rightarrow> color fb_result" where
  "blitted src x y key fb p =
    (case getpixel src (nat (int (fst p) - x)) (nat (int (snd p) - y)) of
       Inr c \<Rightarrow> if c \<noteq> key then Inr (ucast (pix_value (fb_format fb) c)) else getpixel fb (fst p) (snd p)
     | Inl e \<Rightarrow> Inl e)"

lemma blit_pixel_ok:
  assumes "is_canvas n w h st f fb1" "drawable src" "cx1 < fb_width src" "y1 < fb_height src" "cx0 < w" "y0 < h"
  obtains c fb2 where "getpixel src cx1 y1 = Inr c" "blit_pixel (False, src) None key cx1 y1 cx0 y0 fb1 = Inr fb2"
    "is_canvas n w h st f fb2" "\<forall>x'<w. \<forall>y'<h. getpixel fb2 x' y' =
      (if x' = cx0 \<and> y' = y0 \<and> c \<noteq> key then Inr (ucast (pix_value f c)) else getpixel fb1 x' y')"
proof -
  obtain c where c: "getpixel src cx1 y1 = Inr c" using getpixel_norm [OF assms(2-4)] by blast
  obtain fb2 where fb2: "setpixel cx0 y0 c fb1 = Inr fb2" "is_canvas n w h st f fb2"
    "\<forall>x'<w. \<forall>y'<h. getpixel fb2 x' y' =
      (if x' = cx0 \<and> y' = y0 then Inr (ucast (pix_value f c)) else getpixel fb1 x' y')"
    using px.put_ok [OF assms(1,5,6)] by blast
  have "blit_pixel (False, src) None key cx1 y1 cx0 y0 fb1 = (if c \<noteq> key then setpixel cx0 y0 c fb1 else Inr fb1)"
    by (simp add: blit_pixel_def source_view_def c)
  then show thesis using that [OF c, of "if c \<noteq> key then fb2 else fb1"] fb2 assms(1) by auto
qed

lemma clip_axis:
  assumes "x' < n"
  shows "nat (max 0 x) \<le> x' \<and> x' < nat (max 0 x) + nat (min (int n) (x + int m) - max 0 x) \<longleftrightarrow>
    0 \<le> int x' - x \<and> int x' - x < int m"
  using assms by (cases "x \<le> 0"; cases "int n \<le> x + int m") auto

lemma blit_loop_ok:
  assumes fb: "drawable fb" and src: "drawable src" "x < int (fb_width fb)" "y < int (fb_height fb)"
    "- x < int (fb_width src)" "- y < int (fb_height src)"
  defines "x0 \<equiv> nat (max 0 x)" and "y0 \<equiv> nat (max 0 y)" and "x1 \<equiv> nat (max 0 (- x))" and "y1 \<equiv> nat (max 0 (- y))"
    and "nx \<equiv> nat (min (int (fb_width fb)) (x + int (fb_width src)) - max 0 x)"
    and "ny \<equiv> nat (min (int (fb_height fb)) (y + int (fb_height src)) - max 0 y)"
  shows "\<exists>fb'. for_each (\<lambda>r. for_each (\<lambda>c. blit_pixel (False, src) None key (x1 + c) (y1 + r) (x0 + c) (y0 + r)) [0..<nx]) [0..<ny] fb
      = Inr fb' \<and> drawable fb' \<and>
    (\<forall>x'<fb_width fb. \<forall>y'<fb_height fb. getpixel fb' x' y' =
      (if inside src (int x' - x) (int y' - y) then blitted src x y key fb (x', y') else getpixel fb x' y'))"
proof -
  let ?c = "is_canvas (length (fb_buf fb)) (fb_width fb) (fb_height fb) (fb_stride fb) (fb_format fb)"
  let ?ps = "List.product [0..<ny] [0..<nx]" and ?dst = "\<lambda>(r, c). (x0 + c, y0 + r)"
  let ?f = "\<lambda>(r, c). blit_pixel (False, src) None key (x1 + c) (y1 + r) (x0 + c) (y0 + r)"
  have "\<exists>fb'. for_each ?f ?ps fb = Inr fb' \<and> ?c fb' \<and>
      (\<forall>x'<fb_width fb. \<forall>y'<fb_height fb. getpixel fb' x' y' =
        (if (x', y') \<in> ?dst ` set ?ps then blitted src x y key fb (x', y') else getpixel fb x' y'))"
  proof (rule copy_loop [OF fb])
    fix bef p aft fb1
    assume ps: "?ps = bef @ p # aft" and fb1: "?c fb1"
      "\<forall>x'<fb_width fb. \<forall>y'<fb_height fb. getpixel fb1 x' y' =
        (if (x', y') \<in> ?dst ` set bef then blitted src x y key fb (x', y') else getpixel fb x' y')"
    obtain r c where p: "p = (r, c)" by (cases p)
    have "p \<in> set ?ps" unfolding ps by simp
    then have rc: "r < ny" "c < nx" using p by auto
    then have b: "x1 + c < fb_width src" "y1 + r < fb_height src" "x0 + c < fb_width fb" "y0 + r < fb_height fb"
      unfolding x0_def y0_def x1_def y1_def nx_def ny_def by linarith+
    have at: "nat (int (x0 + c) - x) = x1 + c" "nat (int (y0 + r) - y) = y1 + r"
      unfolding x0_def y0_def x1_def y1_def by linarith+
    obtain col fb2 where fb2: "getpixel src (x1 + c) (y1 + r) = Inr col" "?f p fb1 = Inr fb2" "?c fb2"
      "\<forall>x'<fb_width fb. \<forall>y'<fb_height fb. getpixel fb2 x' y' =
        (if x' = x0 + c \<and> y' = y0 + r \<and> col \<noteq> key then Inr (ucast (pix_value (fb_format fb) col)) else getpixel fb1 x' y')"
      using blit_pixel_ok [OF fb1(1) src(1) b, of key] p by auto
    have new: "blitted src x y key fb (x0 + c, y0 + r) =
        (if col \<noteq> key then Inr (ucast (pix_value (fb_format fb) col)) else getpixel fb (x0 + c) (y0 + r))"
      by (simp add: blitted_def at [simplified] fb2(1))
    have "getpixel fb2 x' y' = (if (x', y') = ?dst p then blitted src x y key fb (x', y') else getpixel fb1 x' y')"
      if "x' < fb_width fb" "y' < fb_height fb" for x' y'
    proof (cases "(x', y') = (x0 + c, y0 + r)")
      case True
      then show ?thesis using fb2(4) fb1(2) b new p by (auto split: if_splits)
    next
      case False
      then show ?thesis using fb2(4) that p by auto
    qed
    then show "\<exists>fb2. ?f p fb1 = Inr fb2 \<and> ?c fb2 \<and> (\<forall>x'<fb_width fb. \<forall>y'<fb_height fb. getpixel fb2 x' y' =
        (if (x', y') = ?dst p then blitted src x y key fb (x', y') else getpixel fb1 x' y'))"
      using fb2(2,3) by blast
  qed
  moreover have "(x', y') \<in> ?dst ` set ?ps \<longleftrightarrow> inside src (int x' - x) (int y' - y)"
    if xy: "x' < fb_width fb" "y' < fb_height fb" for x' y'
  proof -
    have "(x', y') \<in> ?dst ` set ?ps \<longleftrightarrow> x0 \<le> x' \<and> x' < x0 + nx \<and> y0 \<le> y' \<and> y' < y0 + ny"
      by (auto intro!: image_eqI [of _ _ "(y' - y0, x' - x0)"])
    also have "\<dots> \<longleftrightarrow> inside src (int x' - x) (int y' - y)"
      using clip_axis [OF xy(1)] clip_axis [OF xy(2)] unfolding inside_def x0_def y0_def nx_def ny_def by blast
    finally show ?thesis .
  qed
  ultimately show ?thesis
    by (simp add: for_each_nested) (auto simp: is_canvas_def drawable_def)
qed

section \<open>Properties\<close>

text \<open>
  Text never leaves the frame buffer or the font table and paints exactly the set bits of
  the glyphs of the characters before the terminating zero, eight columns for each character;
  a character outside the font is shown as the last glyph.
\<close>

theorem framebuf_text_correct:
  assumes "drawable fb"
  shows "\<exists>fb'. framebuf_text str x0 y0 col fb = Inr fb' \<and> drawable fb' \<and>
    (\<forall>x<fb_width fb. \<forall>y<fb_height fb. getpixel fb' x y =
      (if (int x, int y) \<in> glyph_points (takeWhile (\<lambda>c. c \<noteq> 0) str) x0 y0
       then Inr (ucast (pix_value (fb_format fb) col)) else getpixel fb x y))"
  by (rule paintsD [OF framebuf_text_ok [OF assms]]) simp

theorem framebuf_text_correct_witness:
  "\<exists>fb'. framebuf_text [33, 0, 65] 0 2 1 screen = Inr fb' \<and> getpixel fb' 3 5 = Inr 1"
proof -
  have "font_petme128_8x8 ! 11 = 0x4f" by (simp add: font_petme128_8x8_def)
  then have "(int 3, int 5) \<in> glyph_points [33] 0 2"
    by (auto simp: glyph_points_def font_char_def bit_iff_odd intro!: exI [of _ 0] exI [of _ 3])
  then show ?thesis
    using framebuf_text_correct [OF screen_drawable, of "[33, 0, 65]" 0 2 1] by (auto simp: pix_value_def)
qed

text \<open>
  C27. Scrolling in place moves every pixel whose source is inside the frame buffer, for steps
  of any sign and size: each such pixel is the old value of its source, although sources and
  targets overlap; the other pixels keep their values.
\<close>

theorem framebuf_scroll_correct:
  assumes "drawable fb"
  shows "\<exists>fb'. framebuf_scroll xstep ystep fb = Inr fb' \<and> drawable fb' \<and>
    (\<forall>x<fb_width fb. \<forall>y<fb_height fb. getpixel fb' x y =
      (if 0 \<le> int x - xstep \<and> int x - xstep < int (fb_width fb) \<and>
          0 \<le> int y - ystep \<and> int y - ystep < int (fb_height fb)
       then getpixel fb (nat (int x - xstep)) (nat (int y - ystep)) else getpixel fb x y))"
  using scroll_ok [OF assms, of xstep ystep] unfolding inside_def scrolled_def fst_conv snd_conv .

definition dotted :: framebuf where
  "dotted = screen\<lparr>fb_buf := (replicate 16 0)[2 := 4]\<rparr>"

lemma dotted_drawable: "drawable dotted"
  using screen_drawable by (simp add: dotted_def drawable_def fb_wf_def screen_def)

lemma dotted_fields: "fb_width dotted = 8" "fb_height dotted = 16" "getpixel dotted 2 2 = Inr 1"
proof -
  have "((replicate 16 0)[2 := 4] ! Suc (Suc 0) :: byte) = 4" unfolding numeral_2_eq_2 by simp
  then show "getpixel dotted 2 2 = Inr 1"
    by (simp add: dotted_def screen_def getpixel_def mvlsb_getpixel_def read_at_def u32_def)
qed (simp_all add: dotted_def)

theorem framebuf_scroll_correct_witness:
  "\<exists>fb'. framebuf_scroll 3 1 dotted = Inr fb' \<and> getpixel fb' 5 3 = Inr 1"
proof -
  note dotted_fields
  moreover obtain fb' where "framebuf_scroll 3 1 dotted = Inr fb'"
    "\<forall>x<fb_width dotted. \<forall>y<fb_height dotted. getpixel fb' x y =
      (if 0 \<le> int x - 3 \<and> int x - 3 < int (fb_width dotted) \<and> 0 \<le> int y - 1 \<and> int y - 1 < int (fb_height dotted)
       then getpixel dotted (nat (int x - 3)) (nat (int y - 1)) else getpixel dotted x y)"
    using framebuf_scroll_correct [OF dotted_drawable, of 3 1] by blast
  ultimately show ?thesis by (intro exI [of _ fb']) simp
qed

text \<open>
  C28. Copying from another frame buffer, of any of the five formats and at any position,
  gives each covered pixel the colour of the source pixel, reduced to the format of the
  target, unless that colour is the key, and changes no other pixel; neither buffer is left.
\<close>

theorem framebuf_blit_correct:
  assumes "drawable fb" "get_readonly_framebuffer source = Inr (False, src)" "drawable src"
  shows "\<exists>fb'. framebuf_blit source x y (Some key) None fb = Inr fb' \<and> drawable fb' \<and>
    (\<forall>x'<fb_width fb. \<forall>y'<fb_height fb. getpixel fb' x' y' =
      (if 0 \<le> int x' - x \<and> int x' - x < int (fb_width src) \<and> 0 \<le> int y' - y \<and> int y' - y < int (fb_height src)
       then case getpixel src (nat (int x' - x)) (nat (int y' - y)) of
           Inr c \<Rightarrow> if c \<noteq> key then Inr (ucast (pix_value (fb_format fb) c)) else getpixel fb x' y'
         | Inl e \<Rightarrow> Inl e
       else getpixel fb x' y'))"
proof -
  let ?fb = "begin_frame fb"
  have s: "fb_width ?fb = fb_width fb" "fb_height ?fb = fb_height fb" "fb_format ?fb = fb_format fb"
    by (simp_all add: begin_frame_def)
  have g: "getpixel ?fb = getpixel fb" by (rule getpixel_cong) (simp_all add: begin_frame_def)
  show ?thesis
  proof (cases "x \<ge> int (fb_width fb) \<or> y \<ge> int (fb_height fb) \<or> - x \<ge> int (fb_width src) \<or> - y \<ge> int (fb_height src)")
    case True
    then have "framebuf_blit source x y (Some key) None fb = Inr ?fb"
      using assms(2) s by (simp add: framebuf_blit_def Let_def)
    moreover have "\<not> (0 \<le> int x' - x \<and> int x' - x < int (fb_width src) \<and> 0 \<le> int y' - y \<and> int y' - y < int (fb_height src))"
      if "x' < fb_width fb" "y' < fb_height fb" for x' y'
      using True that by linarith
    ultimately show ?thesis using assms(1) g by auto
  next
    case False
    have "framebuf_blit source x y (Some key) None fb =
      for_each (\<lambda>r. for_each (\<lambda>c. blit_pixel (False, src) None key (nat (max 0 (- x)) + c) (nat (max 0 (- y)) + r)
          (nat (max 0 x) + c) (nat (max 0 y) + r))
        [0..<nat (min (int (fb_width fb)) (x + int (fb_width src)) - max 0 x)])
        [0..<nat (min (int (fb_height fb)) (y + int (fb_height src)) - max 0 y)] ?fb"
      using False assms(2) s by (simp add: framebuf_blit_def Let_def)
    moreover have "drawable ?fb" "x < int (fb_width ?fb)" "y < int (fb_height ?fb)"
      "- x < int (fb_width src)" "- y < int (fb_height src)"
      using assms(1) False s by simp_all
    note blit_loop_ok [OF this(1) assms(3) this(2-), of key]
    ultimately show ?thesis unfolding s g inside_def blitted_def fst_conv snd_conv by (simp only:)
  qed
qed

theorem framebuf_blit_correct_witness:
  "\<exists>fb'. framebuf_blit (Fb_Object False dotted) 3 4 (Some 0) None screen = Inr fb' \<and> getpixel fb' 5 6 = Inr 1"
proof -
  note dotted_fields
  moreover have "get_readonly_framebuffer (Fb_Object False dotted) = Inr (False, dotted)" by simp
  note framebuf_blit_correct [OF screen_drawable this dotted_drawable, of 3 4 0]
  then obtain fb' where "framebuf_blit (Fb_Object False dotted) 3 4 (Some 0) None screen = Inr fb'"
    "\<forall>x'<fb_width screen. \<forall>y'<fb_height screen. getpixel fb' x' y' =
      (if 0 \<le> int x' - 3 \<and> int x' - 3 < int (fb_width dotted) \<and> 0 \<le> int y' - 4 \<and> int y' - 4 < int (fb_height dotted)
       then case getpixel dotted (nat (int x' - 3)) (nat (int y' - 4)) of
           Inr c \<Rightarrow> if c \<noteq> 0 then Inr (ucast (pix_value (fb_format screen) c)) else getpixel screen x' y'
         | Inl e \<Rightarrow> Inl e
       else getpixel screen x' y')" by blast
  ultimately show ?thesis by (intro exI [of _ fb']) (simp add: pix_value_def)
qed

end
