(* ===== verification/Timeutils.thy ===== *)
theory Timeutils
  imports Prelude
begin

text \<open>
  Calendar arithmetic (\<^verbatim>\<open>shared/timeutils/timeutils.c\<close>): leap years, days of months and
  years, the broken-down time of a number of seconds since 2000-01-01, the number of seconds
  of a date, and the normalising \<^verbatim>\<open>mktime\<close>.  Machine words have 32 bits; an unsigned value
  is an integer modulo \<open>2 ^ 32\<close>.
\<close>

section \<open>Model\<close>

definition mp_uint :: "int \<Rightarrow> int" where
  "mp_uint x = x mod 2 ^ 32"

definition LEAPOCH :: int where "LEAPOCH = (31 + 29) * 86400"
definition DAYS_PER_400Y :: int where "DAYS_PER_400Y = 365 * 400 + 97"
definition DAYS_PER_100Y :: int where "DAYS_PER_100Y = 365 * 100 + 24"
definition DAYS_PER_4Y :: int where "DAYS_PER_4Y = 365 * 4 + 1"

definition days_since_jan1 :: "int list" where
  "days_since_jan1 = [0, 31, 59, 90, 120, 151, 181, 212, 243, 273, 304, 334, 365]"

record struct_time =
  tm_year :: int
  tm_mon :: int
  tm_mday :: int
  tm_hour :: int
  tm_min :: int
  tm_sec :: int
  tm_wday :: int
  tm_yday :: int

definition timeutils_is_leap_year :: "int \<Rightarrow> bool" where
  "timeutils_is_leap_year year \<longleftrightarrow> (year mod 4 = 0 \<and> year mod 100 \<noteq> 0) \<or> year mod 400 = 0"

text \<open>The month is one of 1 to 12.\<close>

definition timeutils_days_in_month :: "int \<Rightarrow> int \<Rightarrow> int" where
  "timeutils_days_in_month year month =
    (let mdays = days_since_jan1 ! nat month - days_since_jan1 ! nat (month - 1)
     in if month = 2 \<and> timeutils_is_leap_year year then mdays + 1 else mdays)"

definition timeutils_year_day :: "int \<Rightarrow> int \<Rightarrow> int \<Rightarrow> int" where
  "timeutils_year_day year month date =
    (let yday = days_since_jan1 ! nat (month - 1) + date
     in if month \<ge> 3 \<and> timeutils_is_leap_year year then yday + 1 else yday)"

text \<open>The search of the month, over the table of days from March on; \<open>None\<close> is a read past its end.\<close>

definition days_in_month :: "int list" where
  "days_in_month = [31, 30, 31, 30, 31, 31, 30, 31, 30, 31, 31, 29]"

fun month_loop :: "int list \<Rightarrow> int \<Rightarrow> int \<Rightarrow> (int \<times> int) option" where
  "month_loop [] month days = None"
| "month_loop (d # ds) month days = (if d \<le> days then month_loop ds (month + 1) (days - d) else Some (month, days))"

definition split_days :: "int \<Rightarrow> (int \<times> int) option \<times> int" where
  "split_days days =
    (let qc_cycles = c_div days DAYS_PER_400Y;
         days = c_rem days DAYS_PER_400Y;
         (days, qc_cycles) = (if days < 0 then (days + DAYS_PER_400Y, qc_cycles - 1) else (days, qc_cycles));
         c_cycles = c_div days DAYS_PER_100Y;
         c_cycles = (if c_cycles = 4 then c_cycles - 1 else c_cycles);
         days = days - c_cycles * DAYS_PER_100Y;
         q_cycles = c_div days DAYS_PER_4Y;
         q_cycles = (if q_cycles = 25 then q_cycles - 1 else q_cycles);
         days = days - q_cycles * DAYS_PER_4Y;
         years = c_div days 365;
         years = (if years = 4 then years - 1 else years);
         days = days - years * 365
     in (month_loop days_in_month 0 days, 2000 + years + 4 * q_cycles + 100 * c_cycles + 400 * qc_cycles))"

definition timeutils_seconds_since_2000_to_struct_time :: "int \<Rightarrow> struct_time option" where
  "timeutils_seconds_since_2000_to_struct_time t =
    (let seconds = s32 (t - LEAPOCH);
         days = c_div seconds 86400;
         seconds = c_rem seconds 86400;
         (seconds, days) = (if seconds < 0 then (seconds + 86400, days - 1) else (seconds, days));
         wday = c_rem (days + 2) 7;
         wday = (if wday < 0 then wday + 7 else wday)
     in case split_days days of
          (None, year) \<Rightarrow> None
        | (Some (month, mday), year) \<Rightarrow>
            (let mon = month + 2;
                 (mon, year) = (if mon \<ge> 12 then (mon - 12, year + 1) else (mon, year))
             in Some \<lparr>tm_year = year, tm_mon = mon + 1, tm_mday = mday + 1, tm_hour = c_div seconds 3600,
                  tm_min = c_rem (c_div seconds 60) 60, tm_sec = c_rem seconds 60, tm_wday = wday,
                  tm_yday = timeutils_year_day year (mon + 1) (mday + 1)\<rparr>))"

definition timeutils_seconds_since_2000 :: "int \<Rightarrow> int \<Rightarrow> int \<Rightarrow> int \<Rightarrow> int \<Rightarrow> int \<Rightarrow> int" where
  "timeutils_seconds_since_2000 year month date hour minute second =
    mp_uint (second + minute * 60 + hour * 3600
      + (timeutils_year_day year month date - 1
          + mp_uint (year - 2000 + 3) div 4
          - mp_uint (year - 2000 + 99) div 100
          + mp_uint (year - 2000 + 399) div 400) * 86400
      + mp_uint (year - 2000) * 31536000)"

text \<open>The loops of \<^verbatim>\<open>mktime\<close> that bring the day into its month.\<close>

definition prev_month :: "int \<times> int \<Rightarrow> int \<times> int" where
  "prev_month ym = (case ym of (year, month) \<Rightarrow> if month - 1 = 0 then (mp_uint (year - 1), 12) else (year, month - 1))"

definition next_month :: "int \<times> int \<Rightarrow> int \<times> int" where
  "next_month ym = (case ym of (year, month) \<Rightarrow> if month + 1 = 13 then (mp_uint (year + 1), 1) else (year, month + 1))"

abbreviation month_length :: "int \<times> int \<Rightarrow> int" where
  "month_length ym \<equiv> timeutils_days_in_month (fst ym) (snd ym)"

text \<open>Months have at least 28 days.\<close>

lemma month_cases:
  "1 \<le> (m :: int) \<Longrightarrow> m \<le> 12 \<Longrightarrow> m = 1 \<or> m = 2 \<or> m = 3 \<or> m = 4 \<or> m = 5 \<or> m = 6 \<or> m = 7 \<or> m = 8 \<or> m = 9 \<or>
    m = 10 \<or> m = 11 \<or> m = 12"
  by presburger

lemma month_length_bounds:
  assumes "1 \<le> snd ym" "snd ym \<le> 12"
  shows "28 \<le> month_length ym" "month_length ym \<le> 31"
proof -
  show "28 \<le> month_length ym" "month_length ym \<le> 31"
    using month_cases [OF assms] by (auto simp: timeutils_days_in_month_def days_since_jan1_def Let_def)
qed

lemma prev_next_range:
  "1 \<le> snd ym \<Longrightarrow> snd ym \<le> 12 \<Longrightarrow> 1 \<le> snd (prev_month ym) \<and> snd (prev_month ym) \<le> 12"
  "1 \<le> snd ym \<Longrightarrow> snd ym \<le> 12 \<Longrightarrow> 1 \<le> snd (next_month ym) \<and> snd (next_month ym) \<le> 12"
  by (auto simp: prev_month_def next_month_def split: prod.splits)

text \<open>The month stays within 1 to 12, which the loops are entered with.\<close>

function days_up :: "int \<times> int \<Rightarrow> int \<Rightarrow> (int \<times> int) \<times> int" where
  "days_up ym mday =
    (if mday < 1 \<and> 1 \<le> snd ym \<and> snd ym \<le> 12
     then days_up (prev_month ym) (mday + month_length (prev_month ym)) else (ym, mday))"
  by pat_completeness auto
termination
proof (relation "measure (\<lambda>(ym, mday). nat (1 - mday))", goal_cases)
  case (2 ym mday)
  then have "28 \<le> month_length (prev_month ym)"
    using month_length_bounds(1) [of "prev_month ym"] prev_next_range(1) [of ym] by simp
  then show ?case using 2 by auto
qed simp

function days_down :: "int \<times> int \<Rightarrow> int \<Rightarrow> (int \<times> int) \<times> int" where
  "days_down ym mday =
    (if mday > month_length ym \<and> 1 \<le> snd ym \<and> snd ym \<le> 12
     then days_down (next_month ym) (mday - month_length ym) else (ym, mday))"
  by pat_completeness auto
termination
proof (relation "measure (\<lambda>(ym, mday). nat mday)", goal_cases)
  case (2 ym mday)
  then have "28 \<le> month_length ym" using month_length_bounds(1) [of ym] by simp
  then show ?case using 2 by auto
qed simp

declare days_up.simps [simp del] days_down.simps [simp del]

text \<open>\<^verbatim>\<open>hi += lo / n; if ((lo = lo % n) < 0) { lo += n; hi--; }\<close>.\<close>

definition carry :: "int \<Rightarrow> int \<Rightarrow> int \<Rightarrow> int \<times> int" where
  "carry n hi lo =
    (let hi = hi + c_div lo n; lo = c_rem lo n in if lo < 0 then (hi - 1, lo + n) else (hi, lo))"

definition timeutils_mktime_2000 :: "int \<Rightarrow> int \<Rightarrow> int \<Rightarrow> int \<Rightarrow> int \<Rightarrow> int \<Rightarrow> int" where
  "timeutils_mktime_2000 year month mday hours minutes seconds =
    (let (minutes, seconds) = carry 60 minutes seconds;
         (hours, minutes) = carry 60 hours minutes;
         (mday, hours) = carry 24 mday hours;
         (year, month) = carry 12 year (month - 1);
         (ym, mday) = days_up (mp_uint year, month + 1) mday;
         (ym, mday) = days_down ym mday
     in timeutils_seconds_since_2000 (fst ym) (snd ym) mday hours minutes seconds)"

definition timeutils_calc_weekday :: "int \<Rightarrow> int \<Rightarrow> int \<Rightarrow> int" where
  "timeutils_calc_weekday y m d =
    (let (d, y) = (if m < 3 then (d + y, y - 1) else (d + (y - 2), y))
     in c_rem (c_div (23 * m) 9 + d + 4 + c_div y 4 - c_div y 100 + c_div y 400 + 6) 7)"

section \<open>Truncating and floor division\<close>

lemma c_div_rem_neg:
  assumes "a < 0" "0 < n"
  shows "c_div a n = - (- a div n)" "c_rem a n = - (- a mod n)"
proof -
  show d: "c_div a n = - (- a div n)" using assms by (simp add: c_div_def)
  show "c_rem a n = - (- a mod n)"
    unfolding c_rem_def d using minus_div_mult_eq_mod [of "- a" n] by simp
qed

lemma carry_eq: "0 < n \<Longrightarrow> carry n hi lo = (hi + lo div n, lo mod n)"
proof (cases "lo < 0")
  case True
  assume n: "0 < n"
  have m: "- lo mod n = 0 \<or> - lo mod n > 0" using pos_mod_sign [OF n, of "- lo"] by linarith
  show ?thesis
    using zdiv_zminus1_eq_if [of n "- lo"] zmod_zminus1_eq_if [of "- lo" n] n m c_div_rem_neg [OF True n]
    by (auto simp: carry_def Let_def)
qed (simp add: carry_def Let_def c_div_nonneg c_rem_nonneg not_less)

lemma floor_step:
  "0 < n \<Longrightarrow> (if c_rem a n < 0 then (c_rem a n + n, c_div a n - 1) else (c_rem a n, c_div a n)) = (a mod n, a div n)"
  using carry_eq [of n 0 a] by (auto simp: carry_def Let_def split: if_splits)

section \<open>Days\<close>

text \<open>The day number of a date, counted from 2000-01-01, in the proleptic Gregorian calendar.\<close>

definition days_before_year :: "int \<Rightarrow> int" where
  "days_before_year y = 365 * (y - 2000) + (y - 2000 + 3) div 4 - (y - 2000 + 99) div 100 + (y - 2000 + 399) div 400"

definition day_number :: "int \<times> int \<Rightarrow> int \<Rightarrow> int" where
  "day_number ym d = days_before_year (fst ym) + timeutils_year_day (fst ym) (snd ym) d - 1"

lemma ceil_div_step:
  assumes "0 < k"
  shows "(n + 1 + (k - 1)) div k = (n + (k - 1)) div k + of_bool (k dvd (n :: int))"
proof -
  obtain q r where n: "n = k * q + r" "0 \<le> r" "r < k"
    using mult_div_mod_eq [of k n] pos_mod_sign [OF assms, of n] pos_mod_bound [OF assms, of n] by metis
  have a: "(n + 1 + (k - 1)) div k = q + 1" using n assms by (simp add: add.assoc div_add_self2 div_pos_pos_trivial)
  have dvd: "k dvd n \<longleftrightarrow> r = 0"
    using n assms by (metis dvd_add_right_iff dvd_triv_left zdvd_not_zless dvd_0_right order_le_less)
  show ?thesis
  proof (cases "r = 0")
    case True
    then have "(n + (k - 1)) div k = q" using n assms by (simp add: div_pos_pos_trivial)
    then show ?thesis using a dvd True by simp
  next
    case False
    have "(n + (k - 1)) div k = q + 1"
      using n False by (intro int_div_pos_eq [of _ _ _ "r - 1"]) (auto simp: algebra_simps)
    then show ?thesis using a dvd False by simp
  qed
qed

lemma leap_bool: "of_bool (timeutils_is_leap_year y) = of_bool (4 dvd y) - of_bool (100 dvd y) + (of_bool (400 dvd y) :: int)"
proof -
  have "400 dvd y \<longrightarrow> 100 dvd y" "100 dvd y \<longrightarrow> 4 dvd y"
    using dvd_trans [of 100 400 y] dvd_trans [of 4 100 y] by simp_all
  moreover have "timeutils_is_leap_year y \<longleftrightarrow> (4 dvd y \<and> \<not> 100 dvd y) \<or> 400 dvd y"
    by (simp add: timeutils_is_leap_year_def dvd_eq_mod_eq_0)
  ultimately show ?thesis by (cases "4 dvd y"; cases "100 dvd y"; cases "400 dvd y") simp_all
qed

lemma days_before_year_Suc: "days_before_year (y + 1) = days_before_year y + 365 + of_bool (timeutils_is_leap_year y)"
proof -
  have "4 dvd (y - 2000) \<longleftrightarrow> 4 dvd y" "100 dvd (y - 2000) \<longleftrightarrow> 100 dvd y" "400 dvd (y - 2000) \<longleftrightarrow> 400 dvd y"
    by (simp_all add: dvd_diff_left_iff)
  then show ?thesis
    using ceil_div_step [of 4 "y - 2000"] ceil_div_step [of 100 "y - 2000"] ceil_div_step [of 400 "y - 2000"]
    unfolding leap_bool days_before_year_def by (simp add: algebra_simps)
qed

lemma year_day_shift: "timeutils_year_day y m (d + k) = timeutils_year_day y m d + k"
  by (simp add: timeutils_year_day_def Let_def)

lemma day_number_shift: "day_number ym (d + k) = day_number ym d + k"
  by (simp add: day_number_def year_day_shift)

lemma day_number_next:
  assumes "1 \<le> snd ym" "snd ym \<le> 12" "0 \<le> fst ym" "snd ym = 12 \<longrightarrow> fst ym < 2 ^ 32 - 1"
  shows "day_number (next_month ym) d = day_number ym (d + month_length ym)"
proof (cases "snd ym = 12")
  case True
  then have "next_month ym = (fst ym + 1, 1)"
    using assms by (cases ym) (simp add: next_month_def mp_uint_def)
  then show ?thesis
    using True days_before_year_Suc [of "fst ym"]
    by (simp add: day_number_def timeutils_year_day_def timeutils_days_in_month_def days_since_jan1_def Let_def)
next
  case False
  then have "next_month ym = (fst ym, snd ym + 1)" by (cases ym) (simp add: next_month_def)
  then show ?thesis
    using month_cases [OF assms(1,2)] False
    by (auto simp: day_number_def timeutils_year_day_def timeutils_days_in_month_def days_since_jan1_def Let_def)
qed

lemma next_prev_month:
  assumes "1 \<le> snd ym" "snd ym \<le> 12" "1 \<le> fst ym" "fst ym < 2 ^ 32"
  shows "next_month (prev_month ym) = ym"
  using assms by (auto simp: next_month_def prev_month_def mp_uint_def split: prod.splits)

section \<open>From seconds to a date\<close>

lemma month_search:
  assumes "0 \<le> r" "r \<le> 365"
  obtains m d where "month_loop days_in_month 0 r = Some (m, d)" "0 \<le> m" "m \<le> 11" "0 \<le> d" "d < days_in_month ! nat m"
    "r = d + (if m < 10 then days_since_jan1 ! nat (m + 2) - 59 else 306 + days_since_jan1 ! nat (m - 10))"
proof -
  define p where "p = month_loop days_in_month 0 r"
  have "\<exists>m d. p = Some (m, d) \<and> 0 \<le> m \<and> m \<le> 11 \<and> 0 \<le> d \<and> d < days_in_month ! nat m \<and>
    r = d + (if m < 10 then days_since_jan1 ! nat (m + 2) - 59 else 306 + days_since_jan1 ! nat (m - 10))"
    using assms unfolding p_def by (simp add: days_in_month_def days_since_jan1_def)
  then show thesis using that unfolding p_def by blast
qed

text \<open>The date that follows from the year that starts in March, the month in it and the day.\<close>

definition civil :: "int \<Rightarrow> int \<Rightarrow> int \<times> int" where
  "civil y m = (if m \<ge> 10 then (y + 1, m - 9) else (y, m + 3))"

lemma leap_century: "0 \<le> k \<Longrightarrow> k < 100 \<Longrightarrow> timeutils_is_leap_year (2000 + k) \<longleftrightarrow> k mod 4 = 0"
proof -
  assume k: "0 \<le> k" "k < 100"
  have "(2000 + k) mod 4 = k mod 4" "(2000 + k) mod 100 = k" "(2000 + k) mod 400 = k"
    using k mod_mult_self1 [of k 500 4] mod_mult_self1 [of k 20 100] mod_mult_self1 [of k 5 400]
    by (simp_all add: add.commute)
  then show ?thesis by (auto simp: timeutils_is_leap_year_def)
qed

lemma month_search_civil:
  assumes "0 \<le> years" "years \<le> 3" "0 \<le> q" "q \<le> 24" "0 \<le> r" "r \<le> 365" "r = 365 \<longrightarrow> years = 3 \<and> q < 24"
  obtains m d where "month_loop days_in_month 0 r = Some (m, d)" "0 \<le> m" "m \<le> 11" "0 \<le> d"
    "d < month_length (civil (2000 + years + 4 * q) m)"
    "day_number (civil (2000 + years + 4 * q) m) (d + 1) = 60 + r + 365 * years + 1461 * q"
proof -
  let ?y = "2000 + years + 4 * q"
  obtain m d where m: "month_loop days_in_month 0 r = Some (m, d)" "0 \<le> m" "m \<le> 11" "0 \<le> d" "d < days_in_month ! nat m"
    "r = d + (if m < 10 then days_since_jan1 ! nat (m + 2) - 59 else 306 + days_since_jan1 ! nat (m - 10))"
    using month_search [OF assms(5,6)] by metis
  have leap: "timeutils_is_leap_year ?y \<longleftrightarrow> years = 0"
    using leap_century [of "years + 4 * q"] assms(1-4) by (auto simp: add.assoc)
  have before: "days_before_year ?y = 365 * years + 1461 * q + of_bool (years \<noteq> 0)"
  proof -
    have "(years + 4 * q + 3) div 4 = q + of_bool (years \<noteq> 0)" using assms(1,2) by auto
    moreover have "(years + 4 * q + 99) div 100 = (years + 4 * q + 399) div 400"
      using assms(1-4) by (cases "years + 4 * q = 0") (simp_all add: div_pos_geq)
    ultimately show ?thesis by (simp add: days_before_year_def)
  qed
  have tab: "m < 10 \<Longrightarrow> timeutils_year_day y (m + 3) k = days_since_jan1 ! nat (m + 2) + k + of_bool (timeutils_is_leap_year y)"
    "m \<ge> 10 \<Longrightarrow> timeutils_year_day y (m - 9) k = days_since_jan1 ! nat (m - 10) + k" for y k
    using m(2,3) by (simp_all add: timeutils_year_day_def Let_def add.commute)
  have day: "day_number (civil ?y m) (d + 1) = 60 + r + 365 * years + 1461 * q"
  proof (cases "m < 10")
    case True
    then show ?thesis using tab(1) m(6) leap before by (simp add: civil_def day_number_def)
  next
    case False
    then show ?thesis
      using tab(2) m(6) leap before days_before_year_Suc [of ?y] by (simp add: civil_def day_number_def)
  qed
  have len: "d < month_length (civil ?y m)"
  proof (cases "m = 11")
    case False
    have "1 \<le> m + 1" "m + 1 \<le> 12" using m(2,3) by simp_all
    from month_cases [OF this] show ?thesis
      using False m(5) by (auto simp: civil_def timeutils_days_in_month_def days_in_month_def days_since_jan1_def Let_def)
  next
    case True
    then have "r = d + 337" using m(6) by (simp add: days_since_jan1_def)
    moreover have "timeutils_is_leap_year (?y + 1)" if "years = 3" "q < 24"
      using leap_century [of "4 + 4 * q"] that assms(3) by (simp add: add.assoc)
    moreover have "d < 29" using True m(5) by (simp add: days_in_month_def)
    ultimately show ?thesis
      using assms(6,7) True by (auto simp: civil_def timeutils_days_in_month_def days_since_jan1_def Let_def)
  qed
  show thesis by (rule that [OF m(1-4) len day])
qed

lemma split_days_ok:
  assumes "- 60 \<le> days" "days < 36524"
  obtains y m d where "split_days days = (Some (m, d), y)" "0 \<le> m" "m \<le> 11" "0 \<le> d" "d < month_length (civil y m)"
    "day_number (civil y m) (d + 1) = days + 60" "1999 \<le> y" "y \<le> 2099" "days < 0 \<longrightarrow> y = 1999 \<and> m \<ge> 10" "0 \<le> days \<longrightarrow> 2000 \<le> y"
proof (cases "0 \<le> days")
  case True
  define q where "q = days div 1461"
  define r where "r = days mod 1461"
  define years where "years = (if r div 365 = 4 then 3 else r div 365)"
  have dqr: "days = 1461 * q + r" "0 \<le> r" "r < 1461" by (simp_all add: q_def r_def)
  have q: "0 \<le> q" "q \<le> 24" using dqr True assms(2) by linarith+
  have y: "0 \<le> years" "years \<le> 3" "0 \<le> r - 365 * years" "r - 365 * years \<le> 365"
    "r - 365 * years = 365 \<longrightarrow> years = 3 \<and> q < 24"
    using dqr q assms(2) unfolding years_def by (auto split: if_splits)
  obtain m d where md: "month_loop days_in_month 0 (r - 365 * years) = Some (m, d)" "0 \<le> m" "m \<le> 11" "0 \<le> d"
    "d < month_length (civil (2000 + years + 4 * q) m)"
    "day_number (civil (2000 + years + 4 * q) m) (d + 1) = 60 + (r - 365 * years) + 365 * years + 1461 * q"
    using month_search_civil [OF y(1,2) q y(3-5)] by metis
  have z: "days div 146097 = 0" "days mod 146097 = days" "days div 36524 = 0" using True assms(2) by simp_all
  have "split_days days = (Some (m, d), 2000 + years + 4 * q)"
    using True z md(1) q dqr
    by (simp add: split_days_def Let_def DAYS_PER_400Y_def DAYS_PER_100Y_def DAYS_PER_4Y_def c_simps
        minus_div_mult_eq_mod [symmetric] flip: q_def) (auto simp: years_def c_simps ac_simps)
  then show thesis using that [of m d "2000 + years + 4 * q"] md q y(1,2) True dqr(1) by simp
next
  case False
  have r: "0 \<le> days + 366" "days + 366 \<le> 365" using False assms(1) by simp_all
  obtain m d where m: "month_loop days_in_month 0 (days + 366) = Some (m, d)" "0 \<le> m" "m \<le> 11" "0 \<le> d"
    "d < days_in_month ! nat m"
    "days + 366 = d + (if m < 10 then days_since_jan1 ! nat (m + 2) - 59 else 306 + days_since_jan1 ! nat (m - 10))"
    using month_search [OF r] by metis
  have "1 \<le> m + 1" "m + 1 \<le> 12" using m(2,3) by simp_all
  then have late: "m = 10 \<or> m = 11"
    using month_cases [of "m + 1"] m(5,6) assms(1) by (auto simp: days_in_month_def days_since_jan1_def)
  have "timeutils_is_leap_year 2000" by (simp add: timeutils_is_leap_year_def)
  then have c: "d < month_length (civil 1999 m)" "day_number (civil 1999 m) (d + 1) = days + 60"
    using late m(5,6) by (auto simp: civil_def timeutils_days_in_month_def days_in_month_def days_since_jan1_def
        Let_def day_number_def days_before_year_def timeutils_year_day_def)
  have f: "(days mod 146097, days div 146097) = (days + 146097, - 1)"
    using False assms(1) int_div_pos_eq [of days 146097 "- 1" "days + 146097"]
      int_mod_pos_eq [of days 146097 "- 1" "days + 146097"] by simp
  define cc where "cc = c_div (days + 146097) 36524"
  have "(days + 146097) div 36524 = 3 \<or> (days + 146097) div 36524 = 4" using False assms(1) by auto
  then have cc: "(if cc = 4 then cc - 1 else cc) = 3" using assms(1) by (auto simp: cc_def c_div_nonneg)
  have q: "c_div (days + 146097 - 3 * 36524) 1461 = 24" using False assms(1) by (simp add: c_div_nonneg)
  have "(1461 + days) div 365 = 3 \<or> (1461 + days) div 365 = 4" using False assms(1) by auto
  then have yy: "c_div (1461 + days) 365 = 3 \<or> c_div (1461 + days) 365 = 4" using assms(1) by (auto simp: c_div_nonneg)
  have D: "DAYS_PER_400Y = 146097" "DAYS_PER_100Y = 36524" "DAYS_PER_4Y = 1461"
    by (simp_all add: DAYS_PER_400Y_def DAYS_PER_100Y_def DAYS_PER_4Y_def)
  have fl: "(if c_rem days 146097 < 0 then (c_rem days 146097 + 146097, c_div days 146097 - 1)
      else (c_rem days 146097, c_div days 146097)) = (days + 146097, - 1)"
    using floor_step [of 146097 days] f by simp
  have "split_days days = (month_loop days_in_month 0 (days + 146097 - 3 * 36524 - 24 * 1461 - 3 * 365),
      2000 + 3 + 4 * 24 + 100 * 3 + 400 * (- 1))"
    unfolding split_days_def Let_def D fl prod.case cc_def [symmetric] cc q
    using yy by auto
  then have "split_days days = (Some (m, d), 1999)" using m(1) by (simp add: add.commute)
  moreover have "10 \<le> m" using late by auto
  ultimately show thesis using that [of m d 1999] m(2-4) c False by simp
qed

lemma seconds_since_2000_eq:
  assumes "2000 \<le> y" "y < 2 ^ 32"
  shows "timeutils_seconds_since_2000 y m d h mi sec =
    mp_uint (86400 * day_number (y, m) d + 3600 * h + 60 * mi + sec)"
proof -
  have u: "mp_uint (y - 2000 + k) = y - 2000 + k" if "0 \<le> k" "k \<le> 400" for k
    using that assms by (simp add: mp_uint_def)
  have u0: "mp_uint (y - 2000) = y - 2000" using u [of 0] by simp
  have "sec + mi * 60 + h * 3600 + (timeutils_year_day y m d - 1 + (y - 2000 + 3) div 4 - (y - 2000 + 99) div 100
      + (y - 2000 + 399) div 400) * 86400 + (y - 2000) * 31536000 =
    86400 * day_number (y, m) d + 3600 * h + 60 * mi + sec"
    unfolding day_number_def days_before_year_def fst_conv snd_conv by (simp only: algebra_simps)
  then show ?thesis unfolding timeutils_seconds_since_2000_def u0 by (simp only: u)
qed

lemma civil_range: "0 \<le> m \<Longrightarrow> m \<le> 11 \<Longrightarrow> 1 \<le> snd (civil y m) \<and> snd (civil y m) \<le> 12"
  by (simp add: civil_def)

lemma to_struct_time_ok:
  assumes "0 \<le> t" "t < 2 ^ 31 + LEAPOCH"
  obtains tm where "timeutils_seconds_since_2000_to_struct_time t = Some tm"
    "2000 \<le> tm_year tm" "tm_year tm \<le> 2100" "1 \<le> tm_mon tm" "tm_mon tm \<le> 12" "1 \<le> tm_mday tm"
    "tm_mday tm \<le> timeutils_days_in_month (tm_year tm) (tm_mon tm)"
    "tm_hour tm = t mod 86400 div 3600" "tm_min tm = t mod 86400 div 60 mod 60" "tm_sec tm = t mod 60"
    "tm_wday tm = (t div 86400 + 5) mod 7"
    "tm_yday tm = timeutils_year_day (tm_year tm) (tm_mon tm) (tm_mday tm)"
    "day_number (tm_year tm, tm_mon tm) (tm_mday tm) = t div 86400"
proof -
  have L: "LEAPOCH = 60 * 86400" by (simp add: LEAPOCH_def)
  have s: "s32 (t - LEAPOCH) = t - LEAPOCH" using assms by (simp add: s32_id L)
  define days where "days = t div 86400 - 60"
  have days: "(t - LEAPOCH) div 86400 = days" "(t - LEAPOCH) mod 86400 = t mod 86400"
    unfolding L days_def using div_mult_self1 [of 86400 t "- 60"] mod_mult_self1 [of t "- 60" 86400] by simp_all
  have fl: "(if c_rem (t - LEAPOCH) 86400 < 0 then (c_rem (t - LEAPOCH) 86400 + 86400, c_div (t - LEAPOCH) 86400 - 1)
      else (c_rem (t - LEAPOCH) 86400, c_div (t - LEAPOCH) 86400)) = (t mod 86400, days)"
    using floor_step [of 86400 "t - LEAPOCH"] days by simp
  have "t div 86400 \<le> (2 ^ 31 + 60 * 86400) div 86400" using assms(2) unfolding L by (intro zdiv_mono1) simp_all
  then have range: "- 60 \<le> days" "days < 36524" using assms(1) by (simp_all add: days_def)
  obtain y m d where sp: "split_days days = (Some (m, d), y)" "0 \<le> m" "m \<le> 11" "0 \<le> d" "d < month_length (civil y m)"
    "day_number (civil y m) (d + 1) = days + 60" "1999 \<le> y" "y \<le> 2099" "days < 0 \<longrightarrow> y = 1999 \<and> m \<ge> 10" "0 \<le> days \<longrightarrow> 2000 \<le> y"
    using split_days_ok [OF range] by metis
  have w: "(if c_rem (days + 2) 7 < 0 then c_rem (days + 2) 7 + 7 else c_rem (days + 2) 7) = (days + 2) mod 7"
    using floor_step [of 7 "days + 2"] by (auto split: if_splits)
  define mon where "mon = snd (civil y m)"
  define year where "year = fst (civil y m)"
  have my: "(if m + 2 \<ge> 12 then (m + 2 - 12, y + 1) else (m + 2, y)) = (mon - 1, year)"
    by (simp add: mon_def year_def civil_def)
  let ?tm = "\<lparr>tm_year = year, tm_mon = mon, tm_mday = d + 1, tm_hour = t mod 86400 div 3600,
    tm_min = t mod 86400 div 60 mod 60, tm_sec = t mod 86400 mod 60, tm_wday = (days + 2) mod 7,
    tm_yday = timeutils_year_day year mon (d + 1)\<rparr>"
  have sec: "0 \<le> t mod 86400" by simp
  have h: "c_div (t mod 86400) 3600 = t mod 86400 div 3600" "c_rem (c_div (t mod 86400) 60) 60 = t mod 86400 div 60 mod 60"
    "c_rem (t mod 86400) 60 = t mod 86400 mod 60"
    by (simp_all add: c_div_nonneg c_rem_nonneg pos_imp_zdiv_nonneg_iff)
  have e: "timeutils_seconds_since_2000_to_struct_time t = Some ?tm"
    unfolding timeutils_seconds_since_2000_to_struct_time_def Let_def s fl prod.case sp(1) option.case w my h by simp
  have yr: "2000 \<le> year" "year \<le> 2100" "1 \<le> mon" "mon \<le> 12"
    using sp civil_range [of m y] by (auto simp: year_def mon_def civil_def)
  have c: "civil y m = (year, mon)" by (simp add: year_def mon_def)
  have md: "1 \<le> d + 1" "d + 1 \<le> timeutils_days_in_month year mon" "day_number (year, mon) (d + 1) = t div 86400"
    using sp(4-6) by (simp_all add: c days_def)
  have sc: "t mod 86400 mod 60 = t mod 60" by (simp add: mod_mod_cancel)
  have wd: "(days + 2) mod 7 = (t div 86400 + 5) mod 7"
    unfolding days_def using mod_mult_self1 [of "t div 86400 + 5" "- 9" 7] by simp
  show thesis by (rule that [OF e]) (simp_all only: struct_time.select_convs yr md sc wd)
qed

section \<open>Normalisation\<close>

text \<open>Both loops keep the day number, and the year does not wrap on the way.\<close>

lemma year_day_bounds:
  assumes "1 \<le> m" "m \<le> 12" "1 \<le> d" "d \<le> timeutils_days_in_month y m"
  shows "1 \<le> timeutils_year_day y m d" "timeutils_year_day y m d \<le> 365 + of_bool (timeutils_is_leap_year y)"
  using month_cases [OF assms(1,2)] assms(3,4)
  by (auto simp: timeutils_year_day_def timeutils_days_in_month_def days_since_jan1_def Let_def split: if_splits)

lemma day_number_first: "1 \<le> m \<Longrightarrow> m \<le> 12 \<Longrightarrow> days_before_year y \<le> day_number (y, m) 1"
  using month_cases [of m] by (auto simp: day_number_def timeutils_year_day_def days_since_jan1_def Let_def)

lemma days_up_ok:
  assumes "1 \<le> snd ym" "snd ym \<le> 12" "1 \<le> fst ym" "fst ym < 2 ^ 32" "days_before_year 1 \<le> day_number ym mday"
    "days_up ym mday = (ym', mday')"
  shows "day_number ym' mday' = day_number ym mday \<and> 1 \<le> snd ym' \<and> snd ym' \<le> 12 \<and> 1 \<le> fst ym' \<and>
    fst ym' \<le> fst ym \<and> 1 \<le> mday'"
  using assms
proof (induction ym mday rule: days_up.induct)
  case (1 ym mday)
  show ?case
  proof (cases "mday < 1")
    case True
    let ?p = "prev_month ym"
    have r: "1 \<le> snd ?p" "snd ?p \<le> 12" using prev_next_range(1) [of ym] "1.prems" by auto
    have "\<not> (fst ym = 1 \<and> snd ym = 1)"
    proof
      assume "fst ym = 1 \<and> snd ym = 1"
      then have "ym = (1, 1)" by (simp add: prod_eq_iff)
      then have "day_number ym mday = days_before_year 1 + mday - 1"
        by (simp add: day_number_def timeutils_year_day_def days_since_jan1_def)
      then show False using "1.prems"(5) True by simp
    qed
    then have y: "1 \<le> fst ?p" "fst ?p \<le> fst ym"
      using "1.prems" by (cases ym; auto simp: prev_month_def mp_uint_def)+
    have n: "next_month ?p = ym" using "1.prems" by (intro next_prev_month)
    have "snd ?p = 12 \<longrightarrow> fst ?p < 2 ^ 32 - 1"
      using "1.prems" by (cases ym) (auto simp: prev_month_def mp_uint_def)
    then have dn: "day_number ?p (mday + month_length ?p) = day_number ym mday"
      using day_number_next [of ?p mday] r y n by simp
    have e: "days_up ym mday = days_up ?p (mday + month_length ?p)"
      using True "1.prems" by (subst days_up.simps) simp
    have c: "mday < 1 \<and> 1 \<le> snd ym \<and> snd ym \<le> 12" using True "1.prems" by simp
    show ?thesis
      using "1.IH" [OF c r y(1) _ _ ] "1.prems" y e dn by auto
  next
    case False
    then show ?thesis using "1.prems" by (subst (asm) days_up.simps) auto
  qed
qed

lemma days_down_ok:
  assumes "1 \<le> snd ym" "snd ym \<le> 12" "1 \<le> fst ym" "fst ym < 2 ^ 32" "day_number ym mday < days_before_year (2 ^ 32 - 1)"
    "1 \<le> mday" "days_down ym mday = (ym', mday')"
  shows "day_number ym' mday' = day_number ym mday \<and> 1 \<le> snd ym' \<and> snd ym' \<le> 12 \<and> 1 \<le> fst ym' \<and>
    fst ym' < 2 ^ 32 \<and> 1 \<le> mday' \<and> mday' \<le> month_length ym'"
  using assms
proof (induction ym mday rule: days_down.induct)
  case (1 ym mday)
  show ?case
  proof (cases "mday > month_length ym")
    case True
    let ?n = "next_month ym"
    have c: "mday > month_length ym \<and> 1 \<le> snd ym \<and> snd ym \<le> 12" using True "1.prems" by simp
    have r: "1 \<le> snd ?n" "snd ?n \<le> 12" using prev_next_range(2) [of ym] "1.prems" by auto
    have "days_before_year (fst ym) \<le> day_number ym mday"
      using day_number_first [OF "1.prems"(1,2), of "fst ym"] day_number_shift [of ym 1 "mday - 1"] "1.prems"(6) by simp
    then have y: "fst ym \<noteq> 2 ^ 32 - 1" using "1.prems"(5) by auto
    then have yn: "1 \<le> fst ?n" "fst ?n < 2 ^ 32"
      using "1.prems"(3,4) by (cases ym; auto simp: next_month_def mp_uint_def)+
    have dn: "day_number ?n (mday - month_length ym) = day_number ym mday"
      using day_number_next [OF "1.prems"(1,2), of "mday - month_length ym"] "1.prems"(3,4) y by simp
    have e: "days_down ym mday = days_down ?n (mday - month_length ym)"
      using c by (subst days_down.simps) simp
    show ?thesis using "1.IH" [OF c r yn] "1.prems" True e dn by auto
  next
    case False
    then show ?thesis using "1.prems" by (subst (asm) days_down.simps) auto
  qed
qed

lemma days_before_year_mono: "y \<le> z \<Longrightarrow> days_before_year y \<le> days_before_year z"
proof (induction "nat (z - y)" arbitrary: z)
  case (Suc n)
  then have "days_before_year y \<le> days_before_year (z - 1)" by simp
  also have "\<dots> \<le> days_before_year z" using days_before_year_Suc [of "z - 1"] by simp
  finally show ?case .
qed simp

lemma day_number_year:
  assumes "1 \<le> m" "m \<le> 12" "1 \<le> d" "d \<le> timeutils_days_in_month y m" "0 \<le> day_number (y, m) d"
  shows "2000 \<le> y"
proof (rule ccontr)
  assume "\<not> 2000 \<le> y"
  then have "days_before_year (y + 1) \<le> days_before_year 2000" by (intro days_before_year_mono) simp
  then show False
    using year_day_bounds(2) [OF assms(1-4)] assms(5) days_before_year_Suc [of y]
    by (simp add: day_number_def days_before_year_def [of 2000])
qed

lemma mktime_ok:
  fixes year month mday hours minutes seconds :: int
  defines "y \<equiv> year + (month - 1) div 12" and "m \<equiv> (month - 1) mod 12 + 1"
  defines "stamp \<equiv> 86400 * day_number (y, m) mday + 3600 * hours + 60 * minutes + seconds"
  assumes "1 \<le> y" "y < 2 ^ 32" "0 \<le> stamp" "stamp < 2 ^ 32"
  shows "timeutils_mktime_2000 year month mday hours minutes seconds = stamp"
proof -
  define mi where "mi = minutes + seconds div 60"
  define h where "h = hours + mi div 60"
  define d where "d = mday + h div 24"
  have m: "1 \<le> m" "m \<le> 12" by (simp_all add: m_def)
  have tot: "stamp = 86400 * day_number (y, m) d + 3600 * (h mod 24) + 60 * (mi mod 60) + seconds mod 60"
  proof -
    have "day_number (y, m) d = day_number (y, m) mday + h div 24" by (simp add: d_def day_number_shift)
    moreover have "24 * (h div 24) + h mod 24 = hours + mi div 60" "60 * (mi div 60) + mi mod 60 = minutes + seconds div 60"
      "60 * (seconds div 60) + seconds mod 60 = seconds" by (simp_all add: h_def mi_def)
    ultimately show ?thesis unfolding stamp_def by linarith
  qed
  have rest: "0 \<le> 3600 * (h mod 24) + 60 * (mi mod 60) + seconds mod 60" "3600 * (h mod 24) + 60 * (mi mod 60) + seconds mod 60 < 86400"
    using pos_mod_bound [of 24 h] pos_mod_bound [of 60 mi] pos_mod_bound [of 60 seconds] by simp_all
  then have dn: "0 \<le> day_number (y, m) d" "day_number (y, m) d < 2 ^ 32" using assms(6,7) tot by linarith+
  obtain ym1 d1 where u: "days_up (y, m) d = (ym1, d1)" by (cases "days_up (y, m) d")
  obtain ym2 d2 where w: "days_down ym1 d1 = (ym2, d2)" by (cases "days_down ym1 d1")
  have lo: "days_before_year 1 \<le> 0" and hi: "2 ^ 32 \<le> days_before_year (2 ^ 32 - 1)" by (simp_all add: days_before_year_def)
  have 1: "day_number ym1 d1 = day_number (y, m) d \<and> 1 \<le> snd ym1 \<and> snd ym1 \<le> 12 \<and> 1 \<le> fst ym1 \<and> fst ym1 \<le> y \<and> 1 \<le> d1"
    using days_up_ok [of "(y, m)" d ym1 d1] m assms(4,5) dn lo u by simp
  have 2: "day_number ym2 d2 = day_number (y, m) d \<and> 1 \<le> snd ym2 \<and> snd ym2 \<le> 12 \<and> 1 \<le> fst ym2 \<and>
      fst ym2 < 2 ^ 32 \<and> 1 \<le> d2 \<and> d2 \<le> month_length ym2"
    using days_down_ok [of ym1 d1 ym2 d2] 1 assms(5) dn hi w by simp
  have "2000 \<le> fst ym2" using day_number_year [of "snd ym2" d2 "fst ym2"] 2 dn by simp
  then have "timeutils_seconds_since_2000 (fst ym2) (snd ym2) d2 (h mod 24) (mi mod 60) (seconds mod 60) = mp_uint stamp"
    using seconds_since_2000_eq [of "fst ym2" "snd ym2" d2] 2 tot by simp
  moreover have "mp_uint stamp = stamp" "mp_uint y = y" using assms(4-7) by (simp_all add: mp_uint_def)
  moreover have "timeutils_mktime_2000 year month mday hours minutes seconds =
      timeutils_seconds_since_2000 (fst ym2) (snd ym2) d2 (h mod 24) (mi mod 60) (seconds mod 60)"
    unfolding timeutils_mktime_2000_def Let_def
    using u w \<open>mp_uint y = y\<close> by (simp add: carry_eq mi_def h_def d_def y_def m_def)
  ultimately show ?thesis by simp
qed

section \<open>Weekdays\<close>

lemma leap_split:
  "(n + 3) div 4 - (n + 99) div 100 + (n + 399) div 400 + of_bool (timeutils_is_leap_year (2000 + n)) =
    n div 4 - n div 100 + n div 400 + (1 :: int)"
proof -
  have c: "(n + (k - 1)) div k = n div k + 1 - of_bool (k dvd n)" if "0 < k" for k
  proof -
    have "(n + 1 + (k - 1)) div k = n div k + 1" using that by (simp add: div_add_self2)
    then show ?thesis using ceil_div_step [OF that, of n] by simp
  qed
  have "4 dvd (2000 + n) \<longleftrightarrow> 4 dvd n" "100 dvd (2000 + n) \<longleftrightarrow> 100 dvd n" "400 dvd (2000 + n) \<longleftrightarrow> 400 dvd n"
    by (simp_all add: dvd_add_right_iff)
  then show ?thesis using c [of 4] c [of 100] c [of 400] unfolding leap_bool by simp
qed

lemma calc_weekday_eq:
  assumes "2000 \<le> y" "1 \<le> m" "m \<le> 12" "1 \<le> d"
  shows "timeutils_calc_weekday y m d = (day_number (y, m) d + 5) mod 7"
proof -
  define n where "n = y - 2000"
  define G where "G = (n + 3) div 4 - (n + 99) div 100 + (n + 399) div 400"
  define F where "F = n div 4 - n div 100 + n div 400"
  have n: "y = 2000 + n" "0 \<le> n" using assms(1) by (simp_all add: n_def)
  have day: "day_number (y, m) d = 365 * n + G + days_since_jan1 ! nat (m - 1) + d - 1
      + of_bool (3 \<le> m \<and> timeutils_is_leap_year (2000 + n))"
    by (simp add: day_number_def days_before_year_def timeutils_year_day_def Let_def n G_def)
  have late: "G + of_bool (timeutils_is_leap_year (2000 + n)) = F + 1" using leap_split [of n] by (simp add: G_def F_def)
  have pos: "0 \<le> 23 * m" "0 \<le> y" "0 \<le> y - 1" using assms(1,2) by simp_all
  show ?thesis
  proof (cases "m < 3")
    case True
    have "(y - 1) div 4 = 499 + (n + 3) div 4" "(y - 1) div 100 = 19 + (n + 99) div 100" "(y - 1) div 400 = 4 + (n + 399) div 400"
      using div_mult_self2 [of 4 "n + 3" 499] div_mult_self2 [of 100 "n + 99" 19] div_mult_self2 [of 400 "n + 399" 4]
      by (simp_all add: n algebra_simps)
    then have "timeutils_calc_weekday y m d = c_rem (23 * m div 9 + d + n + G + 2494) 7"
      using True pos by (simp add: timeutils_calc_weekday_def c_div_nonneg n G_def algebra_simps)
    moreover have "0 \<le> G" unfolding G_def using n(2) by (simp add: div_le_mono2)
    ultimately have w: "timeutils_calc_weekday y m d = (23 * m div 9 + d + n + G + 2494) mod 7"
      using assms n(2) by (simp add: c_rem_nonneg)
    have "m = 1 \<or> m = 2" using True assms(2) by linarith
    then have "\<exists>k. 23 * m div 9 + 2494 = days_since_jan1 ! nat (m - 1) + 4 + 7 * k"
      by (elim disjE; simp add: days_since_jan1_def; presburger)
    then obtain k where "23 * m div 9 + 2494 = days_since_jan1 ! nat (m - 1) + 4 + 7 * k" ..
    then have "23 * m div 9 + d + n + G + 2494 = day_number (y, m) d + 5 + 7 * (k - 52 * n)"
      using day True by simp
    then show ?thesis unfolding w by (simp only: mod_mult_self2)
  next
    case False
    have "y div 4 = 500 + n div 4" "y div 100 = 20 + n div 100" "y div 400 = 5 + n div 400"
      using div_mult_self2 [of 4 n 500] div_mult_self2 [of 100 n 20] div_mult_self2 [of 400 n 5]
      by (simp_all add: n algebra_simps)
    then have "timeutils_calc_weekday y m d = c_rem (23 * m div 9 + d + n + F + 2493) 7"
      using False pos by (simp add: timeutils_calc_weekday_def c_div_nonneg n F_def algebra_simps)
    moreover have "0 \<le> F" unfolding F_def using n(2) by (simp add: div_le_mono2)
    ultimately have w: "timeutils_calc_weekday y m d = (23 * m div 9 + d + n + F + 2493) mod 7"
      using assms n(2) by (simp add: c_rem_nonneg)
    have "day_number (y, m) d = 365 * n + F + days_since_jan1 ! nat (m - 1) + d" using day late False by simp
    moreover have "\<exists>k. 23 * m div 9 + 2493 = days_since_jan1 ! nat (m - 1) + 5 + 7 * k"
      using month_cases [OF assms(2,3)] False by (elim disjE; simp add: days_since_jan1_def; presburger)
    then obtain k where "23 * m div 9 + 2493 = days_since_jan1 ! nat (m - 1) + 5 + 7 * k" ..
    ultimately have "23 * m div 9 + d + n + F + 2493 = day_number (y, m) d + 5 + 7 * (k - 52 * n)" by simp
    then show ?thesis unfolding w by (simp only: mod_mult_self2)
  qed
qed

section \<open>Properties\<close>

text \<open>
  C29. Converting a number of seconds from 2000 up to the end of the signed range to a date
  and back gives the same number.  The fields are in their ranges, the day exists in its
  month, the day of the year is right, and the weekday is the one that the independent
  formula of \<^verbatim>\<open>timeutils_calc_weekday\<close> gives for the date.
\<close>

theorem struct_time_round_trip:
  assumes "0 \<le> t" "t < 2 ^ 31 + LEAPOCH"
  shows "\<exists>tm. timeutils_seconds_since_2000_to_struct_time t = Some tm \<and>
    2000 \<le> tm_year tm \<and> 1 \<le> tm_mon tm \<and> tm_mon tm \<le> 12 \<and> 1 \<le> tm_mday tm \<and>
    tm_mday tm \<le> timeutils_days_in_month (tm_year tm) (tm_mon tm) \<and>
    0 \<le> tm_hour tm \<and> tm_hour tm < 24 \<and> 0 \<le> tm_min tm \<and> tm_min tm < 60 \<and> 0 \<le> tm_sec tm \<and> tm_sec tm < 60 \<and>
    tm_yday tm = timeutils_year_day (tm_year tm) (tm_mon tm) (tm_mday tm) \<and>
    tm_wday tm = timeutils_calc_weekday (tm_year tm) (tm_mon tm) (tm_mday tm) \<and>
    timeutils_seconds_since_2000 (tm_year tm) (tm_mon tm) (tm_mday tm) (tm_hour tm) (tm_min tm) (tm_sec tm) = t"
proof -
  obtain tm where tm: "timeutils_seconds_since_2000_to_struct_time t = Some tm"
    "2000 \<le> tm_year tm" "tm_year tm \<le> 2100" "1 \<le> tm_mon tm" "tm_mon tm \<le> 12" "1 \<le> tm_mday tm"
    "tm_mday tm \<le> timeutils_days_in_month (tm_year tm) (tm_mon tm)"
    "tm_hour tm = t mod 86400 div 3600" "tm_min tm = t mod 86400 div 60 mod 60" "tm_sec tm = t mod 60"
    "tm_wday tm = (t div 86400 + 5) mod 7"
    "tm_yday tm = timeutils_year_day (tm_year tm) (tm_mon tm) (tm_mday tm)"
    "day_number (tm_year tm, tm_mon tm) (tm_mday tm) = t div 86400"
    using to_struct_time_ok [OF assms] by metis
  let ?s = "t mod 86400"
  have s: "0 \<le> ?s" "?s < 86400" by simp_all
  then have h: "0 \<le> tm_hour tm" "tm_hour tm < 24" unfolding tm(8) by (simp_all add: pos_imp_zdiv_nonneg_iff int_div_lessI)
  have "?s div 60 div 60 = ?s div 3600" using zdiv_zmult2_eq [of 60 ?s 60] by simp
  moreover have "60 * (?s div 60 div 60) + ?s div 60 mod 60 = ?s div 60" by (rule mult_div_mod_eq)
  moreover have "60 * (?s div 60) + ?s mod 60 = ?s" "86400 * (t div 86400) + ?s = t" by (rule mult_div_mod_eq)+
  moreover have "?s mod 60 = t mod 60" by (simp add: mod_mod_cancel)
  ultimately have "86400 * (t div 86400) + 3600 * tm_hour tm + 60 * tm_min tm + tm_sec tm = t"
    unfolding tm(8-10) by linarith
  then have "timeutils_seconds_since_2000 (tm_year tm) (tm_mon tm) (tm_mday tm) (tm_hour tm) (tm_min tm) (tm_sec tm) = mp_uint t"
    using seconds_since_2000_eq [of "tm_year tm" "tm_mon tm" "tm_mday tm" "tm_hour tm" "tm_min tm" "tm_sec tm"] tm(2,3,13) by simp
  moreover have "mp_uint t = t" using assms by (simp add: mp_uint_def LEAPOCH_def)
  moreover have "tm_wday tm = timeutils_calc_weekday (tm_year tm) (tm_mon tm) (tm_mday tm)"
    using calc_weekday_eq [OF tm(2,4,5,6)] tm(11,13) by simp
  moreover have "0 \<le> tm_min tm" "tm_min tm < 60" "0 \<le> tm_sec tm" "tm_sec tm < 60" by (simp_all add: tm(9,10))
  ultimately show ?thesis using tm(1,2,4-7,12) h by (intro exI [of _ tm]) simp
qed

theorem struct_time_round_trip_witness:
  "\<exists>tm. timeutils_seconds_since_2000_to_struct_time 820454399 = Some tm \<and>
    timeutils_seconds_since_2000 (tm_year tm) (tm_mon tm) (tm_mday tm) (tm_hour tm) (tm_min tm) (tm_sec tm) = 820454399"
  using struct_time_round_trip [of 820454399] by (auto simp: LEAPOCH_def)



text \<open>
  From \<^verbatim>\<open>2^31\<close> seconds after the leap epoch on, in the year 2068, the difference is taken
  as negative and the date is one of the twentieth century.
\<close>

lemma struct_time_wraps:
  "map_option tm_year (timeutils_seconds_since_2000_to_struct_time (2 ^ 31 + LEAPOCH)) = Some 1932"
  by code_simp

end
