(* ===== verification/Spec2Isabelle.thy ===== *)
theory Spec2Isabelle
  imports Ringbuf Mpz_Conv Mpz_Str Display Dict Set_Obj Heapq Framebuf_Poly Framebuf_Copy Timeutils
begin

text \<open>
  \<^bold>\<open>The program.\<close>  The firmware of the CalSci calculator is MicroPython for the ESP32 with a driver
  for the calculator's LCD.  Python programs compute with integers of any size, keep data in
  dictionaries, sets and lists, read keys and serial input through byte queues, ask the calendar
  for dates, draw into a frame buffer and send its bytes to the LCD controller.  This development
  models the C code of those parts and proves what each of them promises.

  \<^bold>\<open>Theories and sources\<close> (all paths under \<^verbatim>\<open>src/\<close>).

  \<^item> \<^verbatim>\<open>Prelude\<close>: C integer conversions and division, block copies, exceptions, shared lemmas.
  \<^item> \<^verbatim>\<open>Ringbuf\<close>: the byte queue of \<^verbatim>\<open>py/ringbuf.c\<close> and \<^verbatim>\<open>py/ringbuf.h\<close>, with its 16-bit indices.
    A locale states the contract of a bounded queue; every sequence of operations refines it.
  \<^item> \<^verbatim>\<open>Mpn\<close>, \<^verbatim>\<open>Mpn_Shift\<close>, \<^verbatim>\<open>Mpn_Mul\<close>, \<^verbatim>\<open>Mpn_Bits\<close>, \<^verbatim>\<open>Mpn_Div\<close>: the loops on arrays of 16-bit digits of
    \<^verbatim>\<open>py/mpz.c\<close>: comparison, shifts, sums, products, bitwise operations in two's complement, and
    Knuth's long division.  Each is related to the integer that its digits stand for.
  \<^item> \<^verbatim>\<open>Mpz\<close>, \<^verbatim>\<open>Mpz_Arith\<close>, \<^verbatim>\<open>Mpz_Conv\<close>, \<^verbatim>\<open>Mpz_Str\<close>: \<^verbatim>\<open>mpz_t\<close> on top of them: arithmetic with Python's floor
    division and remainder, powers, conversions to words, bytes and digit strings.
  \<^item> \<^verbatim>\<open>Probe\<close>, \<^verbatim>\<open>Objects\<close>, \<^verbatim>\<open>Mp_Map\<close>, \<^verbatim>\<open>Mp_Set\<close>: the hash tables of \<^verbatim>\<open>py/map.c\<close>.  Linear probing with deletion
    marks, growth and rehashing, ordered arrays and the lookup cache.  The locale \<open>key_ops\<close>, extended
    by \<open>hashable\<close>, states the laws of equality and hash of keys; \<^verbatim>\<open>Objects\<close> interprets it on integers,
    interned strings and string objects as the firmware compares and hashes them.
  \<^item> \<^verbatim>\<open>Dict\<close>, \<^verbatim>\<open>Set_Obj\<close>: the types \<^verbatim>\<open>dict\<close> and \<^verbatim>\<open>OrderedDict\<close> of \<^verbatim>\<open>py/objdict.c\<close> and \<^verbatim>\<open>set\<close> and \<^verbatim>\<open>frozenset\<close> of
    \<^verbatim>\<open>py/objset.c\<close>, which refine finite maps and sets, with their exceptions and with operands
    that are the same object.
  \<^item> \<^verbatim>\<open>Sequence\<close>, \<^verbatim>\<open>List_Obj\<close>, \<^verbatim>\<open>List_Sort\<close>, \<^verbatim>\<open>Heapq\<close>: the helpers of sequences (\<^verbatim>\<open>py/sequence.c\<close>, \<^verbatim>\<open>py/objslice.c\<close>), the
    type \<^verbatim>\<open>list\<close> of \<^verbatim>\<open>py/objlist.c\<close> with its array, its methods, slices and quicksort, and the heap queue
    of \<^verbatim>\<open>extmod/modheapq.c\<close>.  List objects refine sequences and heaps refine multisets; the locale
    \<open>sortable\<close> states what sorting asks of the comparison and is interpreted on integers and on
    strings, the locale \<open>priority_queue\<close> what a client may expect of a heap.
  \<^item> \<^verbatim>\<open>Framebuf\<close>, \<^verbatim>\<open>Framebuf_Draw\<close>, \<^verbatim>\<open>Framebuf_Poly\<close>, \<^verbatim>\<open>Framebuf_Copy\<close>: \<^verbatim>\<open>extmod/modframebuf.c\<close> and the font of
    \<^verbatim>\<open>extmod/font_petme128_8x8.h\<close>: pixel formats, constructors, the log of changed bytes, and all
    drawing methods.  A drawing operation is specified by the set of points it paints.
  \<^item> \<^verbatim>\<open>Display\<close>: the LCD driver of \<^verbatim>\<open>c_modules/display\<close>.  A driver function is the trace of pin and SPI
    actions it performs; the locale \<open>st7565_controller\<close> states the addressing protocol of the data
    sheet, and is interpreted on an executable controller.
  \<^item> \<^verbatim>\<open>Timeutils\<close>: the calendar of \<^verbatim>\<open>shared/timeutils/timeutils.c\<close>.

  This theory composes the frame buffer with the driver: what is drawn is what the LCD shows.

  \<^bold>\<open>Integers, loops and memory.\<close>  Digits, bytes and pixels are machine words; indices and sizes are
  natural numbers with the truncation to 8, 16 or 32 bits written out where the code stores them
  in a smaller type.  Coordinates of drawing operations are integers that do not overflow, as the
  arguments are small.  A loop is a recursive function with a termination proof.  Where the end of
  a loop needs an invariant, it is a partial function or takes fuel, \<open>None\<close> is the value of a
  computation that does not return, and the theorems show that a value is returned: nested calls
  of the hash tables need five levels (\<open>map_fuel\<close>, \<open>set_fuel\<close>), as a table is rehashed at most once in
  a lookup, and probing needs as many steps as the table has slots; the loops of ellipses, of
  iteration over sets and of slices with a step and the recursion of quicksort are partial
  functions.  Memory is taken to be sufficient, and new memory to hold arbitrary values.
  Comparisons of list items are taken not to raise an exception.

  \<^bold>\<open>Not modelled.\<close>  The compiler and the virtual machine, whose specification would be a semantics of
  Python; the garbage collector, floating point, and most of the string type; hardware access of
  the port, network and file systems, which are calls of third-party code; the calculator's own
  programs, which are written in Python.  Printing of containers is left out, too.  Equality, hash
  and comparison of objects that are not integers or strings are parameters with stated laws.
\<close>

section \<open>From the frame buffer to the screen\<close>

text \<open>
  The calculator draws into a frame buffer in the format \<^verbatim>\<open>MVLSB\<close> and sends its bytes to
  the LCD.  The pages of the LCD have the layout of that format.
\<close>

definition is_screen :: "framebuf \<Rightarrow> bool" where
  "is_screen fb \<longleftrightarrow> drawable fb \<and> fb_format fb = MVLSB \<and> fb_width fb = 128 \<and> fb_height fb = 64 \<and>
     fb_stride fb = 128 \<and> length (fb_buf fb) = 1024"

lemma cell_get_bit: "cell_get s 1 b = of_bool (bit b s)"
  by (simp add: cell_get_def mod_2_eq_odd bit_iff_odd_drop_bit)

lemma of_bool_color: "(of_bool p :: color) = of_bool q \<Longrightarrow> p = q"
  by (cases p; cases q) simp_all

lemma screen_pixel:
  assumes "is_screen fb" "x < 128" "y < 64"
  shows "getpixel fb x y = Inr (of_bool (bit (fb_buf fb ! (y div 8 * 128 + x)) (y mod 8)))"
proof -
  have "fb_wf fb" "cell_format (fb_format fb)" "x < fb_width fb" "y < fb_height fb"
    using assms by (simp_all add: is_screen_def drawable_def cell_format_def)
  from getpixel_ok [OF this] show ?thesis
    using assms(1) cell_get_bit [of "y mod 8" "fb_buf fb ! (y div 8 * 128 + x)"]
    by (simp add: is_screen_def pix_index_def pix_shift_def pix_bits_def)
qed

lemma paints_screen:
  assumes "is_screen fb" "paints S col fb (Inr fb')"
  shows "is_screen fb'"
  using paints_drawable [OF assms(2)] assms(1) by (simp add: is_screen_def)

lemma draw_screen:
  assumes "st7565_controller step page column ram" "cs disp \<noteq> rs disp" "is_screen fb"
  shows "\<exists>t. mp_st7565_draw disp (fb_buf fb) 0 0 128 8 = Inr (Some t) \<and>
    (\<forall>x<128. \<forall>y<64. getpixel fb x y =
      Inr (of_bool (bit (ram (foldl step s (latched disp True rsl t)) (y div 8) x) (y mod 8))))"
proof -
  have "int (length (fb_buf fb)) = 128 * 8" using assms(3) by (simp add: is_screen_def)
  then obtain t where t: "mp_st7565_draw disp (fb_buf fb) 0 0 128 8 = Inr (Some t)"
    "ram (foldl step s (latched disp True rsl t)) =
      (\<lambda>q x. if nat 0 \<le> q \<and> q < nat 0 + nat 8 \<and> nat 0 \<le> x \<and> x < nat 0 + nat 128
        then fb_buf fb ! ((q - nat 0) * nat 128 + (x - nat 0)) else ram s q x)"
    using draw_rectangle [OF assms(1,2), of 0 0 128 8 "fb_buf fb" s rsl] by auto
  have "getpixel fb x y = Inr (of_bool (bit (ram (foldl step s (latched disp True rsl t)) (y div 8) x) (y mod 8)))"
    if "x < 128" "y < 64" for x y
  proof -
    have "y div 8 < 8" using that by auto
    then show ?thesis using screen_pixel [OF assms(3) that] t(2) that by simp
  qed
  then show ?thesis using t(1) by blast
qed

text \<open>
  C1. From drawing to the screen: clearing a full-screen frame buffer, writing text into it at
  any position and sending its bytes to any LCD controller that obeys the data sheet lights
  exactly the pixels of the glyphs that are on the screen.
\<close>

theorem screen_shows_text:
  assumes "st7565_controller step page column ram" "cs disp \<noteq> rs disp" "is_screen fb"
  shows "\<exists>fb1 fb2 t. framebuf_fill 0 fb = Inr fb1 \<and> framebuf_text str x0 y0 1 fb1 = Inr fb2 \<and>
    mp_st7565_draw disp (fb_buf fb2) 0 0 128 8 = Inr (Some t) \<and>
    (\<forall>x<128. \<forall>y<64. bit (ram (foldl step s (latched disp True rsl t)) (y div 8) x) (y mod 8) \<longleftrightarrow>
      (int x, int y) \<in> glyph_points (takeWhile (\<lambda>c. c \<noteq> 0) str) x0 y0)"
proof -
  let ?G = "glyph_points (takeWhile (\<lambda>c. c \<noteq> 0) str) x0 y0"
  have fb: "drawable fb" "fb_width fb = 128" "fb_height fb = 64" "fb_format fb = MVLSB"
    using assms(3) by (simp_all add: is_screen_def)
  have p1: "paints UNIV 0 fb (framebuf_fill 0 fb)" by (rule framebuf_fill_ok [OF fb(1)])
  then obtain fb1 where fb1: "framebuf_fill 0 fb = Inr fb1" by (auto simp: paints_def)
  have s1: "is_screen fb1" using paints_screen [OF assms(3)] p1 fb1 by metis
  then have d1: "drawable fb1" "fb_width fb1 = 128" "fb_height fb1 = 64" "fb_format fb1 = MVLSB"
    by (simp_all add: is_screen_def)
  have p2: "paints ?G 1 fb1 (framebuf_text str x0 y0 1 fb1)" by (rule framebuf_text_ok [OF d1(1)])
  then obtain fb2 where fb2: "framebuf_text str x0 y0 1 fb1 = Inr fb2" by (auto simp: paints_def)
  have s2: "is_screen fb2" using paints_screen [OF s1] p2 fb2 by metis
  obtain t where t: "mp_st7565_draw disp (fb_buf fb2) 0 0 128 8 = Inr (Some t)"
    "\<forall>x<128. \<forall>y<64. getpixel fb2 x y =
      Inr (of_bool (bit (ram (foldl step s (latched disp True rsl t)) (y div 8) x) (y mod 8)))"
    using draw_screen [OF assms(1,2) s2] by blast
  have g: "getpixel fb2 x y = Inr (of_bool ((int x, int y) \<in> ?G))" if "x < 128" "y < 64" for x y
    using p1 p2 that unfolding fb1 fb2 paints_def by (auto simp: fb d1 pix_value_def)
  have "bit (ram (foldl step s (latched disp True rsl t)) (y div 8) x) (y mod 8) \<longleftrightarrow> (int x, int y) \<in> ?G"
    if "x < 128" "y < 64" for x y
  proof (rule of_bool_color)
    show "(of_bool (bit (ram (foldl step s (latched disp True rsl t)) (y div 8) x) (y mod 8)) :: color) =
        of_bool ((int x, int y) \<in> ?G)"
      using t(2) [rule_format, OF that] g [OF that] by simp
  qed
  then show ?thesis using fb1 fb2 t(1) by blast
qed

definition blank_screen :: framebuf where
  "blank_screen = \<lparr>fb_buf = replicate 1024 0, fb_width = 128, fb_height = 64, fb_stride = 128, fb_format = MVLSB,
     changed_indexes = [], changed_capacity = 1024, changed_cleared = False\<rparr>"

lemma blank_screen_ok: "is_screen blank_screen"
  by (simp add: blank_screen_def is_screen_def drawable_def fb_wf_def cell_format_def round_up_def)

theorem screen_shows_text_witness:
  "\<exists>fb1 fb2 t. framebuf_fill 0 blank_screen = Inr fb1 \<and> framebuf_text [33] 0 2 1 fb1 = Inr fb2 \<and>
    mp_st7565_draw \<lparr>cs = 9, rs = 10, rst = 11\<rparr> (fb_buf fb2) 0 0 128 8 = Inr (Some t) \<and>
    bit (lcd_ram (foldl lcd_step \<lparr>lcd_page = 0, lcd_col = 0, lcd_ram = \<lambda>_ _. 0\<rparr>
      (latched \<lparr>cs = 9, rs = 10, rst = 11\<rparr> True False t)) 0 3) 5"
proof -
  have "font_petme128_8x8 ! 11 = 0x4f" by (simp add: font_petme128_8x8_def)
  then have g: "(int 3, int 5) \<in> glyph_points (takeWhile (\<lambda>c. c \<noteq> 0) [33]) 0 2"
    by (auto simp: glyph_points_def font_char_def bit_iff_odd intro!: exI [of _ 0] exI [of _ 3])
  have "cs \<lparr>cs = 9, rs = 10, rst = 11\<rparr> \<noteq> rs \<lparr>cs = 9, rs = 10, rst = 11\<rparr>" by simp
  from screen_shows_text [OF lcd.st7565_controller_axioms this blank_screen_ok, of "[33]" 0 2
      "\<lparr>lcd_page = 0, lcd_col = 0, lcd_ram = \<lambda>_ _. 0\<rparr>" False]
  obtain fb1 fb2 t where t: "framebuf_fill 0 blank_screen = Inr fb1" "framebuf_text [33] 0 2 1 fb1 = Inr fb2"
    "mp_st7565_draw \<lparr>cs = 9, rs = 10, rst = 11\<rparr> (fb_buf fb2) 0 0 128 8 = Inr (Some t)"
    "\<forall>x<128. \<forall>y<64. bit (lcd_ram (foldl lcd_step \<lparr>lcd_page = 0, lcd_col = 0, lcd_ram = \<lambda>_ _. 0\<rparr>
      (latched \<lparr>cs = 9, rs = 10, rst = 11\<rparr> True False t)) (y div 8) x) (y mod 8) \<longleftrightarrow>
      (int x, int y) \<in> glyph_points (takeWhile (\<lambda>c. c \<noteq> 0) [33]) 0 2" by blast
  have "bit (lcd_ram (foldl lcd_step \<lparr>lcd_page = 0, lcd_col = 0, lcd_ram = \<lambda>_ _. 0\<rparr>
      (latched \<lparr>cs = 9, rs = 10, rst = 11\<rparr> True False t)) (5 div 8) 3) (5 mod 8)"
    using t(4) [rule_format, of 3 5] g by simp
  then show ?thesis using t(1-3) by auto
qed

end
